(* ===== verification/Tick_Prelude.thy ===== *)
theory Tick_Prelude
  imports Main "HOL-Library.Word" "HOL-Library.Code_Target_Numeral"
begin

text \<open>
  Shared vocabulary of the ticklog development: Rust's machine integers as words, byte
  strings, little-endian codecs (\<open>to_le_bytes\<close>, \<open>from_le_bytes\<close>), the slice and
  copy operations of raw buffers, and the generic lemmas the component theories use.
\<close>

unbundle bit_operations_syntax

named_theorems tick_defs \<open>unfolding rules of small definitions\<close>
named_theorems le_eval \<open>evaluation of the little-endian codecs at fixed widths\<close>
named_theorems slice_simps \<open>reading a buffer after a write\<close>

type_synonym u8 = "8 word"
type_synonym u16 = "16 word"
type_synonym u32 = "32 word"
type_synonym u64 = "64 word"
type_synonym bytes = "8 word list"

section \<open>Byte strings\<close>

text \<open>A Rust string or byte-string literal as the list of its bytes.\<close>

definition byte_of :: "char \<Rightarrow> u8" where
  "byte_of c = of_char c"

definition bs :: "string \<Rightarrow> bytes" where
  "bs s = map byte_of s"

lemma bs_Nil [simp]: "bs [] = []"
  by (simp add: bs_def)

lemma bs_Cons [simp]: "bs (c # s) = byte_of c # bs s"
  by (simp add: bs_def)

lemma length_bs [simp]: "length (bs s) = length s"
  by (simp add: bs_def)

lemma byte_of_Char [simp]:
  "byte_of (Char b0 b1 b2 b3 b4 b5 b6 b7) =
     of_bool b0 + 2 * (of_bool b1 + 2 * (of_bool b2 + 2 * (of_bool b3 + 2 * (of_bool b4 +
     2 * (of_bool b5 + 2 * (of_bool b6 + 2 * of_bool b7))))))"
  by (simp add: byte_of_def of_char_def horner_sum_simps)

section \<open>Little-endian codecs\<close>

text \<open>The \<open>n\<close> low bytes of a number, least significant first.\<close>

fun le_bytes :: "nat \<Rightarrow> nat \<Rightarrow> bytes" where
  "le_bytes 0 x = []"
| "le_bytes (Suc n) x = word_of_nat (x mod 256) # le_bytes n (x div 256)"

fun le_nat :: "bytes \<Rightarrow> nat" where
  "le_nat [] = 0"
| "le_nat (b # xs) = unat b + 256 * le_nat xs"

definition u16_to_le :: "u16 \<Rightarrow> bytes" where "u16_to_le w = le_bytes 2 (unat w)"
definition u32_to_le :: "u32 \<Rightarrow> bytes" where "u32_to_le w = le_bytes 4 (unat w)"
definition u64_to_le :: "u64 \<Rightarrow> bytes" where "u64_to_le w = le_bytes 8 (unat w)"

definition u16_of_le :: "bytes \<Rightarrow> u16" where "u16_of_le xs = word_of_nat (le_nat xs)"
definition u32_of_le :: "bytes \<Rightarrow> u32" where "u32_of_le xs = word_of_nat (le_nat xs)"
definition u64_of_le :: "bytes \<Rightarrow> u64" where "u64_of_le xs = word_of_nat (le_nat xs)"

lemma le_bytes_2 [le_eval]: "le_bytes 2 x = [word_of_nat (x mod 256), word_of_nat (x div 256 mod 256)]"
  by (simp add: numeral_2_eq_2)

lemma le_bytes_add: "le_bytes (m + n) x = le_bytes m x @ le_bytes n (x div 256 ^ m)"
  by (induction m arbitrary: x) (simp_all add: div_mult2_eq)

lemma le_bytes_4 [le_eval]: "le_bytes 4 x = le_bytes 2 x @ le_bytes 2 (x div 65536)"
  using le_bytes_add [of 2 2 x] by simp

lemma le_bytes_8 [le_eval]: "le_bytes 8 x = le_bytes 4 x @ le_bytes 4 (x div 4294967296)"
  using le_bytes_add [of 4 4 x] by simp

lemma length_le_bytes [simp]: "length (le_bytes n x) = n"
  by (induction n arbitrary: x) auto

lemma le_nat_le_bytes: "le_nat (le_bytes n x) = x mod 256 ^ n"
proof (induction n arbitrary: x)
  case 0
  then show ?case by simp
next
  case (Suc n)
  have "unat (word_of_nat (x mod 256) :: u8) = x mod 256"
    by (simp add: unat_of_nat)
  then show ?case
    by (simp add: Suc mod_mult2_eq)
qed

lemma unat_lt: "unat (w :: 'a::len word) < 2 ^ LENGTH('a)"
  by (rule unsigned_less)

lemma unat_u64_of_nat: "n < 2 ^ 64 \<Longrightarrow> unat (word_of_nat n :: u64) = n"
  by (simp add: unat_of_nat)

lemma unat_u8_less: "unat (b :: u8) < 256"
  using unat_lt [of b] by simp

lemma unat_ucast_up [simp]:
  "unat (ucast (a :: u8) :: u16) = unat a" "unat (ucast (a :: u8) :: u32) = unat a"
  "unat (ucast (a :: u8) :: u64) = unat a" "unat (ucast (b :: u16) :: u32) = unat b"
  "unat (ucast (b :: u16) :: u64) = unat b" "unat (ucast (c :: u32) :: u64) = unat c"
  using unat_lt [of a] unat_lt [of b] unat_lt [of c]
  by (simp_all add: unsigned_ucast_eq take_bit_nat_eq_self)

lemma le_bytes_le_nat: "le_bytes (length xs) (le_nat xs) = xs"
proof (induction xs)
  case Nil
  then show ?case by simp
next
  case (Cons b xs)
  have "unat b < 256" by (rule unat_u8_less)
  then show ?case by (simp add: Cons)
qed

lemma le_nat_append: "le_nat (xs @ ys) = le_nat xs + 256 ^ length xs * le_nat ys"
  by (induction xs) (simp_all add: algebra_simps)

lemma length_to_le [simp]:
  "length (u16_to_le a) = 2" "length (u32_to_le b) = 4" "length (u64_to_le c) = 8"
  by (simp_all add: u16_to_le_def u32_to_le_def u64_to_le_def)

lemma le_roundtrip [simp]:
  "u16_of_le (u16_to_le a) = a" "u32_of_le (u32_to_le b) = b" "u64_of_le (u64_to_le c) = c"
  using unat_lt [of a] unat_lt [of b] unat_lt [of c]
  by (simp_all add: u16_to_le_def u32_to_le_def u64_to_le_def u16_of_le_def u32_of_le_def
      u64_of_le_def le_nat_le_bytes)

section \<open>Raw buffers\<close>

text \<open>
  \<open>slice d o n\<close> is \<open>d[o..o+n]\<close>; \<open>blit o xs d\<close> is the buffer after
  \<open>copy_from_slice\<close> (or a raw-pointer copy) of \<open>xs\<close> to offset \<open>o\<close>. Both are
  meant for ranges inside the buffer; the models that use them check the range first
  wherever the code may leave it.
\<close>

definition slice :: "'a list \<Rightarrow> nat \<Rightarrow> nat \<Rightarrow> 'a list" where
  "slice d off n = take n (drop off d)"

definition blit :: "nat \<Rightarrow> 'a list \<Rightarrow> 'a list \<Rightarrow> 'a list" where
  "blit off xs d = take off d @ xs @ drop (off + length xs) d"

lemma length_slice [simp]: "off + n \<le> length d \<Longrightarrow> length (slice d off n) = n"
  by (simp add: slice_def)

lemma length_blit [simp]: "off + length xs \<le> length d \<Longrightarrow> length (blit off xs d) = length d"
  by (simp add: blit_def)

lemma slice_0_full [simp]: "length d \<le> n \<Longrightarrow> slice d 0 n = d"
  by (simp add: slice_def)

lemma slice_nth: "off + n \<le> length d \<Longrightarrow> i < n \<Longrightarrow> slice d off n ! i = d ! (off + i)"
  by (simp add: slice_def)

lemma blit_nth:
  assumes "off + length xs \<le> length d" "i < length d"
  shows "blit off xs d ! i = (if off \<le> i \<and> i < off + length xs then xs ! (i - off) else d ! i)"
  using assms by (auto simp: blit_def nth_append min_def)

lemma slice_eqI:
  assumes "off + n \<le> length d" "off + n \<le> length e"
    and "\<And>i. off \<le> i \<Longrightarrow> i < off + n \<Longrightarrow> d ! i = e ! i"
  shows "slice d off n = slice e off n"
  by (rule nth_equalityI) (use assms in \<open>auto simp: slice_nth\<close>)

lemma slice_blit_same [slice_simps, simp]:
  "off + length xs \<le> length d \<Longrightarrow> slice (blit off xs d) off (length xs) = xs"
  by (simp add: slice_def blit_def)

lemma slice_blit_other [slice_simps]:
  assumes "off + length xs \<le> length d" "a + n \<le> length d"
    and "a + n \<le> off \<or> off + length xs \<le> a"
  shows "slice (blit off xs d) a n = slice d a n"
  using assms by (intro slice_eqI) (auto simp: blit_nth)

lemma blit_0_full [simp]: "length xs = length d \<Longrightarrow> blit 0 xs d = xs"
  by (simp add: blit_def)

lemma blit_Nil [simp]: "blit off [] d = d"
  by (simp add: blit_def)

lemma blit_append:
  assumes "off + length xs + length ys \<le> length d"
  shows "blit (off + length xs) ys (blit off xs d) = blit off (xs @ ys) d"
  by (rule nth_equalityI) (use assms in \<open>auto simp: blit_nth nth_append\<close>)

lemma blit_commute:
  assumes "off + length xs \<le> length d" "o2 + length ys \<le> length d"
    and "off + length xs \<le> o2 \<or> o2 + length ys \<le> off"
  shows "blit o2 ys (blit off xs d) = blit off xs (blit o2 ys d)"
  by (rule nth_equalityI) (use assms in \<open>auto simp: blit_nth\<close>)

lemma list_update_blit: "i < length d \<Longrightarrow> d[i := x] = blit i [x] d"
  by (simp add: blit_def upd_conv_take_nth_drop)

lemma slice_slice: "a + m \<le> n \<Longrightarrow> slice (slice d off n) a m = slice d (off + a) m"
  by (simp add: slice_def drop_take add.commute min_def)

end
