(* ===== verification/Level.thy ===== *)
theory Level
  imports Tick_Prelude
begin

text \<open>Severity levels (\<open>src/src/level.rs\<close>).\<close>

datatype level = Error | Warn | Info | Debug | Trace

fun as_str :: "level \<Rightarrow> bytes" where
  "as_str Error = bs ''ERROR''"
| "as_str Warn = bs ''WARN''"
| "as_str Info = bs ''INFO''"
| "as_str Debug = bs ''DEBUG''"
| "as_str Trace = bs ''TRACE''"

fun to_u8 :: "level \<Rightarrow> u8" where
  "to_u8 Error = 1"
| "to_u8 Warn = 2"
| "to_u8 Info = 3"
| "to_u8 Debug = 4"
| "to_u8 Trace = 5"

definition from_u8 :: "u8 \<Rightarrow> level option" where
  "from_u8 b =
     (if b = 1 then Some Error else if b = 2 then Some Warn else if b = 3 then Some Info
      else if b = 4 then Some Debug else if b = 5 then Some Trace else None)"

text \<open>The derived \<open>Ord\<close> of the enum compares discriminants.\<close>

instantiation level :: linorder
begin

definition less_eq_level :: "level \<Rightarrow> level \<Rightarrow> bool" where
  "less_eq_level a b \<longleftrightarrow> to_u8 a \<le> to_u8 b"

definition less_level :: "level \<Rightarrow> level \<Rightarrow> bool" where
  "less_level a b \<longleftrightarrow> to_u8 a < to_u8 b"

instance
proof
  fix x y z :: level
  show "x < y \<longleftrightarrow> x \<le> y \<and> \<not> y \<le> x"
    by (auto simp: less_eq_level_def less_level_def)
  show "x \<le> x" by (simp add: less_eq_level_def)
  show "x \<le> y \<Longrightarrow> y \<le> z \<Longrightarrow> x \<le> z" by (auto simp: less_eq_level_def)
  show "x \<le> y \<Longrightarrow> y \<le> x \<Longrightarrow> x = y"
    by (cases x; cases y) (auto simp: less_eq_level_def word_le_nat_alt)
  show "x \<le> y \<or> y \<le> x" by (auto simp: less_eq_level_def)
qed

end

lemma level_le_cases [simp]:
  "Error \<le> l" "l \<le> Trace" "Warn \<le> l \<longleftrightarrow> l \<noteq> Error" "l \<le> Debug \<longleftrightarrow> l \<noteq> Trace"
  "l \<le> Error \<longleftrightarrow> l = Error" "Trace \<le> l \<longleftrightarrow> l = Trace"
  "Info \<le> l \<longleftrightarrow> l \<noteq> Error \<and> l \<noteq> Warn" "l \<le> Info \<longleftrightarrow> l \<noteq> Trace \<and> l \<noteq> Debug"
  "Debug \<le> l \<longleftrightarrow> l = Debug \<or> l = Trace" "l \<le> Warn \<longleftrightarrow> l = Error \<or> l = Warn"
  by (cases l; simp add: less_eq_level_def word_le_nat_alt)+

lemma from_u8_to_u8 [simp]: "from_u8 (to_u8 l) = Some l"
  by (cases l) (simp_all add: from_u8_def)

end
