(* ===== verification/Encode.thy ===== *)
theory Encode
  imports Tick_Prelude
begin

text \<open>
  Type-tagged argument encoding (\<open>src/src/encode.rs\<close>). A log argument is one of the
  twelve \<open>Loggable\<close> types; signed integers and floats are kept as the bit pattern
  \<open>to_le_bytes\<close> writes. The cons-list \<open>LoggableArgs\<close> is the list of arguments. A
  slice index out of range panics in Rust and is \<open>None\<close> here.
\<close>

datatype arg =
    U64 u64 | I64 u64 | F64 u64
  | U32 u32 | I32 u32 | F32 u32
  | U16 u16 | I16 u16
  | U8 u8 | I8 u8
  | Bool bool
  | Str bytes

definition STR_LEN_PREFIX :: nat where "STR_LEN_PREFIX = 2"
definition TAG_STR :: u8 where "TAG_STR = 0x0B"
definition TAG_COUNT :: nat where "TAG_COUNT = 12"

definition FIXED_SIZES :: "nat list" where
  "FIXED_SIZES = [8, 8, 8, 4, 4, 4, 2, 2, 1, 1, 1, 0]"

fun type_tag :: "arg \<Rightarrow> u8" where
  "type_tag (U64 _) = 0x00"
| "type_tag (I64 _) = 0x01"
| "type_tag (F64 _) = 0x02"
| "type_tag (U32 _) = 0x03"
| "type_tag (I32 _) = 0x04"
| "type_tag (F32 _) = 0x05"
| "type_tag (U16 _) = 0x06"
| "type_tag (I16 _) = 0x07"
| "type_tag (U8 _) = 0x08"
| "type_tag (I8 _) = 0x09"
| "type_tag (Bool _) = 0x0A"
| "type_tag (Str _) = TAG_STR"

fun encoded_size :: "arg \<Rightarrow> nat" where
  "encoded_size (U64 _) = 8"
| "encoded_size (I64 _) = 8"
| "encoded_size (F64 _) = 8"
| "encoded_size (U32 _) = 4"
| "encoded_size (I32 _) = 4"
| "encoded_size (F32 _) = 4"
| "encoded_size (U16 _) = 2"
| "encoded_size (I16 _) = 2"
| "encoded_size (U8 _) = 1"
| "encoded_size (I8 _) = 1"
| "encoded_size (Bool _) = 1"
| "encoded_size (Str s) = STR_LEN_PREFIX + length s"

text \<open>The bytes one argument contributes: a \<open>u16\<close> length prefix before a string.\<close>

fun payload :: "arg \<Rightarrow> bytes" where
  "payload (U64 w) = u64_to_le w"
| "payload (I64 w) = u64_to_le w"
| "payload (F64 w) = u64_to_le w"
| "payload (U32 w) = u32_to_le w"
| "payload (I32 w) = u32_to_le w"
| "payload (F32 w) = u32_to_le w"
| "payload (U16 w) = u16_to_le w"
| "payload (I16 w) = u16_to_le w"
| "payload (U8 w) = [w]"
| "payload (I8 w) = [w]"
| "payload (Bool b) = [if b then 1 else 0]"
| "payload (Str s) = u16_to_le (word_of_nat (length s)) @ s"

text \<open>\<open>Loggable::encode\<close>: copies the payload to the front of \<open>buf\<close>.\<close>

definition encode :: "arg \<Rightarrow> bytes \<Rightarrow> bytes option" where
  "encode a buf =
     (if length buf < encoded_size a then None else Some (blit 0 (payload a) buf))"

text \<open>\<open>args_encoded_size\<close>: a \<open>usize\<close> sum built with \<open>wrapping_add\<close>.\<close>

fun args_encoded_size :: "arg list \<Rightarrow> nat" where
  "args_encoded_size [] = 0"
| "args_encoded_size (a # as) = (encoded_size a + args_encoded_size as) mod 2 ^ 64"

text \<open>\<open>write_args\<close>: one tag at \<open>buf[tag]\<close>, one payload at \<open>buf[pay..]\<close>, both
  cursors advanced.\<close>

fun write_args :: "arg list \<Rightarrow> bytes \<Rightarrow> nat \<Rightarrow> nat \<Rightarrow> (bytes \<times> nat \<times> nat) option" where
  "write_args [] buf tag pay = Some (buf, tag, pay)"
| "write_args (a # as) buf tag pay =
     (if length buf \<le> tag then None
      else let buf1 = buf[tag := type_tag a]; s = encoded_size a in
        if length buf < pay + s then None
        else case encode a (slice buf1 pay s) of
          None \<Rightarrow> None
        | Some seg \<Rightarrow> write_args as (blit pay seg buf1) (tag + 1) (pay + s))"

section \<open>Sizes and layout\<close>

definition args_size :: "arg list \<Rightarrow> nat" where
  "args_size as = sum_list (map encoded_size as)"

definition args_bytes :: "arg list \<Rightarrow> bytes" where
  "args_bytes as = map type_tag as @ concat (map payload as)"

lemma length_payload [simp]: "length (payload a) = encoded_size a"
  by (cases a) (auto simp: STR_LEN_PREFIX_def)

lemma args_size_simps [simp]:
  "args_size [] = 0" "args_size (a # as) = encoded_size a + args_size as"
  by (simp_all add: args_size_def)

lemma length_payloads [simp]: "length (concat (map payload as)) = args_size as"
  by (induction as) simp_all

lemma length_args_bytes [simp]: "length (args_bytes as) = length as + args_size as"
  by (simp add: args_bytes_def)

lemma args_encoded_size_eq: "args_encoded_size as = args_size as mod 2 ^ 64"
  by (induction as) (simp_all add: mod_simps)

lemma encoded_size_fixed:
  "\<not> (\<exists>s. a = Str s) \<Longrightarrow> FIXED_SIZES ! unat (type_tag a) = encoded_size a"
  by (cases a) (simp_all add: FIXED_SIZES_def)

lemma encode_exact: "length buf = encoded_size a \<Longrightarrow> encode a buf = Some (payload a)"
  by (simp add: encode_def)

text \<open>The two cursors never cross: tags fill the gap before the payloads.\<close>

lemma write_args_eq:
  assumes "tag + length as \<le> pay" "pay + args_size as \<le> length buf"
  shows "write_args as buf tag pay =
    Some (blit pay (concat (map payload as)) (blit tag (map type_tag as) buf),
          tag + length as, pay + args_size as)"
  using assms
proof (induction as arbitrary: buf tag pay)
  case Nil
  then show ?case by simp
next
  case (Cons a as)
  let ?b1 = "buf[tag := type_tag a]"
  let ?b2 = "blit pay (payload a) ?b1"
  have b1: "?b1 = blit tag [type_tag a] buf"
    using Cons.prems by (intro list_update_blit) simp
  have enc: "encode a (slice ?b1 pay (encoded_size a)) = Some (payload a)"
    using Cons.prems by (intro encode_exact) simp
  have "write_args (a # as) buf tag pay =
      write_args as ?b2 (tag + 1) (pay + encoded_size a)"
    using Cons.prems enc by (simp add: Let_def)
  also have "\<dots> = Some (blit (pay + encoded_size a) (concat (map payload as))
        (blit (tag + 1) (map type_tag as) ?b2),
      tag + 1 + length as, pay + encoded_size a + args_size as)"
    using Cons.prems by (subst Cons.IH) simp_all
  also have "blit (tag + 1) (map type_tag as) ?b2 =
      blit pay (payload a) (blit (tag + 1) (map type_tag as) ?b1)"
    using Cons.prems by (intro blit_commute) simp_all
  also have "blit (tag + 1) (map type_tag as) ?b1 = blit tag (map type_tag (a # as)) buf"
    using Cons.prems blit_append [of tag "[type_tag a]" "map type_tag as" buf]
    by (simp add: b1)
  also have "blit (pay + encoded_size a) (concat (map payload as))
      (blit pay (payload a) (blit tag (map type_tag (a # as)) buf)) =
      blit pay (concat (map payload (a # as))) (blit tag (map type_tag (a # as)) buf)"
    using Cons.prems
      blit_append [of pay "payload a" "concat (map payload as)" "blit tag (map type_tag (a # as)) buf"]
    by simp
  finally show ?case by simp
qed

lemma write_args_exact:
  assumes "length buf = length as + args_size as"
  shows "write_args as buf 0 (length as) =
    Some (args_bytes as, length as, length as + args_size as)"
proof -
  have "blit (length as) (concat (map payload as)) (blit 0 (map type_tag as) buf) =
      blit 0 (args_bytes as) buf"
    using assms blit_append [of 0 "map type_tag as" "concat (map payload as)" buf]
    by (simp add: args_bytes_def)
  then show ?thesis using assms by (simp add: write_args_eq)
qed

end
