(* ===== verification/Wire_Record.thy ===== *)
theory Wire_Record
  imports Level Encode
begin

text \<open>
  The log record on the wire (\<open>src/src/record.rs\<close>): the layout constants shared by
  producer and drain, the call-site descriptor, and \<open>assemble\<close>, which packs the
  header into two 64-bit stores, writes the site pointer and the argument count, and lets
  the caller's closure encode the arguments.
\<close>

definition VERSION :: u8 where "VERSION = 0x02"
definition LOG_RECORD :: u8 where "LOG_RECORD = 1"
definition END_OF_BUFFER :: u8 where "END_OF_BUFFER = 2"
definition HEADER_SIZE :: nat where "HEADER_SIZE = 1 + 1 + 2 + 1 + 2 + 1 + 8"
definition SITE_SECTION_SIZE :: nat where "SITE_SECTION_SIZE = 8"
definition COUNT_SIZE :: nat where "COUNT_SIZE = 1"
definition BASE_RECORD_SIZE :: nat where
  "BASE_RECORD_SIZE = HEADER_SIZE + SITE_SECTION_SIZE + COUNT_SIZE"
definition FLAG_SITE :: u16 where "FLAG_SITE = 0x01"
definition FLAG_SOURCE :: u16 where "FLAG_SOURCE = 0x02"
definition FLAG_THREAD :: u16 where "FLAG_THREAD = 0x04"
definition FLAG_PROCESS :: u16 where "FLAG_PROCESS = 0x08"
definition FLAG_COMPLEX :: u16 where "FLAG_COMPLEX = 0x10"
definition MAX_RECORD_SIZE :: nat where "MAX_RECORD_SIZE = 65535"

lemmas record_consts [tick_defs] =
  VERSION_def LOG_RECORD_def END_OF_BUFFER_def HEADER_SIZE_def SITE_SECTION_SIZE_def
  COUNT_SIZE_def BASE_RECORD_SIZE_def MAX_RECORD_SIZE_def

record site =
  site_fmt :: bytes
  site_file :: bytes
  site_line :: u32

text \<open>The first header word: version, type, total size, level and flags in one \<open>u64\<close>.\<close>

definition header0 :: "level \<Rightarrow> u16 \<Rightarrow> u16 \<Rightarrow> u64" where
  "header0 level tot flags =
     ucast VERSION
     OR push_bit 8 (ucast LOG_RECORD)
     OR push_bit 16 (ucast tot)
     OR push_bit 32 (ucast (to_u8 level))
     OR push_bit 40 (ucast flags)"

text \<open>
  \<open>assemble\<close> on the \<open>total_size\<close> bytes at \<open>dst\<close>. The two header stores, the site
  store and the count byte go through raw pointers: with fewer than the bytes they touch the
  write would leave the region, and the slice \<open>buf[pos..]\<close> panics; both are \<open>None\<close>.
\<close>

definition assemble ::
  "bytes \<Rightarrow> level \<Rightarrow> u64 \<Rightarrow> u16 \<Rightarrow> u64 \<Rightarrow> u8 \<Rightarrow> nat \<Rightarrow> (bytes \<Rightarrow> bytes option) \<Rightarrow> bytes option"
where
  "assemble dst level timestamp flags site_ptr n_args total_size write =
    (let tot = word_of_nat total_size :: u16;
         pos = (if flags AND FLAG_SITE \<noteq> 0 then 24 else 16) in
     if total_size < pos + 1 \<or> length dst \<noteq> total_size then None
     else
       let b1 = blit 0 (u64_to_le (header0 level tot flags)) dst;
           b2 = blit 8 (u64_to_le timestamp) b1;
           b3 = (if flags AND FLAG_SITE \<noteq> 0 then blit 16 (u64_to_le site_ptr) b2 else b2);
           b4 = b3[pos := n_args]
       in case write (drop (pos + 1) b4) of
            None \<Rightarrow> None
          | Some args \<Rightarrow> Some (take (pos + 1) b4 @ args))"

section \<open>The packed header is the field-by-field layout\<close>

text \<open>The layout the module documentation gives, one field after another.\<close>

definition header_fields :: "level \<Rightarrow> u64 \<Rightarrow> u16 \<Rightarrow> u16 \<Rightarrow> bytes" where
  "header_fields level timestamp tot flags =
     [VERSION, LOG_RECORD] @ u16_to_le tot @ [to_u8 level] @ u16_to_le flags @ [0] @
     u64_to_le timestamp"

definition wire_record ::
  "level \<Rightarrow> u64 \<Rightarrow> u64 \<Rightarrow> arg list \<Rightarrow> bytes" where
  "wire_record level timestamp site_ptr args =
     header_fields level timestamp
       (word_of_nat (BASE_RECORD_SIZE + length args + args_size args)) FLAG_SITE @
     u64_to_le site_ptr @ [word_of_nat (length args)] @ args_bytes args"

lemma length_header_fields [simp]: "length (header_fields l ts t f) = 16"
  by (simp add: header_fields_def)

lemma length_wire_record [simp]:
  "length (wire_record l ts p args) = BASE_RECORD_SIZE + length args + args_size args"
  by (simp add: wire_record_def record_consts)

lemma or_push_bit_disjoint:
  fixes a :: "'a::len word"
  assumes "unat a < 2 ^ n" "unat a + 2 ^ n * unat b < 2 ^ LENGTH('a)"
  shows "unat (a OR push_bit n b) = unat a + 2 ^ n * unat b"
proof -
  have "unat (take_bit n a) = unat a"
    using assms(1) by (simp add: unsigned_take_bit_eq take_bit_nat_eq_self)
  then have "a = take_bit n a"
    by (metis unsigned_word_eqI)
  then have "\<not> bit a k \<or> \<not> bit (push_bit n b) k" for k
    by (metis bit_push_bit_iff bit_take_bit_iff leD)
  then have "a OR push_bit n b = a + push_bit n b"
    by (simp add: disjunctive_add)
  also have "\<dots> = word_of_nat (unat a + 2 ^ n * unat b)"
    by (simp add: push_bit_eq_mult)
  finally show ?thesis using assms(2) by (simp only: unat_of_nat mod_less)
qed

lemma unat_header0:
  "unat (header0 l t f) =
     unat VERSION + 2 ^ 8 * unat LOG_RECORD + 2 ^ 16 * unat t + 2 ^ 32 * unat (to_u8 l) + 2 ^ 40 * unat f"
proof -
  have b: "unat t < 65536" "unat (to_u8 l) < 256" "unat f < 65536"
    using unat_lt [of t] unat_lt [of f] unat_u8_less [of "to_u8 l"] by simp_all
  let ?a = "ucast VERSION OR push_bit 8 (ucast LOG_RECORD) :: u64"
  have a: "unat ?a = 258"
    by (subst or_push_bit_disjoint) (simp_all add: record_consts)
  let ?b = "?a OR push_bit 16 (ucast t)"
  have b': "unat ?b = 258 + 2 ^ 16 * unat t"
    using b a by (subst or_push_bit_disjoint) simp_all
  let ?c = "?b OR push_bit 32 (ucast (to_u8 l))"
  have c: "unat ?c = 258 + 2 ^ 16 * unat t + 2 ^ 32 * unat (to_u8 l)"
    using b b' by (subst or_push_bit_disjoint) simp_all
  have "unat (?c OR push_bit 40 (ucast f)) =
      258 + 2 ^ 16 * unat t + 2 ^ 32 * unat (to_u8 l) + 2 ^ 40 * unat f"
    using b c by (subst or_push_bit_disjoint) simp_all
  moreover have "header0 l t f = ?c OR push_bit 40 (ucast f)"
    by (simp only: header0_def or.assoc)
  ultimately show ?thesis by (simp add: record_consts)
qed

lemma header0_bytes:
  "u64_to_le (header0 l t f) = [VERSION, LOG_RECORD] @ u16_to_le t @ [to_u8 l] @ u16_to_le f @ [0]"
    (is "_ = ?r")
proof -
  have "unat t < 256 ^ 2" "unat f < 256 ^ 2" using unat_lt [of t] unat_lt [of f] by simp_all
  then have "le_nat ?r = unat (header0 l t f)"
    by (simp add: le_nat_append le_nat_le_bytes u16_to_le_def unat_header0 algebra_simps)
  then have "u64_to_le (header0 l t f) = le_bytes (length ?r) (le_nat ?r)"
    by (simp add: u64_to_le_def)
  then show ?thesis by (simp only: le_bytes_le_nat)
qed

lemma assemble_wire_record:
  assumes "length args \<le> 255"
    and n: "n = BASE_RECORD_SIZE + length args + args_size args" and "length dst = n"
  shows "assemble dst l ts FLAG_SITE p (word_of_nat (length args)) n
      (\<lambda>buf. map_option fst (write_args args buf 0 (length args))) =
    Some (wire_record l ts p args)"
proof -
  let ?h = "header_fields l ts (word_of_nat n) FLAG_SITE"
  let ?site = "u64_to_le p"
  let ?cnt = "word_of_nat (length args) :: u8"
  let ?b4 = "blit 0 (?h @ ?site @ [?cnt]) dst"
  have len: "25 \<le> n" "length dst = n" "n - 25 = length args + args_size args"
    using assms by (simp_all add: record_consts)
  have b2: "blit 8 (u64_to_le ts) (blit 0 (u64_to_le (header0 l (word_of_nat n) FLAG_SITE)) dst) =
      blit 0 ?h dst"
    using len blit_append [of 0 "u64_to_le (header0 l (word_of_nat n) FLAG_SITE)" "u64_to_le ts" dst]
    by (simp add: header_fields_def header0_bytes)
  have b3: "blit 16 ?site (blit 0 ?h dst) = blit 0 (?h @ ?site) dst"
    using len blit_append [of 0 ?h ?site dst] by simp
  have b4: "(blit 0 (?h @ ?site) dst)[24 := ?cnt] = ?b4"
    using len blit_append [of 0 "?h @ ?site" "[?cnt]" dst] by (simp add: list_update_blit)
  have site: "FLAG_SITE AND FLAG_SITE \<noteq> 0" by (simp add: FLAG_SITE_def)
  have "length (drop 25 ?b4) = length args + args_size args" using len by simp
  note wr = write_args_exact [OF this]
  have tk: "take 25 ?b4 = ?h @ ?site @ [?cnt]" by (simp add: blit_def)
  have wire: "wire_record l ts p args = (?h @ ?site @ [?cnt]) @ args_bytes args"
    by (simp add: wire_record_def n)
  have "assemble dst l ts FLAG_SITE p ?cnt n
      (\<lambda>buf. map_option fst (write_args args buf 0 (length args))) =
    Some (take 25 ?b4 @ args_bytes args)"
    unfolding assemble_def Let_def if_P [OF site] b2 b3
    using len wr b4 by simp
  then show ?thesis by (simp only: tk wire)
qed

end
