(* ===== verification/Cursor.thy ===== *)
theory Cursor
  imports Wire_Record
begin

text \<open>
  The drain's bounded byte parser (\<open>Cursor\<close> in \<open>src/src/drain.rs\<close>). The pair of
  pointers \<open>ptr, end\<close> is the list of the bytes between them; every read returns what it
  read and the advanced cursor. A fixed-width read past the end yields zeros and does not
  advance; \<open>skip\<close> and \<open>read_bytes\<close> are clamped.
\<close>

type_synonym cursor = bytes

definition cursor_new :: "bytes \<Rightarrow> nat \<Rightarrow> nat \<Rightarrow> cursor" where
  "cursor_new d base len = slice d base len"

definition remaining :: "cursor \<Rightarrow> nat" where
  "remaining c = length c"

definition read_array :: "nat \<Rightarrow> cursor \<Rightarrow> bytes \<times> cursor" where
  "read_array n c = (if remaining c < n then (replicate n 0, c) else (take n c, drop n c))"

definition read_u8 :: "cursor \<Rightarrow> u8 \<times> cursor" where
  "read_u8 c = (case read_array 1 c of (v, c') \<Rightarrow> (hd v, c'))"

definition read_u16 :: "cursor \<Rightarrow> u16 \<times> cursor" where
  "read_u16 c = (case read_array 2 c of (v, c') \<Rightarrow> (u16_of_le v, c'))"

definition read_u32 :: "cursor \<Rightarrow> u32 \<times> cursor" where
  "read_u32 c = (case read_array 4 c of (v, c') \<Rightarrow> (u32_of_le v, c'))"

definition read_u64 :: "cursor \<Rightarrow> u64 \<times> cursor" where
  "read_u64 c = (case read_array 8 c of (v, c') \<Rightarrow> (u64_of_le v, c'))"

definition skip_bytes :: "nat \<Rightarrow> cursor \<Rightarrow> cursor" where
  "skip_bytes n c = drop (min n (remaining c)) c"

definition read_bytes :: "nat \<Rightarrow> cursor \<Rightarrow> bytes \<times> cursor" where
  "read_bytes n c = (let n' = min n (remaining c) in (take n' c, drop n' c))"

definition read_len_prefixed :: "cursor \<Rightarrow> (bytes \<times> u16) \<times> cursor" where
  "read_len_prefixed c =
     (case read_u16 c of (len, c1) \<Rightarrow>
      case read_bytes (unat len) c1 of (data, c2) \<Rightarrow> ((data, len), c2))"

section \<open>Reading back what was written\<close>

lemma read_u8_Cons [simp]: "read_u8 (b # c) = (b, c)"
  by (simp add: read_u8_def read_array_def remaining_def)

lemma read_array_append: "length xs = n \<Longrightarrow> read_array n (xs @ c) = (xs, c)"
  by (simp add: read_array_def remaining_def)

lemma read_le_append [simp]:
  "read_u16 (u16_to_le a @ c) = (a, c)" "read_u32 (u32_to_le b @ c) = (b, c)"
  "read_u64 (u64_to_le w @ c) = (w, c)"
  by (simp_all add: read_u16_def read_u32_def read_u64_def read_array_append)

lemma read_u16_take4: "2 \<le> length c \<Longrightarrow> read_u16 c = (u16_of_le (take 2 c), drop 2 c)"
  by (simp add: read_u16_def read_array_def remaining_def)

lemma read_bytes_append [simp]: "length xs = n \<Longrightarrow> read_bytes n (xs @ c) = (xs, c)"
  by (simp add: read_bytes_def remaining_def)

lemma skip_bytes_append [simp]: "length xs = n \<Longrightarrow> skip_bytes n (xs @ c) = c"
  by (simp add: skip_bytes_def remaining_def)

lemma read_len_prefixed_append [simp]:
  "length s < 65536 \<Longrightarrow>
   read_len_prefixed (u16_to_le (word_of_nat (length s)) @ s @ c) = ((s, word_of_nat (length s)), c)"
  by (simp add: read_len_prefixed_def unat_of_nat)

text \<open>No read moves the cursor past its end: what remains is a suffix.\<close>

lemma cursor_suffix:
  "\<exists>k. snd (read_array n c) = drop k c" "\<exists>k. skip_bytes n c = drop k c"
  "\<exists>k. snd (read_bytes n c) = drop k c"
  by (auto simp: read_array_def skip_bytes_def read_bytes_def Let_def intro: exI [of _ 0])

end
