(* ===== verification/Format_Spec.thy ===== *)
theory Format_Spec
  imports Tick_Prelude
begin

text \<open>
  Format strings (\<open>src/src/format.rs\<close>): the format-spec grammar, its compile-time
  validator \<open>parse_spec_const\<close>, its run-time validator \<open>validate_spec_rt\<close>, the parser
  \<open>parse_spec_body\<close>, the format-string validator \<open>validate_fmt\<close> and the line-pattern
  parser \<open>Template::parse\<close>. An index \<open>i\<close> into the bytes is the suffix from \<open>i\<close> on;
  the error messages are the constructors of \<open>fmt_error\<close>.
\<close>

abbreviation LBRACE :: u8 where "LBRACE \<equiv> 0x7B"
abbreviation RBRACE :: u8 where "RBRACE \<equiv> 0x7D"
abbreviation COLON :: u8 where "COLON \<equiv> 0x3A"
abbreviation DOT :: u8 where "DOT \<equiv> 0x2E"
abbreviation HASH :: u8 where "HASH \<equiv> 0x23"
abbreviation ZERO :: u8 where "ZERO \<equiv> 0x30"
abbreviation PLUS :: u8 where "PLUS \<equiv> 0x2B"
abbreviation MINUS :: u8 where "MINUS \<equiv> 0x2D"

datatype fmt_error =
    Unclosed | Positional | Unnamed | UnknownField | DuplicateMessage | SpecOnMessage
  | SpecOnTimestamp | UnmatchedBrace | InvalidFill | ExpectedDigits | SignFlag
  | UnsupportedType | Trailing

datatype align = AlignNone | AlignLeft | AlignRight | AlignCenter

record format_spec =
  fs_fill :: u8
  fs_align :: align
  fs_zero_fill :: bool
  fs_width :: "u16 option"
  fs_precision :: "u16 option"
  fs_alternate :: bool
  fs_type_char :: "u8 option"

definition default_spec :: format_spec where
  "default_spec = \<lparr>fs_fill = 0x20, fs_align = AlignNone, fs_zero_fill = False, fs_width = None,
     fs_precision = None, fs_alternate = False, fs_type_char = None\<rparr>"

datatype field = Timestamp | FLevel | File | Line | ThreadName | ThreadId | Message

definition field_from_str :: "bytes \<Rightarrow> field option" where
  "field_from_str name =
     (if name = bs ''timestamp'' then Some Timestamp
      else if name = bs ''level'' then Some FLevel
      else if name = bs ''file'' then Some File
      else if name = bs ''line'' then Some Line
      else if name = bs ''thread_name'' then Some ThreadName
      else if name = bs ''thread_id'' then Some ThreadId
      else if name = bs ''message'' then Some Message
      else None)"

datatype segment = Lit bytes | Place field format_spec

section \<open>Character classes\<close>

definition is_digit :: "u8 \<Rightarrow> bool" where
  "is_digit c \<longleftrightarrow> 0x30 \<le> c \<and> c \<le> 0x39"

definition is_all_digits :: "bytes \<Rightarrow> bool" where
  "is_all_digits s = list_all is_digit s"

definition is_align_char :: "u8 \<Rightarrow> bool" where
  "is_align_char c \<longleftrightarrow> c = 0x3C \<or> c = 0x3E \<or> c = 0x5E"

definition is_valid_fill :: "u8 \<Rightarrow> bool" where
  "is_valid_fill c \<longleftrightarrow> c \<noteq> PLUS \<and> c \<noteq> MINUS \<and> c \<noteq> ZERO \<and> c \<noteq> HASH"

definition is_type_char :: "u8 \<Rightarrow> bool" where
  "is_type_char c \<longleftrightarrow> c \<in> {0x3F, 0x78, 0x58, 0x6F, 0x62, 0x65, 0x45}"

definition starts :: "u8 \<Rightarrow> bytes \<Rightarrow> bool" where
  "starts c s \<longleftrightarrow> s \<noteq> [] \<and> hd s = c"

lemma starts_simps [simp]: "\<not> starts c []" "starts c (d # s) \<longleftrightarrow> d = c"
  by (auto simp: starts_def)

section \<open>Validating a spec\<close>

text \<open>\<open>[fill] [align]\<close>, with a lookahead of two.\<close>

fun skip_fill_align :: "bytes \<Rightarrow> fmt_error + bytes" where
  "skip_fill_align (a # b # s) =
     (if is_align_char b then (if is_valid_fill a then Inr s else Inl InvalidFill)
      else if is_align_char a then Inr (b # s) else Inr (a # b # s))"
| "skip_fill_align [a] = (if is_align_char a then Inr [] else Inr [a])"
| "skip_fill_align [] = Inr []"

definition skip_zero :: "bytes \<Rightarrow> bytes" where
  "skip_zero s = (if starts ZERO s then tl s else s)"

definition skip_width :: "bytes \<Rightarrow> bytes" where
  "skip_width s = dropWhile is_digit s"

definition skip_precision :: "bytes \<Rightarrow> fmt_error + bytes" where
  "skip_precision s =
     (if starts DOT s then
        (if tl s = [] \<or> \<not> is_digit (hd (tl s)) then Inl ExpectedDigits
         else Inr (dropWhile is_digit (tl s)))
      else Inr s)"

definition skip_hash :: "bytes \<Rightarrow> bytes" where
  "skip_hash s = (if starts HASH s then tl s else s)"

definition parse_spec_const :: "bytes \<Rightarrow> fmt_error + bytes" where
  "parse_spec_const s =
     (if s = [] then Inl Unclosed
      else if starts RBRACE s then Inr s
      else case skip_fill_align s of Inl e \<Rightarrow> Inl e | Inr s1 \<Rightarrow>
        if starts RBRACE s1 then Inr s1
        else let s2 = skip_zero s1 in
        if starts RBRACE s2 then Inr s2
        else let s3 = skip_width s2 in
        if starts RBRACE s3 then Inr s3
        else case skip_precision s3 of Inl e \<Rightarrow> Inl e | Inr s4 \<Rightarrow>
        if starts RBRACE s4 then Inr s4
        else let s5 = skip_hash s4 in
        if starts RBRACE s5 then Inr s5
        else if s5 = [] then Inr s5
        else if is_type_char (hd s5) then Inr (tl s5)
        else if hd s5 = RBRACE then Inr s5
        else if hd s5 = PLUS \<or> hd s5 = MINUS then Inl SignFlag
        else Inl UnsupportedType)"

definition validate_spec_rt :: "bytes \<Rightarrow> fmt_error + unit" where
  "validate_spec_rt s =
     (if s = [] then Inr ()
      else case skip_fill_align s of Inl e \<Rightarrow> Inl e | Inr s1 \<Rightarrow>
        if s1 = [] then Inr ()
        else let s2 = skip_zero s1 in
        if s2 = [] then Inr ()
        else let s3 = skip_width s2 in
        if s3 = [] then Inr ()
        else case skip_precision s3 of Inl e \<Rightarrow> Inl e | Inr s4 \<Rightarrow>
        if s4 = [] then Inr ()
        else let s5 = skip_hash s4 in
        if s5 = [] then Inr ()
        else if is_type_char (hd s5) then (if tl s5 \<noteq> [] then Inl Trailing else Inr ())
        else if hd s5 = PLUS \<or> hd s5 = MINUS then Inl SignFlag
        else Inl UnsupportedType)"

section \<open>Parsing a spec\<close>

definition sat_digit :: "u16 \<Rightarrow> u8 \<Rightarrow> u16" where
  "sat_digit w c =
     word_of_nat (min 65535 (min 65535 (unat w * 10) + (unat c - 0x30)))"

definition parse_num :: "bytes \<Rightarrow> u16" where
  "parse_num s = foldl sat_digit 0 (takeWhile is_digit s)"

definition align_of :: "u8 \<Rightarrow> align" where
  "align_of c = (if c = 0x3C then AlignLeft else if c = 0x3E then AlignRight
     else if c = 0x5E then AlignCenter else AlignNone)"

fun spec_fill_align :: "bytes \<Rightarrow> format_spec \<times> bytes" where
  "spec_fill_align (a # b # s) =
     (if is_align_char b then (default_spec\<lparr>fs_fill := a, fs_align := align_of b\<rparr>, s)
      else if is_align_char a then (default_spec\<lparr>fs_align := align_of a\<rparr>, b # s)
      else (default_spec, a # b # s))"
| "spec_fill_align [a] =
     (if is_align_char a then (default_spec\<lparr>fs_align := align_of a\<rparr>, []) else (default_spec, [a]))"
| "spec_fill_align [] = (default_spec, [])"

definition parse_spec_body :: "bytes \<Rightarrow> format_spec" where
  "parse_spec_body s =
    (let (f1, s1) = spec_fill_align s;
         f2 = (if starts ZERO s1 then f1\<lparr>fs_zero_fill := True\<rparr> else f1);
         s2 = skip_zero s1;
         f3 = (if s2 \<noteq> [] \<and> is_digit (hd s2) then f2\<lparr>fs_width := Some (parse_num s2)\<rparr> else f2);
         s3 = skip_width s2;
         f4 = (if starts DOT s3 then f3\<lparr>fs_precision := Some (parse_num (tl s3))\<rparr> else f3);
         s4 = (if starts DOT s3 then dropWhile is_digit (tl s3) else s3);
         f5 = (if starts HASH s4 then f4\<lparr>fs_alternate := True\<rparr> else f4);
         s5 = skip_hash s4
     in if s5 \<noteq> [] \<and> is_type_char (hd s5) then f5\<lparr>fs_type_char := Some (hd s5)\<rparr> else f5)"

definition parse_placeholder :: "bytes \<Rightarrow> bytes \<times> format_spec" where
  "parse_placeholder content =
     (if COLON \<in> set content
      then (takeWhile (\<lambda>b. b \<noteq> COLON) content,
            parse_spec_body (tl (dropWhile (\<lambda>b. b \<noteq> COLON) content)))
      else (content, default_spec))"

definition parse_spec :: "bytes \<Rightarrow> format_spec" where
  "parse_spec content = snd (parse_placeholder content)"

section \<open>Format strings\<close>

lemma length_dropWhile_less: "length (dropWhile P s) < Suc (length s)"
  by (simp add: le_imp_less_Suc length_dropWhile_le)

lemma skip_fill_align_length: "skip_fill_align s = Inr t \<Longrightarrow> length t \<le> length s"
  by (cases s rule: skip_fill_align.cases) (auto split: if_splits)

lemma parse_spec_const_length: "parse_spec_const s = Inr t \<Longrightarrow> length t \<le> length s"
proof -
  assume a: "parse_spec_const s = Inr t"
  have z: "length (skip_zero u) \<le> length u" for u by (auto simp: skip_zero_def)
  have h: "length (skip_hash u) \<le> length u" for u by (auto simp: skip_hash_def)
  have w: "length (skip_width u) \<le> length u" for u by (simp add: skip_width_def length_dropWhile_le)
  have p: "length v \<le> length u" if "skip_precision u = Inr v" for u v
    using that length_dropWhile_le [of is_digit "tl u"] by (auto simp: skip_precision_def split: if_splits)
  have zw: "length (skip_width (skip_zero u)) \<le> length u" for u
    using z w order.trans by blast
  show ?thesis
    using a
    by (auto simp: parse_spec_const_def Let_def split: if_splits sum.splits
        dest!: skip_fill_align_length p intro: order.trans [OF z] order.trans [OF zw])
      (metis zw h order.trans diff_le_self)+
qed

text \<open>\<open>validate_fmt\<close>: the number of placeholders of a well-formed format string.\<close>

function validate_loop :: "bytes \<Rightarrow> nat \<Rightarrow> fmt_error + nat" where
  "validate_loop [] count = Inr count"
| "validate_loop (c # s) count =
     (if c = LBRACE then
        if starts LBRACE s then validate_loop (tl s) count
        else let name = takeWhile (\<lambda>b. b \<noteq> COLON \<and> b \<noteq> RBRACE) s;
                 rest = dropWhile (\<lambda>b. b \<noteq> COLON \<and> b \<noteq> RBRACE) s in
          if name \<noteq> [] \<and> is_all_digits name then Inl Positional
          else if rest = [] then Inl Unclosed
          else case (if starts COLON rest then parse_spec_const (tl rest) else Inr rest) of
            Inl e \<Rightarrow> Inl e
          | Inr s2 \<Rightarrow>
              if s2 = [] then Inl Unclosed
              else if hd s2 \<noteq> RBRACE then Inl Trailing
              else validate_loop (tl s2) (Suc count)
      else if c = RBRACE then
        if starts RBRACE s then validate_loop (tl s) count else Inl UnmatchedBrace
      else validate_loop s count)"
  by pat_completeness auto
termination
proof (relation "measure (length \<circ> fst)", goal_cases)
  case (3 c s count name rest s2)
  have "length rest \<le> length s" using 3 by (simp add: length_dropWhile_le)
  moreover have "length s2 \<le> length rest"
    using 3 parse_spec_const_length [of "tl rest" s2] by (auto split: if_splits)
  ultimately show ?case by simp
qed auto

definition validate_fmt :: "bytes \<Rightarrow> fmt_error + nat" where
  "validate_fmt fmt = validate_loop fmt 0"

text \<open>\<open>check_fmt\<close> runs in a \<open>const\<close> context: \<open>None\<close> is a compile-time panic.\<close>

definition check_fmt :: "bytes \<Rightarrow> nat \<Rightarrow> unit option" where
  "check_fmt fmt n_args =
     (case validate_fmt fmt of
        Inr placeholders \<Rightarrow> if placeholders \<noteq> n_args then None else Some ()
      | Inl msg \<Rightarrow> None)"

section \<open>Line patterns\<close>

definition flush_lit :: "bytes \<Rightarrow> segment list" where
  "flush_lit lit = (if lit = [] then [] else [Lit lit])"

text \<open>\<open>Template::parse\<close>: \<open>lit\<close> is the literal since \<open>lit_start\<close>.\<close>

function template_loop :: "bytes \<Rightarrow> bytes \<Rightarrow> segment list \<Rightarrow> bool \<Rightarrow> fmt_error + segment list" where
  "template_loop [] lit segs seen = Inr (segs @ flush_lit lit)"
| "template_loop (c # s) lit segs seen =
     (if c = LBRACE then
        if starts LBRACE s then template_loop (tl s) [] (segs @ flush_lit lit @ [Lit [LBRACE]]) seen
        else let segs1 = segs @ flush_lit lit;
                 name = takeWhile (\<lambda>b. b \<noteq> COLON \<and> b \<noteq> RBRACE) s;
                 rest = dropWhile (\<lambda>b. b \<noteq> COLON \<and> b \<noteq> RBRACE) s in
          if rest = [] then Inl Unclosed
          else if name \<noteq> [] \<and> is_all_digits name then Inl Positional
          else if name = [] then Inl Unnamed
          else case field_from_str name of None \<Rightarrow> Inl UnknownField | Some field \<Rightarrow>
            if field = Message \<and> seen then Inl DuplicateMessage
            else if field = Message \<and> starts COLON rest then Inl SpecOnMessage
            else if field = Timestamp \<and> starts COLON rest then Inl SpecOnTimestamp
            else let seen' = (seen \<or> field = Message) in
              if starts COLON rest then
                let body = takeWhile (\<lambda>b. b \<noteq> RBRACE) (tl rest);
                    rest2 = dropWhile (\<lambda>b. b \<noteq> RBRACE) (tl rest) in
                if rest2 = [] then Inl Unclosed
                else case validate_spec_rt body of Inl e \<Rightarrow> Inl e
                  | Inr _ \<Rightarrow> template_loop (tl rest2) [] (segs1 @ [Place field (parse_spec_body body)]) seen'
              else template_loop (tl rest) [] (segs1 @ [Place field default_spec]) seen'
      else if c = RBRACE then
        if starts RBRACE s then template_loop (tl s) [] (segs @ flush_lit lit @ [Lit [RBRACE]]) seen
        else Inl UnmatchedBrace
      else template_loop s (lit @ [c]) segs seen)"
  by pat_completeness auto
termination
proof (relation "measure (length \<circ> fst)", goal_cases)
  case (3 c s lit segs seen segs1 name rest field seen' body rest2 u)
  have "rest2 = dropWhile (\<lambda>b. b \<noteq> RBRACE) (tl rest)"
    "rest = dropWhile (\<lambda>b. b \<noteq> COLON \<and> b \<noteq> RBRACE) s" by (rule 3)+
  then have "length rest2 \<le> length (tl rest)" "length rest \<le> length s"
    by (simp_all only: length_dropWhile_le)
  then show ?case by simp
next
  case (4 c s lit segs seen segs1 name rest field seen')
  have "length rest \<le> length s" using 4 by (simp add: length_dropWhile_le)
  then show ?case by simp
qed auto

definition template_parse :: "bytes \<Rightarrow> fmt_error + segment list" where
  "template_parse fmt = template_loop fmt [] [] False"

section \<open>The two spec validators agree\<close>

lemma char_classes [simp]:
  "\<not> is_digit RBRACE" "\<not> is_align_char RBRACE" "\<not> is_type_char RBRACE" "\<not> is_digit DOT"
  "\<not> is_digit HASH" "\<not> is_type_char HASH" "\<not> is_type_char DOT" "is_digit ZERO"
  "is_valid_fill RBRACE" "\<not> is_digit COLON"
  by (simp_all add: is_digit_def is_align_char_def is_type_char_def is_valid_fill_def word_le_nat_alt)

lemma skip_fill_align_append:
  assumes "RBRACE \<notin> set s" "s \<noteq> []"
  shows "skip_fill_align (s @ RBRACE # r) =
    (case skip_fill_align s of Inl e \<Rightarrow> Inl e | Inr t \<Rightarrow> Inr (t @ RBRACE # r))"
  using assms by (cases s rule: skip_fill_align.cases) auto

lemma skip_fill_align_set: "skip_fill_align s = Inr t \<Longrightarrow> set t \<subseteq> set s"
  by (cases s rule: skip_fill_align.cases) (auto split: if_splits)

lemma skip_append:
  assumes "RBRACE \<notin> set s"
  shows "skip_zero (s @ RBRACE # r) = skip_zero s @ RBRACE # r"
    "skip_width (s @ RBRACE # r) = skip_width s @ RBRACE # r"
    "skip_hash (s @ RBRACE # r) = skip_hash s @ RBRACE # r"
    "skip_precision (s @ RBRACE # r) =
       (case skip_precision s of Inl e \<Rightarrow> Inl e | Inr t \<Rightarrow> Inr (t @ RBRACE # r))"
proof -
  show "skip_zero (s @ RBRACE # r) = skip_zero s @ RBRACE # r"
    "skip_hash (s @ RBRACE # r) = skip_hash s @ RBRACE # r"
    by (cases s; simp add: skip_zero_def skip_hash_def)+
  have dw: "dropWhile is_digit (u @ RBRACE # r) = dropWhile is_digit u @ RBRACE # r" for u
    by (induction u) auto
  then show "skip_width (s @ RBRACE # r) = skip_width s @ RBRACE # r"
    by (simp add: skip_width_def)
  show "skip_precision (s @ RBRACE # r) =
       (case skip_precision s of Inl e \<Rightarrow> Inl e | Inr t \<Rightarrow> Inr (t @ RBRACE # r))"
    by (cases s; cases "tl s") (auto simp: skip_precision_def dw)
qed

lemma skip_set:
  "set (skip_zero s) \<subseteq> set s" "set (skip_width s) \<subseteq> set s" "set (skip_hash s) \<subseteq> set s"
  "skip_precision s = Inr t \<Longrightarrow> set t \<subseteq> set s"
  using set_dropWhileD [of _ is_digit] list.set_sel(2) [of s]
  by (fastforce simp: skip_zero_def skip_width_def skip_hash_def skip_precision_def split: if_splits)+

lemma starts_append_RBRACE:
  "RBRACE \<notin> set s \<Longrightarrow> starts RBRACE (s @ RBRACE # r) \<longleftrightarrow> s = []"
  by (cases s) auto

lemma spec_validators:
  assumes "RBRACE \<notin> set body"
  shows "validate_spec_rt body =
    (case parse_spec_const (body @ RBRACE # rest) of
       Inl e \<Rightarrow> Inl e
     | Inr s \<Rightarrow> if starts RBRACE s then Inr () else Inl Trailing)"
proof (cases "body = []")
  case True
  then show ?thesis by (simp add: validate_spec_rt_def parse_spec_const_def)
next
  case False
  note app = skip_fill_align_append [OF assms False] skip_append starts_append_RBRACE
  show ?thesis
  proof (cases "skip_fill_align body")
    case (Inl e)
    then show ?thesis
      using assms False by (simp add: validate_spec_rt_def parse_spec_const_def app)
  next
    case (Inr s1)
    have s1: "RBRACE \<notin> set s1" using skip_fill_align_set [OF Inr] assms by blast
    have s3: "RBRACE \<notin> set (skip_zero s1)" "RBRACE \<notin> set (skip_width (skip_zero s1))"
      using s1 skip_set by blast+
    show ?thesis
    proof (cases "skip_precision (skip_width (skip_zero s1))")
      case (Inl e)
      then show ?thesis
        using assms False Inr s1 s3
        by (simp add: validate_spec_rt_def parse_spec_const_def app Let_def)
    next
      case s4: (Inr s4)
      have n4: "RBRACE \<notin> set s4" "RBRACE \<notin> set (skip_hash s4)"
        using s3(2) skip_set(4) [OF s4] skip_set(3) by blast+
      have tl: "starts RBRACE (tl (skip_hash s4) @ RBRACE # rest) \<longleftrightarrow> tl (skip_hash s4) = []"
        using n4(2) by (intro starts_append_RBRACE) (cases "skip_hash s4"; simp)
      show ?thesis
        using assms False Inr s1 s3 s4 n4 tl
        by (cases "skip_hash s4") (auto simp: validate_spec_rt_def parse_spec_const_def app Let_def)
    qed
  qed
qed

section \<open>Only the closing brace ends a placeholder\<close>

definition consumes :: "bytes \<Rightarrow> bytes \<Rightarrow> bool" where
  "consumes s t \<longleftrightarrow> (\<exists>pre. s = pre @ t \<and> RBRACE \<notin> set pre)"

lemma consumes_refl [simp]: "consumes s s"
  by (simp add: consumes_def)

lemma consumes_trans: "consumes s t \<Longrightarrow> consumes t u \<Longrightarrow> consumes s u"
  unfolding consumes_def by (metis Un_iff append.assoc set_append)

lemma consumes_tl: "s \<noteq> [] \<Longrightarrow> hd s \<noteq> RBRACE \<Longrightarrow> consumes s (tl s)"
  by (cases s) (auto simp: consumes_def intro: exI [of _ "[hd s]"])

lemma consumes_dropWhile: "consumes s (dropWhile is_digit s)"
  unfolding consumes_def
  by (rule exI [of _ "takeWhile is_digit s"]) (auto dest: set_takeWhileD)

lemma consumes_skips:
  "consumes s (skip_zero s)" "consumes s (skip_width s)" "consumes s (skip_hash s)"
  "skip_precision s = Inr t \<Longrightarrow> consumes s t"
proof -
  show "consumes s (skip_zero s)" "consumes s (skip_hash s)"
    by (auto simp: skip_zero_def skip_hash_def starts_def intro: consumes_tl)
  show "consumes s (skip_width s)" by (simp add: skip_width_def consumes_dropWhile)
  show "skip_precision s = Inr t \<Longrightarrow> consumes s t"
    by (auto simp: skip_precision_def starts_def split: if_splits
        intro: consumes_trans [OF consumes_tl consumes_dropWhile])
qed

lemma consumes_fill_align:
  assumes "skip_fill_align s = Inr t" "\<not> starts RBRACE s"
  shows "consumes s t"
proof (cases s rule: skip_fill_align.cases)
  case (1 a b u)
  show ?thesis
  proof (cases "is_align_char b")
    case True
    then have "t = u" "b \<noteq> RBRACE" "a \<noteq> RBRACE" using assms 1 by (auto split: if_splits)
    then show ?thesis using 1 by (auto simp: consumes_def intro: exI [of _ "[a, b]"])
  next
    case False
    then show ?thesis using assms 1 consumes_tl [of s] by (auto split: if_splits)
  qed
qed (use assms consumes_tl [of s] in \<open>auto split: if_splits\<close>)

lemma parse_spec_const_consumes:
  assumes "parse_spec_const s = Inr t"
  shows "consumes s t"
proof -
  note tr = consumes_trans
  show ?thesis
  proof (cases "starts RBRACE s")
    case True
    then show ?thesis using assms by (auto simp: parse_spec_const_def split: if_splits)
  next
    case False
    then obtain s1 where s1: "skip_fill_align s = Inr s1"
      using assms by (auto simp: parse_spec_const_def split: if_splits sum.splits)
    note c1 = consumes_fill_align [OF s1 False]
    note c2 = tr [OF c1 consumes_skips(1)]
    note c3 = tr [OF c2 consumes_skips(2)]
    show ?thesis
    proof (cases "skip_precision (skip_width (skip_zero s1))")
      case (Inl e)
      then show ?thesis
        using assms False s1 c1 c2 c3 by (auto simp: parse_spec_const_def Let_def split: if_splits)
    next
      case (Inr s4)
      note c4 = tr [OF c3 consumes_skips(4) [OF Inr]]
      note c5 = tr [OF c4 consumes_skips(3)]
      have c6: "consumes s (tl (skip_hash s4))" if "skip_hash s4 \<noteq> []" "is_type_char (hd (skip_hash s4))"
        using that by (intro tr [OF c5] consumes_tl) auto
      show ?thesis
        using assms False s1 Inr c1 c2 c3 c4 c5 c6
        by (auto simp: parse_spec_const_def Let_def split: if_splits)
    qed
  qed
qed

lemma consumes_dropWhile_RBRACE:
  assumes "consumes s t" "starts RBRACE t"
  shows "t = dropWhile (\<lambda>b. b \<noteq> RBRACE) s"
proof -
  obtain pre where "s = pre @ t" "RBRACE \<notin> set pre" using assms(1) by (auto simp: consumes_def)
  then show ?thesis using assms(2) by (cases t) (auto simp: dropWhile_append2 dropWhile_append)
qed

end
