(* ===== verification/Utf8.thy ===== *)
theory Utf8
  imports Tick_Prelude
begin

text \<open>
  The standard library's UTF-8 routines the drain relies on: validation
  (\<open>str::from_utf8\<close>), lossy decoding (\<open>String::from_utf8_lossy\<close>: every maximal
  invalid prefix becomes U+FFFD) and the character boundaries of a valid string
  (\<open>char_indices\<close>).
\<close>

definition is_cont :: "u8 \<Rightarrow> bool" where
  "is_cont b \<longleftrightarrow> b AND 0xC0 = 0x80"

definition char_width :: "u8 \<Rightarrow> nat" where
  "char_width b =
     (if b < 0x80 then 1
      else if 0xC2 \<le> b \<and> b \<le> 0xDF then 2
      else if 0xE0 \<le> b \<and> b \<le> 0xEF then 3
      else if 0xF0 \<le> b \<and> b \<le> 0xF4 then 4
      else 0)"

definition second_ok :: "u8 \<Rightarrow> u8 \<Rightarrow> bool" where
  "second_ok a b =
     (if a = 0xE0 then 0xA0 \<le> b \<and> b \<le> 0xBF
      else if a = 0xED then 0x80 \<le> b \<and> b \<le> 0x9F
      else if a = 0xF0 then 0x90 \<le> b \<and> b \<le> 0xBF
      else if a = 0xF4 then 0x80 \<le> b \<and> b \<le> 0x8F
      else is_cont b)"

definition at :: "bytes \<Rightarrow> nat \<Rightarrow> u8" where
  "at s i = (if i < length s then s ! i else 0)"

text \<open>One decoding step: how many bytes it takes, and whether they are a character.\<close>

definition utf8_step :: "bytes \<Rightarrow> nat \<times> bool" where
  "utf8_step s =
    (let w = char_width (at s 0) in
     if w = 1 then (1, True)
     else if w = 0 then (1, False)
     else if \<not> second_ok (at s 0) (at s 1) then (1, False)
     else if w = 2 then (2, True)
     else if \<not> is_cont (at s 2) then (2, False)
     else if w = 3 then (3, True)
     else if \<not> is_cont (at s 3) then (3, False)
     else (4, True))"

lemma utf8_step_pos: "0 < fst (utf8_step s)"
  by (simp add: utf8_step_def Let_def)

lemma utf8_step_less: "(n, ok) = utf8_step s \<Longrightarrow> s \<noteq> [] \<Longrightarrow> length s - n < length s"
  using utf8_step_pos [of s] by (cases s) (auto dest!: arg_cong [of _ _ fst])

function utf8_valid :: "bytes \<Rightarrow> bool" where
  "utf8_valid s =
     (if s = [] then True
      else case utf8_step s of (n, ok) \<Rightarrow> ok \<and> utf8_valid (drop n s))"
  by auto
termination
  by (relation "measure length") (auto dest: utf8_step_less)

function utf8_lossy :: "bytes \<Rightarrow> bytes" where
  "utf8_lossy s =
     (if s = [] then []
      else case utf8_step s of (n, ok) \<Rightarrow>
        (if ok then take n s else [0xEF, 0xBF, 0xBD]) @ utf8_lossy (drop n s))"
  by auto
termination
  by (relation "measure length") (auto dest: utf8_step_less)

declare utf8_valid.simps [simp del] utf8_lossy.simps [simp del]

text \<open>The first \<open>p\<close> characters of a valid string.\<close>

fun take_chars :: "nat \<Rightarrow> bytes \<Rightarrow> bytes" where
  "take_chars 0 s = []"
| "take_chars (Suc p) s =
     (if s = [] then [] else let n = max 1 (char_width (hd s)) in take n s @ take_chars p (drop n s))"

section \<open>Lossy decoding\<close>

lemma utf8_valid_Nil [simp]: "utf8_valid []" "utf8_lossy [] = []"
  by (simp_all add: utf8_valid.simps utf8_lossy.simps)

lemma utf8_lossy_valid: "utf8_valid s \<Longrightarrow> utf8_lossy s = s"
proof (induction s rule: utf8_valid.induct)
  case (1 s)
  show ?case
  proof (cases "s = []")
    case False
    obtain n ok where st: "utf8_step s = (n, ok)" by fastforce
    with False 1 show ?thesis
      by (simp add: utf8_valid.simps [of s] utf8_lossy.simps [of s])
  qed simp
qed

lemma word8_0_not_cont [simp]: "\<not> is_cont 0" "\<not> second_ok a 0"
  by (simp_all add: is_cont_def second_ok_def word_le_nat_alt)

text \<open>A successful step lies inside the string and looks at its own bytes only.\<close>

lemma utf8_step_ok:
  assumes "utf8_step s = (n, True)" "s \<noteq> []"
  shows "n \<le> length s" "utf8_step (take n s @ t) = (n, True)"
proof -
  have *: "at s i \<noteq> 0 \<Longrightarrow> i < length s" for i by (auto simp: at_def split: if_splits)
  have c: "is_cont (at s i) \<Longrightarrow> i < length s" "second_ok a (at s i) \<Longrightarrow> i < length s" for i a
    using word8_0_not_cont * by metis+
  have s0: "1 \<le> length s" using assms(2) by (simp add: Suc_le_eq)
  show le: "n \<le> length s"
    using assms(1) s0 c(2) [of "at s 0" 1] c(1) [of 2] c(1) [of 3]
    by (auto simp: utf8_step_def Let_def split: if_splits)
  have at: "at (take n s @ t) i = at s i" if "i < n" for i
    using that le by (simp add: at_def nth_append)
  show "utf8_step (take n s @ t) = (n, True)"
    using assms(1) at utf8_step_pos [of s]
    by (auto simp: utf8_step_def Let_def split: if_splits)
qed

text \<open>Whatever the bytes, lossy decoding yields valid UTF-8.\<close>

lemma utf8_valid_append_char:
  "utf8_step c = (length c, True) \<Longrightarrow> c \<noteq> [] \<Longrightarrow> utf8_valid s \<Longrightarrow> utf8_valid (c @ s)"
  using utf8_step_ok(2) [of c "length c" s] by (simp add: utf8_valid.simps [of "c @ s"])

lemma utf8_replacement: "utf8_step [0xEF, 0xBF, 0xBD] = (3, True)"
  by (simp add: utf8_step_def Let_def at_def char_width_def second_ok_def is_cont_def
      word_le_nat_alt word_less_nat_alt)

lemma utf8_lossy_is_valid: "utf8_valid (utf8_lossy s)"
proof (induction s rule: utf8_lossy.induct)
  case (1 s)
  show ?case
  proof (cases "s = []")
    case False
    obtain n ok where st: "utf8_step s = (n, ok)" by fastforce
    have IH: "utf8_valid (utf8_lossy (drop n s))" using 1 False st by auto
    show ?thesis
    proof (cases ok)
      case True
      have n: "n \<le> length s" "utf8_step (take n s) = (n, True)"
        using utf8_step_ok(1) [of s n] utf8_step_ok(2) [of s n "[]"] st True False by simp_all
      moreover have "take n s \<noteq> []" using utf8_step_pos [of s] st False by auto
      ultimately show ?thesis
        using utf8_valid_append_char [of "take n s"] IH st True False
        by (simp add: utf8_lossy.simps [of s] min_def)
    next
      case False': False
      then show ?thesis
        using utf8_valid_append_char [of "[0xEF, 0xBF, 0xBD]"] IH st False utf8_replacement
        by (simp add: utf8_lossy.simps [of s])
    qed
  qed simp
qed

section \<open>Characters\<close>

text \<open>The characters of a string, found by decoding; a truncation to \<open>p\<close> characters keeps the first
  \<open>p\<close> of them whole.\<close>

function utf8_chars :: "bytes \<Rightarrow> bytes list" where
  "utf8_chars s = (if s = [] then [] else case utf8_step s of (n, ok) \<Rightarrow> take n s # utf8_chars (drop n s))"
  by auto
termination
  by (relation "measure length") (auto dest: utf8_step_less)

declare utf8_chars.simps [simp del]

definition utf8_char :: "bytes \<Rightarrow> bool" where
  "utf8_char c \<longleftrightarrow> c \<noteq> [] \<and> utf8_step c = (length c, True)"

lemma utf8_chars_valid:
  "utf8_valid s \<Longrightarrow> concat (utf8_chars s) = s \<and> list_all utf8_char (utf8_chars s)"
proof (induction s rule: utf8_valid.induct)
  case (1 s)
  show ?case
  proof (cases "s = []")
    case False
    obtain n ok where st: "utf8_step s = (n, ok)" by fastforce
    then have ok: "utf8_step s = (n, True)" "utf8_valid (drop n s)"
      using 1 False by (simp_all add: utf8_valid.simps [of s])
    then have "utf8_char (take n s)"
      using utf8_step_ok(1) [OF ok(1) False] utf8_step_ok(2) [OF ok(1) False, of "[]"] utf8_step_pos [of s] False
      by (auto simp: utf8_char_def)
    then show ?thesis using 1 ok st False by (simp add: utf8_chars.simps [of s])
  qed (simp add: utf8_chars.simps)
qed

lemma utf8_valid_concat: "list_all utf8_char cs \<Longrightarrow> utf8_valid (concat cs)"
  by (induction cs) (auto simp: utf8_char_def intro: utf8_valid_append_char)

lemma utf8_valid_append: "utf8_valid s \<Longrightarrow> utf8_valid t \<Longrightarrow> utf8_valid (s @ t)"
  using utf8_valid_concat [of "utf8_chars s @ utf8_chars t"] utf8_chars_valid [of s] utf8_chars_valid [of t] by simp

lemma utf8_valid_replicate:
  assumes "f < 0x80"
  shows "utf8_valid (replicate n f)"
proof -
  have "list_all utf8_char (replicate n [f])"
    using assms by (simp add: list_all_length utf8_char_def utf8_step_def at_def char_width_def Let_def)
  moreover have "concat (replicate n [f]) = replicate n f" by (induction n) simp_all
  ultimately show ?thesis using utf8_valid_concat by metis
qed

lemma take_chars_whole:
  "utf8_valid s \<Longrightarrow> take_chars p s = concat (take p (utf8_chars s))"
proof (induction p arbitrary: s)
  case (Suc p)
  show ?case
  proof (cases "s = []")
    case False
    obtain n ok where "utf8_step s = (n, ok)" by fastforce
    then have ok: "utf8_step s = (n, True)" "utf8_valid (drop n s)"
      using Suc.prems False by (simp_all add: utf8_valid.simps [of s])
    then have "max 1 (char_width (hd s)) = n"
      using False by (cases s) (auto simp: utf8_step_def at_def Let_def char_width_def split: if_splits)
    then show ?thesis using Suc.IH [OF ok(2)] ok(1) False by (simp add: utf8_chars.simps [of s] Let_def)
  qed (simp add: utf8_chars.simps)
qed simp

end
