(* ===== verification/Format_Value.thy ===== *)
theory Format_Value
  imports Format_Spec Utf8
begin

text \<open>
  Type-driven value formatting (\<open>src/src/format.rs\<close>, \<open>format_with_spec\<close> and the
  \<open>format_*\<close> family). Integer rendering (\<open>{}\<close>, \<open>{:x}\<close>, \<open>{:o}\<close>, \<open>{:b}\<close>) is
  modelled digit by digit. The shortest-decimal rendering of floats and the escaping of
  \<open>{:?}\<close> on strings, which rest on the standard library's float and Unicode tables, are the
  fields of \<open>std_fmt\<close>. Every routine appends to \<open>buf\<close>.
\<close>

record std_fmt =
  str_debug :: "bool \<Rightarrow> bytes \<Rightarrow> bytes"
  f64_debug :: "bool \<Rightarrow> u64 \<Rightarrow> bytes"
  f64_exp :: "bool \<Rightarrow> nat option \<Rightarrow> u64 \<Rightarrow> bytes"
  f64_display :: "nat option \<Rightarrow> u64 \<Rightarrow> bytes"

section \<open>Padding\<close>

definition format_with_spec :: "bytes \<Rightarrow> format_spec \<Rightarrow> bytes \<Rightarrow> bytes" where
  "format_with_spec value_str spec buf =
    (let width = (case fs_width spec of Some w \<Rightarrow> unat w | None \<Rightarrow> 0);
         fill = (if fs_zero_fill spec then 0x30 else fs_fill spec);
         align = (if fs_zero_fill spec \<and> fs_align spec = AlignNone then AlignRight else fs_align spec)
     in if width \<le> length value_str then buf @ value_str
        else let padding = width - length value_str in
          case align of
            AlignNone \<Rightarrow> buf @ value_str @ replicate padding fill
          | AlignLeft \<Rightarrow> buf @ value_str @ replicate padding fill
          | AlignRight \<Rightarrow> buf @ replicate padding fill @ value_str
          | AlignCenter \<Rightarrow>
              let left = padding div 2 in
              buf @ replicate left fill @ value_str @ replicate (padding - left) fill)"

section \<open>Integers\<close>

definition digit_char :: "bool \<Rightarrow> nat \<Rightarrow> u8" where
  "digit_char upper d = word_of_nat (if d < 10 then 48 + d else if upper then 55 + d else 87 + d)"

function radix_digits :: "nat \<Rightarrow> bool \<Rightarrow> nat \<Rightarrow> bytes" where
  "radix_digits base upper n =
     (if base < 2 \<or> n < base then [digit_char upper n]
      else radix_digits base upper (n div base) @ [digit_char upper (n mod base)])"
  by auto
termination by (relation "measure (\<lambda>(b, u, n). n)") auto

declare radix_digits.simps [simp del]

definition decimal :: "nat \<Rightarrow> bytes" where
  "decimal n = radix_digits 10 False n"

text \<open>The zero padding both integer routines apply for a precision.\<close>

definition pad_digits :: "nat \<Rightarrow> u16 option \<Rightarrow> bytes \<Rightarrow> bytes" where
  "pad_digits prefix_len prec s =
     (case prec of
        None \<Rightarrow> s
      | Some p \<Rightarrow>
          let digits_len = length s - prefix_len in
          if digits_len < unat p
          then take prefix_len s @ replicate (unat p - digits_len) 0x30 @ drop prefix_len s
          else s)"

definition format_unsigned_impl :: "u64 \<Rightarrow> format_spec \<Rightarrow> bytes \<Rightarrow> bytes" where
  "format_unsigned_impl value spec buf =
    (let v = unat value; alt = fs_alternate spec; t = fs_type_char spec;
         s = (if t = Some 0x3F then decimal v
              else if t = Some 0x78 then (if alt then bs ''0x'' else []) @ radix_digits 16 False v
              else if t = Some 0x58 then (if alt then bs ''0x'' else []) @ radix_digits 16 True v
              else if t = Some 0x6F then (if alt then bs ''0o'' else []) @ radix_digits 8 False v
              else if t = Some 0x62 then (if alt then bs ''0b'' else []) @ radix_digits 2 False v
              else decimal v);
         prefix_len = (if alt \<and> t \<in> {Some 0x78, Some 0x58, Some 0x6F, Some 0x62} then 2 else 0)
     in format_with_spec (pad_digits prefix_len (fs_precision spec) s) spec buf)"

definition signed_decimal :: "int \<Rightarrow> bytes" where
  "signed_decimal i = (if i < 0 then MINUS # decimal (nat (- i)) else decimal (nat i))"

text \<open>The argument is the sign-extended value.\<close>

definition format_signed_impl :: "int \<Rightarrow> format_spec \<Rightarrow> bytes \<Rightarrow> bytes" where
  "format_signed_impl value spec buf =
    (let s = signed_decimal value;
         prefix_len = (if value < 0 then 1 else 0)
     in format_with_spec (pad_digits prefix_len (fs_precision spec) s) spec buf)"

definition format_u64 :: "u64 \<Rightarrow> format_spec \<Rightarrow> bytes \<Rightarrow> bytes" where
  "format_u64 value spec buf = format_unsigned_impl value spec buf"

definition format_u32 :: "u32 \<Rightarrow> format_spec \<Rightarrow> bytes \<Rightarrow> bytes" where
  "format_u32 value spec buf = format_unsigned_impl (ucast value) spec buf"

definition format_u16 :: "u16 \<Rightarrow> format_spec \<Rightarrow> bytes \<Rightarrow> bytes" where
  "format_u16 value spec buf = format_unsigned_impl (ucast value) spec buf"

definition format_u8 :: "u8 \<Rightarrow> format_spec \<Rightarrow> bytes \<Rightarrow> bytes" where
  "format_u8 value spec buf = format_unsigned_impl (ucast value) spec buf"

definition format_i64 :: "u64 \<Rightarrow> format_spec \<Rightarrow> bytes \<Rightarrow> bytes" where
  "format_i64 value spec buf = format_signed_impl (sint value) spec buf"

definition format_i32 :: "u32 \<Rightarrow> format_spec \<Rightarrow> bytes \<Rightarrow> bytes" where
  "format_i32 value spec buf = format_signed_impl (sint value) spec buf"

definition format_i16 :: "u16 \<Rightarrow> format_spec \<Rightarrow> bytes \<Rightarrow> bytes" where
  "format_i16 value spec buf = format_signed_impl (sint value) spec buf"

definition format_i8 :: "u8 \<Rightarrow> format_spec \<Rightarrow> bytes \<Rightarrow> bytes" where
  "format_i8 value spec buf = format_signed_impl (sint value) spec buf"

section \<open>Booleans, strings, floats\<close>

definition format_bool :: "bool \<Rightarrow> format_spec \<Rightarrow> bytes \<Rightarrow> bytes" where
  "format_bool value spec buf =
     format_with_spec (if value then bs ''true'' else bs ''false'') spec buf"

definition format_str :: "std_fmt \<Rightarrow> bytes \<Rightarrow> format_spec \<Rightarrow> bytes \<Rightarrow> bytes" where
  "format_str sf value spec buf =
    (let s = (if fs_type_char spec = Some 0x3F then str_debug sf (fs_alternate spec) value
              else case fs_precision spec of
                     Some p \<Rightarrow> take_chars (unat p) value
                   | None \<Rightarrow> value)
     in format_with_spec s spec buf)"

definition format_float_impl :: "std_fmt \<Rightarrow> u64 \<Rightarrow> format_spec \<Rightarrow> bytes \<Rightarrow> bytes" where
  "format_float_impl sf value spec buf =
    (let prec = map_option unat (fs_precision spec); t = fs_type_char spec;
         s = (if t = Some 0x3F then f64_debug sf (fs_alternate spec) value
              else if t = Some 0x65 then f64_exp sf False prec value
              else if t = Some 0x45 then f64_exp sf True prec value
              else f64_display sf prec value)
     in format_with_spec s spec buf)"

definition format_f64 :: "std_fmt \<Rightarrow> u64 \<Rightarrow> format_spec \<Rightarrow> bytes \<Rightarrow> bytes" where
  "format_f64 sf value spec buf = format_float_impl sf value spec buf"

text \<open>The exact widening \<open>value as f64\<close> on bit patterns.\<close>

function highest_bit :: "nat \<Rightarrow> nat" where
  "highest_bit m = (if m < 2 then 0 else Suc (highest_bit (m div 2)))"
  by auto
termination by (relation "measure id") auto

declare highest_bit.simps [simp del]

definition f32_to_f64 :: "u32 \<Rightarrow> u64" where
  "f32_to_f64 w =
    (let n = unat w; sign = n div 2 ^ 31; e = n div 2 ^ 23 mod 256; m = n mod 2 ^ 23;
         pack = (\<lambda>e' m'. word_of_nat (sign * 2 ^ 63 + e' * 2 ^ 52 + m') :: u64)
     in if e = 255 then pack 2047 (if m = 0 then 0 else (m * 2 ^ 29) mod 2 ^ 51 + 2 ^ 51)
        else if e \<noteq> 0 then pack (e + 896) (m * 2 ^ 29)
        else if m = 0 then pack 0 0
        else let k = highest_bit m in pack (k + 874) ((m - 2 ^ k) * 2 ^ (52 - k)))"

definition format_f32 :: "std_fmt \<Rightarrow> u32 \<Rightarrow> format_spec \<Rightarrow> bytes \<Rightarrow> bytes" where
  "format_f32 sf value spec buf = format_float_impl sf (f32_to_f64 value) spec buf"

section \<open>What the renderings mean\<close>

text \<open>Reading a digit string back.\<close>

definition digit_val :: "u8 \<Rightarrow> nat" where
  "digit_val c = (let n = unat c in if n < 58 then n - 48 else if n < 71 then n - 55 else n - 87)"

definition read_radix :: "nat \<Rightarrow> bytes \<Rightarrow> nat" where
  "read_radix base s = foldl (\<lambda>a c. base * a + digit_val c) 0 s"

lemma digit_val_char [simp]: "d < 16 \<Longrightarrow> digit_val (digit_char upper d) = d"
  by (auto simp: digit_val_def digit_char_def unat_of_nat Let_def)

lemma read_radix_snoc [simp]: "read_radix base (s @ [c]) = base * read_radix base s + digit_val c"
  by (simp add: read_radix_def)

lemma radix_digits_read:
  assumes "2 \<le> base" "base \<le> 16"
  shows "read_radix base (radix_digits base upper n) = n"
proof (induction n rule: less_induct)
  case (less n)
  show ?case
  proof (cases "n < base")
    case True
    then show ?thesis using assms by (simp add: radix_digits.simps [of base upper n] read_radix_def)
  next
    case False
    have "read_radix base (radix_digits base upper (n div base)) = n div base"
      using False assms by (intro less) simp
    moreover have "n mod base < base" using assms by (intro mod_less_divisor) simp
    then have "n mod base < 16" using assms by linarith
    ultimately show ?thesis
      using False assms by (simp add: radix_digits.simps [of base upper n])
  qed
qed

lemma read_radix_zeros: "read_radix base (replicate k 0x30 @ s) = read_radix base s"
proof -
  have "foldl (\<lambda>a c. base * a + digit_val c) 0 (replicate k 0x30) = 0"
    by (induction k) (simp_all add: digit_val_def)
  then show ?thesis by (simp add: read_radix_def)
qed

text \<open>Reading a signed decimal back.\<close>

definition read_signed :: "bytes \<Rightarrow> int" where
  "read_signed s = (if starts MINUS s then - int (read_radix 10 (tl s)) else int (read_radix 10 s))"

lemma digit_char_ne_minus: "d < 16 \<Longrightarrow> digit_char u d \<noteq> MINUS"
  by (auto simp: digit_char_def word_unat_eq_iff unat_of_nat)

lemma radix_digits_hd: "2 \<le> base \<Longrightarrow> base \<le> 16 \<Longrightarrow> \<not> starts MINUS (radix_digits base u n)"
proof (induction n rule: less_induct)
  case (less n)
  show ?case
  proof (cases "n < base")
    case True
    then show ?thesis
      using less.prems digit_char_ne_minus [of n u] by (simp add: radix_digits.simps [of base u n])
  next
    case False
    have "\<not> starts MINUS (radix_digits base u (n div base))" using False less.prems by (intro less) simp_all
    moreover have "radix_digits base u (n div base) \<noteq> []"
      by (subst radix_digits.simps) simp
    ultimately show ?thesis
      using False less.prems by (auto simp: radix_digits.simps [of base u n] starts_def)
  qed
qed

lemma signed_decimal_read: "read_signed (signed_decimal i) = i"
  using radix_digits_hd [of 10 False]
  by (auto simp: read_signed_def signed_decimal_def decimal_def radix_digits_read)

text \<open>Padding: the value is kept in one piece, filled up to the width and never cut.\<close>

definition spec_width :: "format_spec \<Rightarrow> nat" where
  "spec_width spec = (case fs_width spec of Some w \<Rightarrow> unat w | None \<Rightarrow> 0)"

definition spec_fill :: "format_spec \<Rightarrow> u8" where
  "spec_fill spec = (if fs_zero_fill spec then 0x30 else fs_fill spec)"

lemma format_with_spec_shape:
  "\<exists>l r. format_with_spec v spec buf =
      buf @ replicate l (spec_fill spec) @ v @ replicate r (spec_fill spec) \<and>
    l + r = spec_width spec - length v"
proof (cases "spec_width spec \<le> length v")
  case True
  then show ?thesis
    by (intro exI [of _ 0]) (simp add: format_with_spec_def spec_width_def Let_def)
next
  case False
  define al where "al = (if fs_zero_fill spec \<and> fs_align spec = AlignNone then AlignRight else fs_align spec)"
  define pad where "pad = spec_width spec - length v"
  define l where "l = (case al of AlignRight \<Rightarrow> pad | AlignCenter \<Rightarrow> pad div 2 | _ \<Rightarrow> 0)"
  have "format_with_spec v spec buf =
      buf @ replicate l (spec_fill spec) @ v @ replicate (pad - l) (spec_fill spec)"
    using False unfolding format_with_spec_def spec_width_def [symmetric] spec_fill_def [symmetric]
      al_def [symmetric] Let_def pad_def [symmetric] l_def
    by (simp add: pad_def split: align.splits)
  moreover have "l \<le> pad" by (simp add: l_def split: align.splits)
  ultimately show ?thesis by (intro exI [of _ l] exI [of _ "pad - l"]) (simp add: pad_def)
qed

lemma format_with_spec_append: "format_with_spec v spec buf = buf @ format_with_spec v spec []"
  by (simp add: format_with_spec_def Let_def split: align.splits)

section \<open>Decimal digits\<close>

lemma unat_digit_char: "d < 10 \<Longrightarrow> unat (digit_char u d) = 48 + d"
  by (simp add: digit_char_def unat_of_nat del: of_nat_add of_nat_numeral)

lemma digit_char_digit: "d < 10 \<Longrightarrow> is_digit (digit_char u d)"
  by (simp add: is_digit_def digit_char_def word_le_nat_alt unat_of_nat del: of_nat_add of_nat_numeral)

lemma decimal_digits: "list_all is_digit (decimal n)"
  unfolding decimal_def
proof (induction n rule: less_induct)
  case (less n)
  show ?case
    by (subst radix_digits.simps) (use less digit_char_digit in auto)
qed

lemma decimal_hd: "0 < n \<Longrightarrow> hd (decimal n) \<noteq> ZERO" "decimal n \<noteq> []"
proof -
  show ne: "decimal n \<noteq> []" for n unfolding decimal_def by (subst radix_digits.simps) simp
  show "0 < n \<Longrightarrow> hd (decimal n) \<noteq> ZERO" unfolding decimal_def
  proof (induction n rule: less_induct)
    case (less n)
    show ?case
    proof (cases "n < 10")
      case True
      then show ?thesis
        using less.prems unat_digit_char [of n False]
        by (subst radix_digits.simps) (auto simp: word_unat_eq_iff)
    next
      case False
      have "hd (radix_digits 10 False (n div 10)) \<noteq> ZERO" using False by (intro less.IH) simp_all
      then show ?thesis
        using False ne [of "n div 10"] by (subst radix_digits.simps) (simp add: decimal_def)
    qed
  qed
qed

end
