(* ===== verification/Timestamp.thy ===== *)
theory Timestamp
  imports Format_Value
begin

text \<open>
  Timestamps (\<open>src/src/timestamp.rs\<close>): converting counter ticks to wall-clock
  nanoseconds with a calibrated factor, deriving the counter frequency, and ISO 8601
  rendering with the civil-from-days algorithm. A non-negative \<open>f64\<close> is a pair
  \<open>(n, e)\<close> with value \<open>n * 2 powr e\<close>, where \<open>n\<close> has at most 53 significant bits;
  rounding is to nearest, ties to even. Reading the counter and the clock is I/O: the values
  read are arguments.
\<close>

section \<open>Double arithmetic\<close>

definition bit_len :: "nat \<Rightarrow> nat" where
  "bit_len n = (if n = 0 then 0 else Suc (highest_bit n))"

definition rne :: "nat \<Rightarrow> nat \<Rightarrow> nat" where
  "rne n k =
    (let q = n div 2 ^ k; r = n mod 2 ^ k in
     if 2 ^ k < 2 * r \<or> (2 ^ k = 2 * r \<and> odd q) then q + 1 else q)"

definition rnd53 :: "nat \<Rightarrow> nat" where
  "rnd53 n = (let k = bit_len n - 53 in rne n k * 2 ^ k)"

type_synonym f64 = "nat \<times> int"

definition u64_to_f64 :: "u64 \<Rightarrow> f64" where
  "u64_to_f64 w = (rnd53 (unat w), 0)"

definition f64_mul :: "f64 \<Rightarrow> f64 \<Rightarrow> f64" where
  "f64_mul x y = (rnd53 (fst x * fst y), snd x + snd y)"

text \<open>The quotient with 128 extra bits and a sticky bit rounds like the exact quotient.\<close>

definition f64_div :: "f64 \<Rightarrow> f64 \<Rightarrow> f64" where
  "f64_div x y =
    (let a = fst x * 2 ^ 128; q = a div fst y; sticky = (if a mod fst y = 0 then 0 else 1) in
     (rnd53 (2 * q + sticky), snd x - snd y - 129))"

text \<open>The saturating, truncating cast \<open>as u64\<close>.\<close>

definition f64_to_u64 :: "f64 \<Rightarrow> u64" where
  "f64_to_u64 x =
     word_of_nat (min (2 ^ 64 - 1)
       (if 0 \<le> snd x then fst x * 2 ^ nat (snd x) else fst x div 2 ^ nat (- snd x)))"

section \<open>Calibration\<close>

record calibration =
  counter_to_ns :: f64
  counter_base :: u64
  wall_base_ns :: u64

definition FALLBACK_COUNTER_HZ :: u64 where "FALLBACK_COUNTER_HZ = 1000000000"

definition counter_to_ns_from_freq :: "u64 \<Rightarrow> f64" where
  "counter_to_ns_from_freq freq =
    (let hz = (if freq = 0 then FALLBACK_COUNTER_HZ else freq) in
     f64_div (1000000000, 0) (u64_to_f64 hz))"

text \<open>\<open>as_nanos() as u64\<close> of the wall-clock time; a clock before the epoch panics.\<close>

definition system_time_to_nanos :: "int \<Rightarrow> u64 option" where
  "system_time_to_nanos t = (if t < 0 then None else Some (word_of_int t))"

definition calibrate :: "u64 \<Rightarrow> int \<Rightarrow> u64 \<Rightarrow> calibration option" where
  "calibrate freq wall_time counter =
     (case system_time_to_nanos wall_time of
        None \<Rightarrow> None
      | Some w \<Rightarrow> Some \<lparr>counter_to_ns = counter_to_ns_from_freq freq, counter_base = counter,
                        wall_base_ns = w\<rparr>)"

definition ticks_to_ns :: "u64 \<Rightarrow> calibration \<Rightarrow> u64" where
  "ticks_to_ns tick calib =
    (let delta = u64_to_f64 (tick - counter_base calib);
         ns = f64_to_u64 (f64_mul delta (counter_to_ns calib))
     in ns + wall_base_ns calib)"

definition tsc_freq_from_cpuid_0x15 :: "u32 \<Rightarrow> u32 \<Rightarrow> u32 \<Rightarrow> u64 option" where
  "tsc_freq_from_cpuid_0x15 eax ebx ecx =
    (let denominator = ucast eax :: u64; numerator = ucast ebx :: u64; crystal_hz = ucast ecx :: u64 in
     if denominator = 0 \<or> numerator = 0 \<or> crystal_hz = 0 then None
     else Some (word_of_nat (min (2 ^ 64 - 1) (unat crystal_hz * unat numerator)) div denominator))"

definition timing_calibrate_frequency :: "u64 \<Rightarrow> u64 \<Rightarrow> u64 \<Rightarrow> u64 \<Rightarrow> u64" where
  "timing_calibrate_frequency t1 t2 w1 w2 =
    (let tick_delta = u64_to_f64 (t2 - t1);
         wall_delta_ns = u64_to_f64 (if w1 \<le> w2 then w2 - w1 else 0)
     in if fst wall_delta_ns = 0 then FALLBACK_COUNTER_HZ
        else f64_to_u64 (f64_div (f64_mul tick_delta (1000000000, 0)) wall_delta_ns))"

section \<open>Calendar\<close>

text \<open>Rust's \<open>/\<close> on \<open>i64\<close> truncates towards zero.\<close>

definition tdiv :: "int \<Rightarrow> int \<Rightarrow> int" where
  "tdiv a b = (if 0 \<le> a then a div b else - ((- a) div b))"

definition DAYS_FROM_CIVIL_EPOCH_TO_UNIX :: u64 where "DAYS_FROM_CIVIL_EPOCH_TO_UNIX = 719468"

text \<open>The days are an \<open>i64\<close>, the parts of a date \<open>u32\<close> and the year is cut to \<open>i32\<close>; sums wrap, as in
  a release build.\<close>

definition civil_from_days :: "u64 \<Rightarrow> u32 \<times> u32 \<times> u32" where
  "civil_from_days days_since_epoch =
    (let z = days_since_epoch + DAYS_FROM_CIVIL_EPOCH_TO_UNIX;
         era = word_of_int (if 0 \<le> sint z then tdiv (sint z) 146097 else tdiv (sint (z - 146096)) 146097) :: u64;
         doe = ucast (z - era * 146097) :: u32;
         yoe = (doe - doe div 1460 + doe div 36524 - doe div 146096) div 365;
         y = ucast yoe + era * 400 :: u64;
         doy = doe - (365 * yoe + yoe div 4 - yoe div 100);
         mp = (5 * doy + 2) div 153;
         d = doy - (153 * mp + 2) div 5 + 1;
         m = (if mp < 10 then mp + 3 else mp - 9);
         y_adj = y + (if m \<le> 2 then 1 else 0)
     in (ucast y_adj, m, d))"

definition time_from_ns :: "nat \<Rightarrow> nat \<times> nat \<times> nat \<times> nat" where
  "time_from_ns ns_since_midnight =
    (let secs = ns_since_midnight div 1000000000; nanos = ns_since_midnight mod 1000000000;
         hours = secs div 3600; mins = (secs mod 3600) div 60; secs' = secs mod 60
     in (hours, mins, secs', nanos))"

definition NANOS_PER_SEC :: int where "NANOS_PER_SEC = 1000000000"
definition SECS_PER_DAY :: int where "SECS_PER_DAY = 86400"

section \<open>ISO 8601\<close>

text \<open>\<open>push_u32!\<close>: the low \<open>d\<close> decimal digits.\<close>

fun push_u32 :: "nat \<Rightarrow> nat \<Rightarrow> bytes" where
  "push_u32 v 0 = []"
| "push_u32 v (Suc d) = push_u32 (v div 10) d @ [word_of_nat (48 + v mod 10)]"

text \<open>The arithmetic is on \<open>i64\<close>: the timestamp is reinterpreted and the offset wraps in.\<close>

definition local_ns :: "u64 \<Rightarrow> 32 word \<Rightarrow> int" where
  "local_ns ns_since_epoch timezone_offset_secs =
     sint (ns_since_epoch + word_of_int (sint timezone_offset_secs * NANOS_PER_SEC) :: u64)"

definition format_iso8601 :: "u64 \<Rightarrow> 32 word \<Rightarrow> bytes \<Rightarrow> bytes" where
  "format_iso8601 ns_since_epoch timezone_offset_secs buf =
    (let ln = local_ns ns_since_epoch timezone_offset_secs;
         ns_per_day = NANOS_PER_SEC * SECS_PER_DAY;
         days = ln div ns_per_day;
         ns_since_midnight = nat (ln mod ns_per_day);
         (year, month, day) = civil_from_days (word_of_int days);
         (hour, min, sec, nanos) = time_from_ns ns_since_midnight;
         off = sint timezone_offset_secs;
         abs_offset = nat \<bar>off\<bar>
     in buf @ push_u32 (unat year) 4 @ [0x2D] @ push_u32 (unat month) 2 @ [0x2D] @
        push_u32 (unat day) 2 @ [0x54] @ push_u32 hour 2 @ [0x3A] @ push_u32 min 2 @ [0x3A] @
        push_u32 sec 2 @ [0x2E] @ push_u32 nanos 9 @
        (if off = 0 then [0x5A]
         else [if off < 0 then 0x2D else 0x2B] @ push_u32 (abs_offset div 3600) 2 @ [0x3A] @
              push_u32 ((abs_offset mod 3600) div 60) 2))"

section \<open>Ticks\<close>

lemma rne_exact: "2 ^ k dvd n \<Longrightarrow> rne n k * 2 ^ k = n"
  by (auto simp: rne_def Let_def)

lemma rne_mono:
  assumes "a \<le> b"
  shows "rne a k \<le> rne b k"
proof (cases "a div 2 ^ k = b div 2 ^ k")
  case True
  have "a mod 2 ^ k \<le> b mod 2 ^ k"
    using assms True by (simp add: minus_div_mult_eq_mod [symmetric])
  then show ?thesis using True by (auto simp: rne_def Let_def)
next
  case False
  then have "a div 2 ^ k + 1 \<le> b div 2 ^ k"
    using div_le_mono [OF assms, of "2 ^ k"] by simp
  then show ?thesis by (auto simp: rne_def Let_def)
qed

lemma highest_bit_bounds: "0 < n \<Longrightarrow> 2 ^ highest_bit n \<le> n \<and> n < 2 ^ Suc (highest_bit n)"
proof (induction n rule: highest_bit.induct)
  case (1 m)
  show ?case
  proof (cases "m < 2")
    case True
    with 1 show ?thesis by (simp add: highest_bit.simps [of m])
  next
    case False
    with 1 have "2 ^ highest_bit (m div 2) \<le> m div 2 \<and> m div 2 < 2 ^ Suc (highest_bit (m div 2))"
      by simp
    with False show ?thesis by (auto simp: highest_bit.simps [of m])
  qed
qed

lemma bit_len_bounds: "n < 2 ^ bit_len n" "0 < n \<Longrightarrow> 2 ^ (bit_len n - 1) \<le> n"
  using highest_bit_bounds [of n] by (auto simp: bit_len_def)

lemma bit_len_mono: "a \<le> b \<Longrightarrow> bit_len a \<le> bit_len b"
proof (cases "a = 0")
  case False
  assume "a \<le> b"
  then have "(2::nat) ^ (bit_len a - 1) < 2 ^ bit_len b"
    using bit_len_bounds(2) [of a] bit_len_bounds(1) [of b] False by linarith
  then have "bit_len a - 1 < bit_len b" by (rule power_less_imp_less_exp [rotated]) simp
  then show ?thesis by simp
qed (simp add: bit_len_def)

lemma rne_le_pow: "n \<le> 2 ^ (k + j) \<Longrightarrow> rne n k \<le> 2 ^ j"
  using rne_mono [of n "2 ^ (k + j)" k] by (simp add: rne_def Let_def power_add)

lemma rne_ge_pow: "2 ^ (k + j) \<le> n \<Longrightarrow> 2 ^ j \<le> rne n k"
  using rne_mono [of "2 ^ (k + j)" n k] by (simp add: rne_def Let_def power_add)

lemma rnd53_mono:
  assumes "a \<le> b"
  shows "rnd53 a \<le> rnd53 b"
proof (cases "bit_len a = bit_len b \<or> bit_len b \<le> 53")
  case True
  then have "bit_len a - 53 = bit_len b - 53" using bit_len_mono [OF assms] by linarith
  then show ?thesis using rne_mono [OF assms] by (simp add: rnd53_def Let_def)
next
  case False
  let ?A = "bit_len a" and ?B = "bit_len b"
  have lt: "?A < ?B" "53 < ?B" using False bit_len_mono [OF assms] by linarith+
  have split: "(2::nat) ^ (n - k) * 2 ^ k = 2 ^ n" if "k \<le> n" for n k
    using that by (simp flip: power_add)
  let ?k = "?A - 53" and ?l = "?B - 53"
  have pa: "rne a ?k * 2 ^ ?k \<le> 2 ^ (?B - 1)"
  proof -
    have "(2::nat) ^ ?A \<le> 2 ^ (?B - 1)" using lt by (intro power_increasing) simp_all
    then have "a \<le> 2 ^ (?B - 1)" using bit_len_bounds(1) [of a] by linarith
    then have "a \<le> 2 ^ (?k + (?B - 1 - ?k))" using lt by simp
    then have "rne a ?k \<le> 2 ^ (?B - 1 - ?k)" by (rule rne_le_pow)
    then have "rne a ?k * 2 ^ ?k \<le> 2 ^ (?B - 1 - ?k) * 2 ^ ?k" by simp
    also have "\<dots> = 2 ^ (?B - 1)" using lt by (intro split) simp
    finally show ?thesis .
  qed
  have pb: "2 ^ (?B - 1) \<le> rne b ?l * 2 ^ ?l"
  proof -
    have "0 < b" using lt by (cases "b = 0") (auto simp: bit_len_def)
    then have "2 ^ (?l + (?B - 1 - ?l)) \<le> b" using bit_len_bounds(2) [of b] lt by simp
    then have "2 ^ (?B - 1 - ?l) \<le> rne b ?l" by (rule rne_ge_pow)
    then have "2 ^ (?B - 1 - ?l) * 2 ^ ?l \<le> rne b ?l * 2 ^ ?l" by (rule mult_le_mono1)
    moreover have "(2::nat) ^ (?B - 1 - ?l) * 2 ^ ?l = 2 ^ (?B - 1)" using lt by (intro split) simp
    ultimately show ?thesis by (simp only:)
  qed
  show ?thesis using pa pb by (simp add: rnd53_def Let_def)
qed

lemma rnd53_exact: "n < 2 ^ 53 \<Longrightarrow> rnd53 (n * 2 ^ j) = n * 2 ^ j"
proof (cases "n = 0")
  case False
  assume n: "n < 2 ^ 53"
  have "n * 2 ^ j < 2 ^ (53 + j)" using n by (simp add: power_add)
  moreover have "2 ^ (bit_len (n * 2 ^ j) - 1) \<le> n * 2 ^ j"
    using bit_len_bounds(2) [of "n * 2 ^ j"] False by simp
  ultimately have "(2::nat) ^ (bit_len (n * 2 ^ j) - 1) < 2 ^ (53 + j)" by linarith
  then have "bit_len (n * 2 ^ j) - 1 < 53 + j" by (rule power_less_imp_less_exp [rotated]) simp
  then have "(2::nat) ^ (bit_len (n * 2 ^ j) - 53) dvd 2 ^ j" by (intro le_imp_power_dvd) simp
  then show ?thesis by (simp add: rnd53_def Let_def rne_exact)
qed (simp add: rnd53_def rne_def)

text \<open>What a tick count adds to the wall clock, before the final wrapping addition.\<close>

definition elapsed_ns :: "u64 \<Rightarrow> calibration \<Rightarrow> u64" where
  "elapsed_ns delta calib = f64_to_u64 (f64_mul (u64_to_f64 delta) (counter_to_ns calib))"

lemma ticks_to_ns_elapsed:
  "ticks_to_ns tick calib = elapsed_ns (tick - counter_base calib) calib + wall_base_ns calib"
  by (simp add: ticks_to_ns_def elapsed_ns_def Let_def)

lemma f64_to_u64_mono: "a \<le> b \<Longrightarrow> f64_to_u64 (a, e) \<le> f64_to_u64 (b, e)"
proof -
  let ?f = "\<lambda>n. min (2 ^ 64 - 1) (if 0 \<le> e then n * 2 ^ nat e else n div 2 ^ nat (- e)) :: nat"
  assume "a \<le> b"
  then have "(if 0 \<le> e then a * 2 ^ nat e else a div 2 ^ nat (- e)) \<le>
      (if 0 \<le> e then b * 2 ^ nat e else b div 2 ^ nat (- e))"
    by (simp add: div_le_mono)
  then have "?f a \<le> ?f b" by (rule min.mono [OF order.refl])
  moreover have "unat (word_of_nat (?f n) :: u64) = ?f n" for n
    by (intro unat_u64_of_nat) (simp add: min_less_iff_disj)
  ultimately show ?thesis by (simp only: f64_to_u64_def fst_conv snd_conv word_le_nat_alt)
qed

lemma elapsed_ns_mono: "d1 \<le> d2 \<Longrightarrow> elapsed_ns d1 calib \<le> elapsed_ns d2 calib"
  unfolding elapsed_ns_def f64_mul_def u64_to_f64_def fst_conv snd_conv
  by (intro f64_to_u64_mono rnd53_mono mult_le_mono1) (simp add: word_le_nat_alt)

text \<open>A counter of one tick per nanosecond is converted exactly up to 53 bits.\<close>

lemma counter_to_ns_ghz: "counter_to_ns_from_freq 1000000000 = (2 ^ 129, - 129)"
proof -
  have "unat (1000000000 :: u64) = 1000000000" by simp
  then have "u64_to_f64 1000000000 = (1000000000, 0)"
    using rnd53_exact [of 1000000000 0] by (simp add: u64_to_f64_def)
  moreover have "rnd53 (2 * 2 ^ 128) = 2 ^ 129" using rnd53_exact [of 1 129] by simp
  ultimately show ?thesis by (simp add: counter_to_ns_from_freq_def f64_div_def Let_def)
qed

lemma elapsed_ns_ghz:
  assumes "counter_to_ns calib = counter_to_ns_from_freq 1000000000" "unat delta < 2 ^ 53"
  shows "elapsed_ns delta calib = delta"
proof -
  have "rnd53 (unat delta) = unat delta" using rnd53_exact [of "unat delta" 0] assms(2) by simp
  moreover have "rnd53 (unat delta * 2 ^ 129) = unat delta * 2 ^ 129" by (rule rnd53_exact [OF assms(2)])
  ultimately have "f64_mul (u64_to_f64 delta) (counter_to_ns calib) = (unat delta * 2 ^ 129, - 129)"
    by (simp only: f64_mul_def u64_to_f64_def assms(1) counter_to_ns_ghz fst_conv snd_conv add_0)
  moreover have "unat delta * 2 ^ 129 div 2 ^ 129 = unat delta" by simp
  moreover have "min (2 ^ 64 - 1) (unat delta) = unat delta" using assms(2) by simp
  ultimately show ?thesis by (simp add: elapsed_ns_def f64_to_u64_def)
qed

section \<open>The calendar\<close>

definition leap :: "int \<Rightarrow> bool" where
  "leap y \<longleftrightarrow> y mod 4 = 0 \<and> (y mod 100 \<noteq> 0 \<or> y mod 400 = 0)"

definition month_days :: "int \<Rightarrow> int \<Rightarrow> int" where
  "month_days y m = (if m = 2 then (if leap y then 29 else 28)
     else if m \<in> {4, 6, 9, 11} then 30 else 31)"

definition valid_date :: "int \<Rightarrow> int \<Rightarrow> int \<Rightarrow> bool" where
  "valid_date y m d \<longleftrightarrow> 1 \<le> m \<and> m \<le> 12 \<and> 1 \<le> d \<and> d \<le> month_days y m"

text \<open>Leap days up to the end of year \<open>y\<close>, days before month \<open>m\<close> of a common year, and the
  day number of a date counted from 1970-01-01.\<close>

definition leaps :: "int \<Rightarrow> int" where
  "leaps y = y div 4 - y div 100 + y div 400"

definition days_before :: "int \<Rightarrow> int" where
  "days_before m = [0, 31, 59, 90, 120, 151, 181, 212, 243, 273, 304, 334] ! nat (m - 1)"

definition day_number :: "int \<Rightarrow> int \<Rightarrow> int \<Rightarrow> int" where
  "day_number y m d =
     365 * (y - 1) + leaps (y - 1) + days_before m + (if 2 < m \<and> leap y then 1 else 0) + d - 719163"

lemma div_step:
  fixes y n :: int
  assumes "0 < n"
  shows "y div n = (y - 1) div n + (if n dvd y then 1 else 0)"
proof (cases "n dvd y")
  case True
  then obtain k where y: "y = n * k" by (auto elim: dvdE)
  have "(n * k - 1) div n = (n * (k - 1) + (n - 1)) div n" by (simp add: algebra_simps)
  also have "\<dots> = k - 1" using assms by simp
  finally show ?thesis using True assms y by simp
next
  case False
  then have m: "0 < y mod n" "y mod n < n" using assms by (simp_all add: order_neq_le_trans dvd_eq_mod_eq_0)
  have "(y - 1) div n = (n * (y div n) + (y mod n - 1)) div n" by (simp add: algebra_simps)
  also have "\<dots> = y div n" using m by simp
  finally show ?thesis using False by simp
qed

lemma leap_dvd: "leap y \<longleftrightarrow> 4 dvd y \<and> (\<not> 100 dvd y \<or> 400 dvd y)"
  by (simp add: leap_def dvd_eq_mod_eq_0)

lemma leaps_step: "leaps y = leaps (y - 1) + (if leap y then 1 else 0)"
proof -
  have d: "100 dvd y \<Longrightarrow> 4 dvd y" "400 dvd y \<Longrightarrow> 100 dvd y"
    by (rule dvd_trans [of _ 100], simp_all) (rule dvd_trans [of _ 400], simp_all)
  have "leaps y - leaps (y - 1) =
      (if 4 dvd y then 1 else 0) - (if 100 dvd y then 1 else 0) + (if 400 dvd y then 1 else 0)"
  proof -
    have lin: "(a - b + c) - (a' - b' + c') = x - z + w" if "a = a' + x" "b = b' + z" "c = c' + w"
      for a b c a' b' c' x z w :: int using that by simp
    show ?thesis unfolding leaps_def by (rule lin; rule div_step; simp)
  qed
  moreover have "(if P then 1 else 0) - (if Q then 1 else 0) + (if R then 1 else 0) =
      (if P \<and> (\<not> Q \<or> R) then 1 else (0 :: int))" if "Q \<longrightarrow> P" "R \<longrightarrow> Q" for P Q R
    by (cases P; cases Q; cases R) (use that in simp_all)
  from this [OF impI [OF d(1)] impI [OF d(2)]] have "(if 4 dvd y then 1 else 0) - (if 100 dvd y then 1 else 0) +
      (if 400 dvd y then 1 else 0) = (if leap y then 1 else (0 :: int))"
    unfolding leap_dvd .
  ultimately show ?thesis by simp
qed

text \<open>
  The March-based year of a day of the era. Every day of the 146097-day cycle splits into
  centuries, four-year groups, years and a day of the year.
\<close>

definition year_of :: "int \<Rightarrow> int" where
  "year_of doe = (doe - doe div 1460 + doe div 36524 - doe div 146096) div 365"

definition year_start :: "int \<Rightarrow> int" where
  "year_start k = 365 * k + k div 4 - k div 100"

lemma div_unique_int:
  fixes a b q r :: int
  shows "a = b * q + r \<Longrightarrow> 0 \<le> r \<Longrightarrow> r < b \<Longrightarrow> a div b = q"
  by (metis int_div_pos_eq)

lemma year_of_split:
  fixes c i r t :: int
  assumes "0 \<le> c" "c \<le> 3" "0 \<le> i" "i \<le> 24" "0 \<le> r" "r \<le> 3" "0 \<le> t" "t \<le> 365"
    and last: "t = 365 \<Longrightarrow> r = 3 \<and> (i < 24 \<or> c = 3)"
  defines "doe \<equiv> 36524 * c + 1461 * i + 365 * r + t" and "k \<equiv> 100 * c + 4 * i + r"
  shows "year_of doe = k" "year_start k = doe - t" "t = 365 \<Longrightarrow> leap (k + 1)"
proof -
  have k4: "k div 4 = 25 * c + i" and k100: "k div 100 = c"
    using assms(1-8) by (auto simp: k_def intro: div_unique_int)
  show "year_start k = doe - t" by (simp add: year_start_def k4 k100) (simp add: k_def doe_def)
  show "leap (k + 1)" if "t = 365"
  proof -
    have "r = 3" and ic: "i < 24 \<or> c = 3" using last [OF that] by auto
    then have k1: "k + 1 = 100 * c + 4 * (i + 1)" by (simp add: k_def)
    show ?thesis
    proof (cases "i < 24")
      case True
      have "(4 * (i + 1)) mod 100 = 4 * (i + 1)" using True assms(3) by (intro mod_pos_pos_trivial) simp_all
      then have "(k + 1) mod 100 = 4 * (i + 1)" unfolding k1 by (simp only: mod_mult_self4)
      moreover have "(k + 1) mod 4 = 0" using k1 by presburger
      ultimately show ?thesis using assms(3) by (simp add: leap_def)
    next
      case False
      then have "k + 1 = 400" using ic assms(4) k1 by auto
      then show ?thesis by (simp add: leap_def)
    qed
  qed
  define x where "x = (24 * c + i + 365 * r + t) div 1460"
  have q: "doe div 1460 = 25 * c + i + x"
  proof -
    have "doe = 1460 * (25 * c + i) + (24 * c + i + 365 * r + t)" by (simp add: doe_def)
    then show ?thesis by (simp add: x_def)
  qed
  have x: "0 \<le> x" "x \<le> 1" "t = 365 \<Longrightarrow> x = 1" "x = 1 \<Longrightarrow> 0 < t"
  proof -
    have b: "0 \<le> 24 * c + i + 365 * r + t" "24 * c + i + 365 * r + t < 2920" using assms(1-8) by linarith+
    then show "0 \<le> x" "x \<le> 1" by (simp_all add: x_def)
    show "x = 1" if "t = 365"
      using last [OF that] that assms(1-4) by (auto simp: x_def intro!: div_unique_int)
    show "0 < t" if "x = 1"
      using that assms(1-8) by (cases "t = 0") (auto simp: x_def)
  qed
  have cents: "doe div 36524 - doe div 146096 = c"
  proof (cases "doe = 146096")
    case False
    have "1461 * i + 365 * r + t < 36524"
    proof (rule ccontr)
      assume "\<not> ?thesis"
      then have "i = 24" "r = 3" "t = 365" using assms(3-8) by linarith+
      then show False using last False by (simp add: doe_def)
    qed
    then have a: "doe div 36524 = c"
      using assms(1-8) by (intro div_unique_int [of _ _ _ "1461 * i + 365 * r + t"]) (simp_all add: doe_def)
    have "doe div 146096 = doe div 36524 div 4" by (simp add: zdiv_zmult2_eq [symmetric])
    then show ?thesis using a assms(1,2) by simp
  qed (use assms(1-8) in \<open>simp add: doe_def\<close>)
  have "year_of doe = (365 * k + (t - x)) div 365"
  proof -
    have "doe - doe div 1460 + doe div 36524 - doe div 146096 = doe - doe div 1460 + c"
      using cents by linarith
    also have "\<dots> = 365 * k + (t - x)" using q doe_def k_def by linarith
    finally show ?thesis by (simp only: year_of_def)
  qed
  also have "\<dots> = k"
  proof -
    have "0 \<le> t - x" "t - x < 365" using x assms(7,8) by (cases "t = 365"; cases "x = 1"; linarith)+
    then show ?thesis by simp
  qed
  finally show "year_of doe = k" .
qed

lemma era_split:
  fixes doe :: int
  assumes "0 \<le> doe" "doe \<le> 146096"
  obtains c i r t where "0 \<le> c" "c \<le> 3" "0 \<le> i" "i \<le> 24" "0 \<le> r" "r \<le> 3" "0 \<le> t" "t \<le> 365"
    "t = 365 \<Longrightarrow> r = 3 \<and> (i < 24 \<or> c = 3)" "doe = 36524 * c + 1461 * i + 365 * r + t"
proof -
  define c where "c = min 3 (doe div 36524)"
  define S where "S = doe - 36524 * c"
  have c: "0 \<le> c" "c \<le> 3" using assms by (simp_all add: c_def pos_imp_zdiv_nonneg_iff)
  have S: "0 \<le> S" "S \<le> 36524" "S = 36524 \<Longrightarrow> c = 3"
  proof -
    have dm: "doe = 36524 * (doe div 36524) + doe mod 36524" "0 \<le> doe mod 36524" "doe mod 36524 < 36524"
      by simp_all
    show "0 \<le> S" "S \<le> 36524" "S = 36524 \<Longrightarrow> c = 3"
      unfolding S_def c_def using dm assms by linarith+
  qed
  define i where "i = S div 1461"
  define R where "R = S mod 1461"
  have i: "0 \<le> i" "i \<le> 24" "S = 1461 * i + R" "0 \<le> R" "R \<le> 1460"
  proof -
    have "S = 1461 * (S div 1461) + S mod 1461" "0 \<le> S mod 1461" by simp_all
    then have "S div 1461 < 25" using S(2) by linarith
    then show "i \<le> 24" by (simp add: i_def)
    show "0 \<le> i" using S(1) by (simp add: i_def pos_imp_zdiv_nonneg_iff)
    show "S = 1461 * i + R" "0 \<le> R" by (simp_all add: i_def R_def)
    have "R < 1461" by (simp add: R_def)
    then show "R \<le> 1460" by simp
  qed
  define r where "r = min 3 (R div 365)"
  define t where "t = R - 365 * r"
  have "R = 365 * (R div 365) + R mod 365" "0 \<le> R mod 365" "R mod 365 < 365" by simp_all
  then have t: "0 \<le> r" "r \<le> 3" "0 \<le> t" "t \<le> 365" "t = 365 \<Longrightarrow> R = 1460 \<and> r = 3"
    using i(4,5) unfolding t_def r_def by linarith+
  have "r = 3 \<and> (i < 24 \<or> c = 3)" if "t = 365"
    using t(5) [OF that] i(2,3) S(3) by (cases "i = 24") auto
  moreover have "doe = 36524 * c + 1461 * i + 365 * r + t" using i(3) by (simp add: t_def S_def)
  ultimately show thesis using that c i(1,2) t(1-4) by blast
qed

text \<open>The month and day of a day of the March-based year.\<close>

lemma month_split:
  fixes t :: int
  assumes "0 \<le> t" "t \<le> 365"
  defines "mp \<equiv> (5 * t + 2) div 153"
  defines "d \<equiv> t - (153 * mp + 2) div 5 + 1" and "m \<equiv> if mp < 10 then mp + 3 else mp - 9"
  shows "1 \<le> m" "m \<le> 12" "1 \<le> d" "m \<le> 2 \<Longrightarrow> 306 \<le> t" "2 < m \<Longrightarrow> t < 306"
    "m \<noteq> 2 \<Longrightarrow> d \<le> month_days y m" "m = 2 \<Longrightarrow> d = t - 336" "days_before m + d = (if m \<le> 2 then t - 305 else t + 60)"
proof -
  have b: "153 * mp \<le> 5 * t + 2" "5 * t + 2 < 153 * mp + 153"
    using mult_div_mod_eq [of 153 "5 * t + 2"] pos_mod_bound [of 153 "5 * t + 2"] pos_mod_sign [of 153 "5 * t + 2"]
    unfolding mp_def by linarith+
  then have mp: "0 \<le> mp" "mp \<le> 11" using assms(1,2) by linarith+
  define st where "st = (153 * mp + 2) div 5"
  have d: "d = t - st + 1" by (simp add: d_def st_def)
  have m: "m = (if mp < 10 then mp + 3 else mp - 9)" by (simp add: m_def)
  from mp have "mp \<in> {0, 1, 2, 3, 4, 5, 6, 7, 8, 9, 10, 11}"
    unfolding insert_iff empty_iff by presburger
  then have "(mp, st, m) \<in> {(0, 0, 3), (1, 31, 4), (2, 61, 5), (3, 92, 6), (4, 122, 7), (5, 153, 8),
      (6, 184, 9), (7, 214, 10), (8, 245, 11), (9, 275, 12), (10, 306, 1), (11, 337, 2)}"
    unfolding m st_def by (elim insertE emptyE) simp_all
  note tab = this
  show "1 \<le> m" "m \<le> 12" using tab by auto
  show "1 \<le> d" using tab b unfolding d by auto
  show "m \<le> 2 \<Longrightarrow> 306 \<le> t" "2 < m \<Longrightarrow> t < 306" "m = 2 \<Longrightarrow> d = t - 336"
    using tab b unfolding d by auto
  show "m \<noteq> 2 \<Longrightarrow> d \<le> month_days y m"
    using tab b assms(2) unfolding d month_days_def by auto
  show "days_before m + d = (if m \<le> 2 then t - 305 else t + 60)"
    using tab unfolding d days_before_def by auto
qed

lemma leaps_era:
  assumes "0 \<le> k" "k < 400"
  shows "365 * (k + 400 * e) + leaps (k + 400 * e) = 146097 * e + year_start k"
proof -
  have "(k + 400 * e) div 4 = k div 4 + 100 * e" "(k + 400 * e) div 100 = k div 100 + 4 * e"
    "(k + 400 * e) div 400 = e"
    using assms by (simp_all add: div_unique_int)
  then show ?thesis by (simp add: leaps_def year_start_def)
qed

lemma leap_era: "leap (k + 400 * e) \<longleftrightarrow> leap k"
proof -
  have "4 dvd 400 * e" "100 dvd 400 * e" "400 dvd 400 * e" by (simp_all add: dvd_mult2)
  then show ?thesis by (simp add: leap_dvd dvd_add_left_iff)
qed

text \<open>The algorithm over unbounded integers: the date of a day is a date of the calendar, and it is
  that day's date.\<close>

definition civil_int :: "int \<Rightarrow> int \<times> int \<times> int" where
  "civil_int n =
    (let z = n + 719468; era = z div 146097; doe = z - era * 146097; yoe = year_of doe;
         doy = doe - year_start yoe; mp = (5 * doy + 2) div 153; d = doy - (153 * mp + 2) div 5 + 1;
         m = (if mp < 10 then mp + 3 else mp - 9)
     in (yoe + era * 400 + (if m \<le> 2 then 1 else 0), m, d))"

lemma civil_int_correct:
  assumes "civil_int n = (y, m, d)"
  shows "valid_date y m d" "day_number y m d = n"
proof -
  define z where "z = n + 719468"
  define era where "era = z div 146097"
  define doe where "doe = z - era * 146097"
  have doe: "0 \<le> doe" "doe \<le> 146096"
    using mult_div_mod_eq [of 146097 z] pos_mod_bound [of 146097 z] pos_mod_sign [of 146097 z]
    unfolding doe_def era_def by linarith+
  obtain c i r t where ci: "0 \<le> c" "c \<le> 3" "0 \<le> i" "i \<le> 24" "0 \<le> r" "r \<le> 3" "0 \<le> t" "t \<le> 365"
    "t = 365 \<Longrightarrow> r = 3 \<and> (i < 24 \<or> c = 3)" and de: "doe = 36524 * c + 1461 * i + 365 * r + t"
    using era_split [OF doe] by blast
  define k where "k = 100 * c + 4 * i + r"
  note ys = year_of_split [OF ci, folded de k_def]
  have k: "0 \<le> k" "k < 400" using ci by (simp_all add: k_def)
  define mp where "mp = (5 * t + 2) div 153"
  note ms = month_split [OF ci(7,8), folded mp_def]
  have doy: "doe - year_start k = t" using ys(2) by simp
  define M where "M = (if mp < 10 then mp + 3 else mp - 9)"
  define D where "D = t - (153 * mp + 2) div 5 + 1"
  have "civil_int n = (k + era * 400 + (if M \<le> 2 then 1 else 0), M, D)"
    unfolding civil_int_def z_def [symmetric] Let_def era_def [symmetric] doe_def [symmetric]
    by (simp only: ys(1) doy mp_def [symmetric] M_def D_def)
  then have res: "m = (if mp < 10 then mp + 3 else mp - 9)" "d = t - (153 * mp + 2) div 5 + 1"
    "y = k + era * 400 + (if m \<le> 2 then 1 else 0)"
    unfolding assms prod.inject M_def [symmetric] D_def [symmetric] by (elim conjE, simp only:)+
  note ms = ms [folded res(1,2)]
  have z: "z = 146097 * era + year_start k + t" using ys(2) by (simp add: doe_def)
  have feb: "d \<le> month_days y m" if "m = 2"
  proof (cases "t = 365")
    case True
    have "leap (k + 1)" using ys(3) True by blast
    then have "leap y" using leap_era [of "k + 1" era] that res(3) by (simp add: algebra_simps)
    then show ?thesis using ms(7) that True by (simp add: month_days_def)
  next
    case False
    then show ?thesis using ms(7) that ci(8) by (simp add: month_days_def)
  qed
  then show "valid_date y m d" using ms(1-3,6) by (auto simp: valid_date_def)
  have dn: "n = 146097 * era + year_start k + t - 719468" using z by (simp add: z_def)
  show "day_number y m d = n"
  proof (cases "m \<le> 2")
    case True
    then have "y - 1 = k + 400 * era" using res(3) by simp
    moreover have "\<not> 2 < m" using True by simp
    ultimately show ?thesis
      using leaps_era [OF k, of era] ms(8) True dn by (simp add: day_number_def)
  next
    case False
    then have "y = k + 400 * era" using res(3) by simp
    then show ?thesis
      using leaps_era [OF k, of era] leaps_step [of y] ms(8) False dn
      by (simp add: day_number_def)
  qed
qed

text \<open>Machine arithmetic agrees with it as long as nothing overflows.\<close>

lemma sint_of_int: "- (2 ^ 63) \<le> k \<Longrightarrow> k < 2 ^ 63 \<Longrightarrow> sint (word_of_int k :: u64) = k"
  using signed_take_bit_int_eq_self [of 63 k] by (simp only: signed_of_int) simp

lemma of_int_div:
  assumes "0 \<le> a" "a < 2 ^ 32" "0 \<le> b" "b < 2 ^ 32"
  shows "word_of_int a div word_of_int b = (word_of_int (a div b) :: u32)"
proof -
  have "uint (word_of_int a :: u32) = a" "uint (word_of_int b :: u32) = b"
    using assms by (simp_all add: uint_word_of_int)
  then show ?thesis by (simp add: word_div_def)
qed

lemma of_int_less: "0 \<le> a \<Longrightarrow> a < 2 ^ 32 \<Longrightarrow> 0 \<le> b \<Longrightarrow> b < 2 ^ 32 \<Longrightarrow> (word_of_int a :: u32) < word_of_int b \<longleftrightarrow> a < b"
  by (simp add: word_less_def uint_word_of_int)

lemma ucast_of_int: "ucast (word_of_int k :: u64) = (word_of_int k :: u32)"
  by (rule bit_word_eqI) (simp add: bit_ucast_iff bit_of_int_iff)

lemma tdiv_floor:
  fixes z :: int
  shows "(if 0 \<le> z then tdiv z 146097 else tdiv (z - 146096) 146097) = z div 146097"
proof (cases "0 \<le> z")
  case False
  define doe where "doe = z mod 146097"
  have "- (z - 146096) = 146097 * (- (z div 146097)) + (146096 - doe)" by (simp add: doe_def minus_div_mult_eq_mod [symmetric])
  from div_unique_int [OF this] have "(- (z - 146096)) div 146097 = - (z div 146097)" by (simp add: doe_def)
  then show ?thesis using False by (simp add: tdiv_def)
qed (simp add: tdiv_def)

lemma civil_from_days_int:
  assumes n: "- (2 ^ 62) \<le> sint n" "sint n < 2 ^ 62" and civ: "civil_int (sint n) = (y, m, d)"
  shows "civil_from_days n = (word_of_int y, word_of_int m, word_of_int d)"
proof -
  define Z where "Z = sint n + 719468"
  define E where "E = Z div 146097"
  define DOE where "DOE = Z - E * 146097"
  define K where "K = year_of DOE"
  define T where "T = DOE - year_start K"
  define MP where "MP = (5 * T + 2) div 153"
  define M where "M = (if MP < 10 then MP + 3 else MP - 9)"
  define D where "D = T - (153 * MP + 2) div 5 + 1"
  have civ': "y = K + E * 400 + (if M \<le> 2 then 1 else 0)" "m = M" "d = D"
    using civ unfolding civil_int_def Z_def [symmetric] Let_def E_def [symmetric] DOE_def [symmetric] K_def [symmetric]
      T_def [symmetric] MP_def [symmetric] M_def [symmetric] D_def [symmetric] prod.inject by auto
  have doe: "0 \<le> DOE" "DOE \<le> 146096"
    using mult_div_mod_eq [of 146097 Z] pos_mod_bound [of 146097 Z] pos_mod_sign [of 146097 Z]
    unfolding DOE_def E_def by linarith+
  obtain c i r t where ci: "0 \<le> c" "c \<le> 3" "0 \<le> i" "i \<le> 24" "0 \<le> r" "r \<le> 3" "0 \<le> t" "t \<le> 365"
    "t = 365 \<Longrightarrow> r = 3 \<and> (i < 24 \<or> c = 3)" "DOE = 36524 * c + 1461 * i + 365 * r + t"
    using era_split [OF doe] by blast
  note ys = year_of_split [OF ci(1-9), folded ci(10)]
  have K: "0 \<le> K" "K < 400" and T: "0 \<le> T" "T \<le> 365" using ys(1,2) ci by (simp_all add: K_def T_def)
  have MP: "0 \<le> MP" "MP \<le> 11" using T unfolding MP_def by linarith+
  have M: "0 \<le> M" "M \<le> 12" using MP by (auto simp: M_def)
  have z: "n + DAYS_FROM_CIVIL_EPOCH_TO_UNIX = word_of_int Z" by (simp add: DAYS_FROM_CIVIL_EPOCH_TO_UNIX_def Z_def)
  have sz: "sint (word_of_int Z :: u64) = Z" "sint (word_of_int Z - 146096 :: u64) = Z - 146096"
    using sint_of_int [of Z] sint_of_int [of "Z - 146096"] n by (simp_all add: Z_def)
  have w: "ucast (word_of_int Z - word_of_int E * 146097 :: u64) = (word_of_int DOE :: u32)"
    using ucast_of_int [of "Z - E * 146097"] by (simp add: DOE_def)
  have yoe: "(word_of_int DOE - word_of_int DOE div 1460 + word_of_int DOE div 36524 - word_of_int DOE div 146096) div 365 =
      (word_of_int K :: u32)"
  proof -
    let ?x = "DOE - DOE div 1460 + DOE div 36524 - DOE div 146096"
    have "0 \<le> ?x" "?x < 4294967296" using doe by linarith+
    then have "word_of_int ?x div word_of_int 365 = (word_of_int K :: u32)"
      unfolding K_def year_of_def by (intro of_int_div) simp_all
    then show ?thesis using of_int_div [of DOE 1460] of_int_div [of DOE 36524] of_int_div [of DOE 146096] doe by simp
  qed
  have doy: "word_of_int DOE - (365 * word_of_int K + word_of_int K div 4 - word_of_int K div 100) = (word_of_int T :: u32)"
    using of_int_div [of K 4] of_int_div [of K 100] K by (simp add: T_def year_start_def)
  have mp: "(5 * word_of_int T + 2) div 153 = (word_of_int MP :: u32)"
    using of_int_div [of "5 * T + 2" 153] T by (simp add: MP_def)
  have d: "word_of_int T - (153 * word_of_int MP + 2) div 5 + 1 = (word_of_int D :: u32)"
    using of_int_div [of "153 * MP + 2" 5] MP by (simp add: D_def)
  have m: "(if (word_of_int MP :: u32) < 10 then word_of_int MP + 3 else word_of_int MP - 9) = (word_of_int M :: u32)"
    using of_int_less [of MP 10] MP by (auto simp: M_def)
  have feb: "(if (word_of_int M :: u32) \<le> 2 then 1 else 0) = (word_of_int (if M \<le> 2 then 1 else 0) :: u64)"
    using of_int_less [of 2 M] M by (auto simp: not_less [symmetric])
  have yr: "ucast (ucast (word_of_int K :: u32) + word_of_int E * 400 + word_of_int a :: u64) = (word_of_int (K + E * 400 + a) :: u32)" for a
  proof -
    have "uint (word_of_int K :: u32) = K" using K by (simp add: uint_word_of_int)
    then have "ucast (word_of_int K :: u32) = (word_of_int K :: u64)" by (metis word_of_int_uint ucast_eq)
    then show ?thesis using ucast_of_int [of "K + E * 400 + a"] by simp
  qed
  show ?thesis
    unfolding civil_from_days_def Let_def z sz tdiv_floor E_def [symmetric] w yoe doy mp d m feb yr civ' ..
qed

text \<open>Every day whose year fits an \<open>i32\<close>.\<close>

lemma day_number_next: "day_number (y + 1) 1 1 = day_number y 12 31 + 1"
  using leaps_step [of y] by (simp add: day_number_def days_before_def)

lemma day_number_years: "a \<le> b \<Longrightarrow> day_number a 1 1 \<le> day_number b 1 1"
proof (induction rule: int_ge_induct)
  case (step i)
  then show ?case using leaps_step [of i] by (simp add: day_number_def split: if_splits)
qed simp

lemma day_number_in_year:
  assumes "valid_date y m d"
  shows "day_number y 1 1 \<le> day_number y m d" "day_number y m d \<le> day_number y 12 31"
proof -
  have "m \<in> {1, 2, 3, 4, 5, 6, 7, 8, 9, 10, 11, 12}"
    using assms unfolding valid_date_def insert_iff empty_iff by presburger
  then show "day_number y 1 1 \<le> day_number y m d" "day_number y m d \<le> day_number y 12 31"
    using assms by (auto simp: valid_date_def day_number_def days_before_def month_days_def split: if_splits)
qed

lemma civil_from_days_correct:
  assumes "day_number (- (2 ^ 31)) 1 1 \<le> sint n" "sint n \<le> day_number (2 ^ 31 - 1) 12 31"
  obtains y m d where "civil_from_days n = (word_of_int y, word_of_int m, word_of_int d)"
    "valid_date y m d" "day_number y m d = sint n" "- (2 ^ 31) \<le> y" "y < 2 ^ 31"
proof -
  obtain y m d where civ: "civil_int (sint n) = (y, m, d)" by (cases "civil_int (sint n)")
  note c = civil_int_correct [OF civ]
  have ends: "day_number (- (2 ^ 31)) 1 1 = - 784353015833" "day_number (2 ^ 31 - 1) 12 31 = 784351576776"
    by (simp_all add: day_number_def leaps_def days_before_def leap_def)
  then have "- (2 ^ 62) \<le> sint n" "sint n < 2 ^ 62" using assms by simp_all
  note w = civil_from_days_int [OF this civ]
  have "- (2 ^ 31) \<le> y"
  proof (rule ccontr)
    assume "\<not> - (2 ^ 31) \<le> y"
    then have "day_number (y + 1) 1 1 \<le> day_number (- (2 ^ 31)) 1 1" by (intro day_number_years) simp
    then show False using day_number_next [of y] day_number_in_year [OF c(1)] c(2) assms(1) by linarith
  qed
  moreover have "y < 2 ^ 31"
  proof (rule ccontr)
    assume "\<not> y < 2 ^ 31"
    then have "day_number (2 ^ 31) 1 1 \<le> day_number y 1 1" by (intro day_number_years) simp
    then show False using day_number_next [of "2 ^ 31 - 1"] day_number_in_year [OF c(1)] c(2) assms(2) by simp
  qed
  ultimately show thesis using that w c by blast
qed

section \<open>Reading a timestamp back\<close>

text \<open>The instant an ISO 8601 string denotes, in nanoseconds since the epoch.\<close>

definition iso_num :: "bytes \<Rightarrow> nat \<Rightarrow> nat \<Rightarrow> int" where
  "iso_num s off n = int (read_radix 10 (slice s off n))"

definition iso_offset_secs :: "bytes \<Rightarrow> int" where
  "iso_offset_secs s =
     (if s ! 29 = 0x5A then 0
      else (if s ! 29 = 0x2D then -1 else 1) * (3600 * iso_num s 30 2 + 60 * iso_num s 33 2))"

definition iso_instant :: "bytes \<Rightarrow> int" where
  "iso_instant s =
     (86400 * day_number (iso_num s 0 4) (iso_num s 5 2) (iso_num s 8 2)
      + 3600 * iso_num s 11 2 + 60 * iso_num s 14 2 + iso_num s 17 2 - iso_offset_secs s) * 1000000000
     + iso_num s 20 9"

lemma length_push_u32 [simp]: "length (push_u32 v d) = d"
  by (induction d arbitrary: v) auto

lemma read_push_u32: "v < 10 ^ d \<Longrightarrow> read_radix 10 (push_u32 v d) = v"
proof (induction d arbitrary: v)
  case 0
  then show ?case by (simp add: read_radix_def)
next
  case (Suc d)
  have "word_of_nat (48 + v mod 10) = digit_char False (v mod 10)" by (simp add: digit_char_def)
  then have "digit_val (word_of_nat (48 + v mod 10)) = v mod 10"
    by (simp del: of_nat_add of_nat_numeral)
  moreover have "v div 10 < 10 ^ d" using Suc.prems by (simp add: div_less_iff_less_mult mult.commute)
  ultimately show ?case using Suc.IH by simp
qed

lemma time_from_ns_bounds:
  assumes "time_from_ns n = (h, mi, sec, ns)" "n < 86400000000000"
  shows "h < 24" "mi < 60" "sec < 60" "ns < 1000000000"
    "n = ((h * 60 + mi) * 60 + sec) * 1000000000 + ns"
proof -
  have e: "h = n div 1000000000 div 3600" "mi = n div 1000000000 mod 3600 div 60"
    "sec = n div 1000000000 mod 60" "ns = n mod 1000000000"
    using assms(1) by (auto simp: time_from_ns_def Let_def)
  have "n div 1000000000 < 86400" using assms(2) by (simp add: div_less_iff_less_mult)
  then show "h < 24" "mi < 60" "sec < 60" "ns < 1000000000"
    by (simp_all add: e div_less_iff_less_mult less_mult_imp_div_less)
  have "n div 1000000000 = (h * 60 + mi) * 60 + sec"
  proof -
    define S where "S = n div 1000000000"
    define w where "w = S mod 3600"
    have "S = S div 3600 * 3600 + w" "w = w div 60 * 60 + w mod 60"
      by (simp_all add: w_def)
    moreover have "S mod 60 = w mod 60" by (simp add: w_def mod_mod_cancel)
    ultimately show ?thesis unfolding e S_def [symmetric] w_def [symmetric]
      by (simp add: add_mult_distrib)
  qed
  then show "n = ((h * 60 + mi) * 60 + sec) * 1000000000 + ns"
    unfolding e(4) by (metis div_mult_mod_eq)
qed

lemma leaps_sign: "0 \<le> x \<Longrightarrow> 0 \<le> leaps x" "x < 0 \<Longrightarrow> leaps x \<le> 0"
proof -
  assume x: "0 \<le> x"
  have "x div 100 \<le> x div 4" using x by (intro zdiv_mono2) simp_all
  moreover have "0 \<le> x div 400" using x by (simp add: pos_imp_zdiv_nonneg_iff)
  ultimately show "0 \<le> leaps x" by (simp add: leaps_def)
next
  assume x: "x < 0"
  have "x div 4 \<le> x div 100" using x by (intro zdiv_mono2_neg) simp_all
  moreover have "x div 400 < 0" using x by (simp add: neg_imp_zdiv_neg_iff)
  ultimately show "leaps x \<le> 0" by (simp add: leaps_def)
qed

lemma valid_date_year:
  assumes "valid_date y m d" "- 400000 < day_number y m d" "day_number y m d < 400000"
  shows "0 < y" "y < 10000" "0 \<le> m" "m < 100" "0 \<le> d" "d < 100"
proof -
  have v: "1 \<le> m" "m \<le> 12" "1 \<le> d" "d \<le> 31"
    using assms(1) by (auto simp: valid_date_def month_days_def split: if_splits)
  then show "0 \<le> m" "m < 100" "0 \<le> d" "d < 100" by linarith+
  have "m \<in> {1, 2, 3, 4, 5, 6, 7, 8, 9, 10, 11, 12}"
    using v(1,2) unfolding insert_iff empty_iff by presburger
  then have db: "0 \<le> days_before m" "days_before m \<le> 334" by (auto simp: days_before_def)
  show "0 < y"
  proof (rule ccontr)
    assume "\<not> 0 < y"
    then have "y - 1 < 0" by simp
    with leaps_sign(2) [OF this] assms(2) db v show False by (simp add: day_number_def split: if_splits)
  qed
  show "y < 10000"
  proof (rule ccontr)
    assume y: "\<not> y < 10000"
    with leaps_sign(1) [of "y - 1"] assms(3) db v show False by (simp add: day_number_def split: if_splits)
  qed
qed

lemma local_ns_exact:
  assumes "unat ns < 2 ^ 63" "- (2 ^ 63) \<le> int (unat ns) + sint off * 1000000000"
    "int (unat ns) + sint off * 1000000000 < 2 ^ 63"
  shows "local_ns ns off = int (unat ns) + sint off * 1000000000"
proof -
  let ?L = "int (unat ns) + sint off * 1000000000"
  have "sint (word_of_int ?L :: u64) = ?L" using assms(2,3) by (rule sint_of_int)
  then show ?thesis
    by (simp add: local_ns_def NANOS_PER_SEC_def)
qed

text \<open>The fields of the rendered string, for a day, time and offset within the fields' widths.\<close>

lemma iso_string_fields:
  assumes "y < 10000" "mo < 100" "d < 100" "h < 100" "mi < 100" "se < 100" "ns < 1000000000"
    and s: "s = push_u32 y 4 @ [0x2D] @ push_u32 mo 2 @ [0x2D] @ push_u32 d 2 @ [0x54] @ push_u32 h 2 @
      [0x3A] @ push_u32 mi 2 @ [0x3A] @ push_u32 se 2 @ [0x2E] @ push_u32 ns 9 @ tz"
  shows "iso_num s 0 4 = int y" "iso_num s 5 2 = int mo" "iso_num s 8 2 = int d"
    "iso_num s 11 2 = int h" "iso_num s 14 2 = int mi" "iso_num s 17 2 = int se"
    "iso_num s 20 9 = int ns" "s ! (29 + i) = tz ! i" "iso_num s (29 + j) n = iso_num tz j n"
proof -
  show "iso_num s 0 4 = int y" "iso_num s 5 2 = int mo" "iso_num s 8 2 = int d"
    "iso_num s 11 2 = int h" "iso_num s 14 2 = int mi" "iso_num s 17 2 = int se"
    "iso_num s 20 9 = int ns"
    by (simp_all add: iso_num_def s slice_def read_push_u32 assms(1-7))
  define pre where "pre = push_u32 y 4 @ [0x2D] @ push_u32 mo 2 @ [0x2D] @ push_u32 d 2 @ [0x54] @
    push_u32 h 2 @ [0x3A] @ push_u32 mi 2 @ [0x3A] @ push_u32 se 2 @ [0x2E] @ push_u32 ns 9"
  have "s = pre @ tz" "length pre = 29" by (simp_all add: s pre_def)
  then show "s ! (29 + i) = tz ! i" "iso_num s (29 + j) n = iso_num tz j n"
    by (simp_all add: iso_num_def slice_def nth_append)
qed

lemma format_iso8601_instant:
  assumes ns: "unat ns < 2 ^ 63" "- (2 ^ 63) \<le> int (unat ns) + sint off * 1000000000"
    "int (unat ns) + sint off * 1000000000 < 2 ^ 63"
    and off: "\<bar>sint off\<bar> < 360000" "60 dvd sint off"
  shows "iso_instant (format_iso8601 ns off []) = int (unat ns)"
    "length (format_iso8601 ns off []) = (if off = 0 then 30 else 35)"
proof -
  let ?L = "int (unat ns) + sint off * 1000000000"
  define days where "days = ?L div 86400000000000"
  define mid where "mid = nat (?L mod 86400000000000)"
  obtain y mo d where civ: "civil_int days = (y, mo, d)" by (cases "civil_int days")
  obtain h mi se n where tm: "time_from_ns mid = (h, mi, se, n)" by (cases "time_from_ns mid")
  define tz where "tz = (if sint off = 0 then [0x5A]
    else [if sint off < 0 then 0x2D else 0x2B] @ push_u32 (nat \<bar>sint off\<bar> div 3600) 2 @ [0x3A] @
         push_u32 ((nat \<bar>sint off\<bar> mod 3600) div 60) 2)"
  define s where "s = push_u32 (unat (word_of_int y :: u32)) 4 @ [0x2D] @ push_u32 (unat (word_of_int mo :: u32)) 2 @ [0x2D] @
    push_u32 (unat (word_of_int d :: u32)) 2 @ [0x54] @ push_u32 h 2 @ [0x3A] @ push_u32 mi 2 @ [0x3A] @ push_u32 se 2 @
    [0x2E] @ push_u32 n 9 @ tz"
  have mid: "int mid = ?L mod 86400000000000" "mid < 86400000000000"
    by (simp_all add: mid_def nat_less_iff)
  have L: "?L = days * 86400000000000 + int mid" by (simp add: days_def mid(1))
  note c = civil_int_correct [OF civ]
  have days: "- 400000 < days" "days < 400000"
  proof -
    have b: "- 9223372036854775808 \<le> ?L" "?L < 9223372036854775808" using ns(2,3) by simp_all
    show "- 400000 < days" "days < 400000" using b mid(2) unfolding L by linarith+
  qed
  have sd: "sint (word_of_int days :: u64) = days" using days by (intro sint_of_int) simp_all
  have civ': "civil_from_days (word_of_int days) = (word_of_int y, word_of_int mo, word_of_int d)"
    using civil_from_days_int [of "word_of_int days"] civ days by (simp add: sd)
  have dn: "- 400000 < day_number y mo d" "day_number y mo d < 400000" using days by (simp_all only: c(2))
  have fmt: "format_iso8601 ns off [] = s"
    using civ' tm unfolding format_iso8601_def local_ns_exact [OF ns] NANOS_PER_SEC_def SECS_PER_DAY_def
    by (simp add: Let_def days_def mid_def s_def tz_def)
  note v = valid_date_year [OF c(1) dn]
  note t = time_from_ns_bounds [OF tm mid(2)]
  have ymd: "unat (word_of_int y :: u32) = nat y" "unat (word_of_int mo :: u32) = nat mo" "unat (word_of_int d :: u32) = nat d"
    using v by (simp_all add: unat_eq_nat_uint uint_word_of_int)
  have "nat y < 10000" "nat mo < 100" "nat d < 100" using v by simp_all
  note f = iso_string_fields [OF this _ _ _ t(4) s_def [unfolded ymd]]
  have fields: "iso_num s 0 4 = y" "iso_num s 5 2 = mo" "iso_num s 8 2 = d" "iso_num s 11 2 = int h"
    "iso_num s 14 2 = int mi" "iso_num s 17 2 = int se" "iso_num s 20 9 = int n"
    using f(1-7) t(1-3) v by simp_all
  have tzs: "s ! 29 = tz ! 0" "iso_num s 30 2 = iso_num tz 1 2" "iso_num s 33 2 = iso_num tz 4 2"
    using f(8) [of 0] f(9) [of 1 2] f(9) [of 4 2] t(1-3) by simp_all
  have offs: "iso_offset_secs s = sint off"
  proof (cases "sint off = 0")
    case True
    then show ?thesis by (simp add: iso_offset_secs_def tzs(1) tz_def)
  next
    case False
    let ?a = "nat \<bar>sint off\<bar>"
    have a: "?a div 3600 < 10 ^ 2" "(?a mod 3600) div 60 < 10 ^ 2" using off(1) by (simp_all add: div_less_iff_less_mult)
    have "60 dvd ?a" using off(2) by (simp add: nat_dvd_iff)
    then have "60 * ((?a mod 3600) div 60) = ?a mod 3600"
      by (intro dvd_mult_div_cancel dvd_mod) simp_all
    then have am: "?a = 3600 * (?a div 3600) + 60 * ((?a mod 3600) div 60)" by simp
    have "iso_num tz 1 2 = int (?a div 3600)" "iso_num tz 4 2 = int ((?a mod 3600) div 60)"
      using False a by (simp_all add: tz_def iso_num_def slice_def read_push_u32)
    then have "3600 * iso_num tz 1 2 + 60 * iso_num tz 4 2 = int ?a" using am by linarith
    then show ?thesis using False by (simp add: iso_offset_secs_def tzs) (simp add: tz_def)
  qed
  show "iso_instant (format_iso8601 ns off []) = int (unat ns)"
    unfolding fmt iso_instant_def fields offs c(2) using L t(5) by simp
  show "length (format_iso8601 ns off []) = (if off = 0 then 30 else 35)"
  proof -
    have "sint off = 0 \<longleftrightarrow> off = 0" by (metis signed_0 signed_word_eqI)
    then show ?thesis unfolding fmt by (simp add: s_def tz_def)
  qed
qed

end
