(* ===== verification/Decode.thy ===== *)
theory Decode
  imports Cursor Timestamp
begin

text \<open>
  Decoding a wire record into a log line (\<open>decode_and_format\<close>, \<open>render_pattern\<close>,
  \<open>interleave\<close> and \<open>format_arg\<close> in \<open>src/src/drain.rs\<close>). The site pointer and the
  legacy file pointer of a record are dereferenced by the code: \<open>sites\<close> and \<open>rodata\<close>
  give the read-only memory behind them. \<open>None\<close> is a panic (\<open>expect\<close>, an index out of
  range) or a pointer outside that memory.
\<close>

record env =
  env_fmt :: std_fmt
  env_sites :: "u64 \<Rightarrow> site option"
  env_rodata :: "u64 \<Rightarrow> nat \<Rightarrow> bytes option"

section \<open>Arguments\<close>

definition exact :: "nat \<Rightarrow> bytes \<Rightarrow> (bytes \<Rightarrow> bytes) \<Rightarrow> bytes option" where
  "exact n data f = (if length data = n then Some (f data) else None)"

definition fmt_u64 :: "bytes \<Rightarrow> format_spec \<Rightarrow> bytes \<Rightarrow> bytes option" where
  "fmt_u64 data spec buf = exact 8 data (\<lambda>b. format_u64 (u64_of_le b) spec buf)"
definition fmt_i64 :: "bytes \<Rightarrow> format_spec \<Rightarrow> bytes \<Rightarrow> bytes option" where
  "fmt_i64 data spec buf = exact 8 data (\<lambda>b. format_i64 (u64_of_le b) spec buf)"
definition fmt_f64 :: "std_fmt \<Rightarrow> bytes \<Rightarrow> format_spec \<Rightarrow> bytes \<Rightarrow> bytes option" where
  "fmt_f64 sf data spec buf = exact 8 data (\<lambda>b. format_f64 sf (u64_of_le b) spec buf)"
definition fmt_u32 :: "bytes \<Rightarrow> format_spec \<Rightarrow> bytes \<Rightarrow> bytes option" where
  "fmt_u32 data spec buf = exact 4 data (\<lambda>b. format_u32 (u32_of_le b) spec buf)"
definition fmt_i32 :: "bytes \<Rightarrow> format_spec \<Rightarrow> bytes \<Rightarrow> bytes option" where
  "fmt_i32 data spec buf = exact 4 data (\<lambda>b. format_i32 (u32_of_le b) spec buf)"
definition fmt_f32 :: "std_fmt \<Rightarrow> bytes \<Rightarrow> format_spec \<Rightarrow> bytes \<Rightarrow> bytes option" where
  "fmt_f32 sf data spec buf = exact 4 data (\<lambda>b. format_f32 sf (u32_of_le b) spec buf)"
definition fmt_u16 :: "bytes \<Rightarrow> format_spec \<Rightarrow> bytes \<Rightarrow> bytes option" where
  "fmt_u16 data spec buf = exact 2 data (\<lambda>b. format_u16 (u16_of_le b) spec buf)"
definition fmt_i16 :: "bytes \<Rightarrow> format_spec \<Rightarrow> bytes \<Rightarrow> bytes option" where
  "fmt_i16 data spec buf = exact 2 data (\<lambda>b. format_i16 (u16_of_le b) spec buf)"
definition fmt_u8 :: "bytes \<Rightarrow> format_spec \<Rightarrow> bytes \<Rightarrow> bytes option" where
  "fmt_u8 data spec buf = (if data = [] then None else Some (format_u8 (data ! 0) spec buf))"
definition fmt_i8 :: "bytes \<Rightarrow> format_spec \<Rightarrow> bytes \<Rightarrow> bytes option" where
  "fmt_i8 data spec buf = (if data = [] then None else Some (format_i8 (data ! 0) spec buf))"
definition fmt_bool :: "bytes \<Rightarrow> format_spec \<Rightarrow> bytes \<Rightarrow> bytes option" where
  "fmt_bool data spec buf = (if data = [] then None else Some (format_bool (data ! 0 \<noteq> 0) spec buf))"
definition fmt_str :: "std_fmt \<Rightarrow> bytes \<Rightarrow> format_spec \<Rightarrow> bytes \<Rightarrow> bytes option" where
  "fmt_str sf data spec buf = Some (format_str sf (utf8_lossy data) spec buf)"

text \<open>The dispatch table, one row per tag.\<close>

definition FORMATTERS :: "std_fmt \<Rightarrow> (bytes \<Rightarrow> format_spec \<Rightarrow> bytes \<Rightarrow> bytes option) list" where
  "FORMATTERS sf = [fmt_u64, fmt_i64, fmt_f64 sf, fmt_u32, fmt_i32, fmt_f32 sf, fmt_u16, fmt_i16,
     fmt_u8, fmt_i8, fmt_bool, fmt_str sf]"

definition format_arg ::
  "std_fmt \<Rightarrow> u8 \<Rightarrow> format_spec \<Rightarrow> cursor \<Rightarrow> bytes \<Rightarrow> (bool \<times> cursor \<times> bytes) option" where
  "format_arg sf tag spec c buf =
     (if tag = TAG_STR then
        case read_len_prefixed c of ((data, _), c') \<Rightarrow>
          map_option (\<lambda>b. (True, c', b)) (fmt_str sf data spec buf)
      else if unat tag < length FIXED_SIZES then
        case read_bytes (FIXED_SIZES ! unat tag) c of (data, c') \<Rightarrow>
          map_option (\<lambda>b. (True, c', b)) ((FORMATTERS sf ! unat tag) data spec buf)
      else Some (False, c, buf))"

definition hex_digit :: "u8 \<Rightarrow> u8" where
  "hex_digit n = bs ''0123456789ABCDEF'' ! unat n"

definition write_unknown_tag :: "u8 \<Rightarrow> bytes \<Rightarrow> bytes" where
  "write_unknown_tag tag buf =
     buf @ bs ''<unknown tag 0x'' @ [hex_digit (drop_bit 4 tag), hex_digit (tag AND 0x0F), 0x3E]"

section \<open>The message\<close>

text \<open>\<open>interleave\<close>: \<open>tags\<close> are the tags from \<open>arg_idx\<close> on.\<close>

function interleave ::
  "std_fmt \<Rightarrow> bytes \<Rightarrow> bytes \<Rightarrow> bool \<Rightarrow> cursor \<Rightarrow> bytes \<Rightarrow> (cursor \<times> bytes) option" where
  "interleave sf [] tags parse_ok c buf = Some (c, buf)"
| "interleave sf (ch # s) tags parse_ok c buf =
     (if ch = LBRACE then
        if starts LBRACE s then interleave sf (tl s) tags parse_ok c (buf @ [LBRACE])
        else let spec = parse_spec (takeWhile (\<lambda>b. b \<noteq> RBRACE) s);
                 rest = drop 1 (dropWhile (\<lambda>b. b \<noteq> RBRACE) s) in
          case tags of
            [] \<Rightarrow> interleave sf rest [] parse_ok c (buf @ bs ''<missing arg>'')
          | tag # tags' \<Rightarrow>
              if parse_ok then
                case format_arg sf tag spec c buf of
                  None \<Rightarrow> None
                | Some (ok, c', buf') \<Rightarrow>
                    if ok then interleave sf rest tags' True c' buf'
                    else interleave sf rest tags' False c' (write_unknown_tag tag buf')
              else interleave sf rest tags' False c (write_unknown_tag tag buf)
      else if ch = RBRACE then interleave sf (drop 1 s) tags parse_ok c (buf @ [RBRACE])
      else interleave sf s tags parse_ok c (buf @ [ch]))"
  by pat_completeness auto
termination
  by (relation "measure (\<lambda>(sf, s, _). length s)")
    (auto simp: less_Suc_eq_le intro: le_trans [OF diff_le_self length_dropWhile_le])

section \<open>The line\<close>

record line_ctx =
  lc_ns :: u64
  lc_offset :: "32 word"
  lc_level :: level
  lc_fmt :: bytes
  lc_file_line :: "(bytes \<times> u32) option"
  lc_thread_id :: u64
  lc_thread_name :: "bytes option"
  lc_tags :: bytes

definition render_place ::
  "std_fmt \<Rightarrow> line_ctx \<Rightarrow> field \<Rightarrow> format_spec \<Rightarrow> cursor \<Rightarrow> bytes \<Rightarrow> (cursor \<times> bytes) option" where
  "render_place sf x field spec c buf =
     (case field of
        Timestamp \<Rightarrow> Some (c, format_iso8601 (lc_ns x) (lc_offset x) buf)
      | FLevel \<Rightarrow> Some (c, format_str sf (as_str (lc_level x)) spec buf)
      | File \<Rightarrow> Some (c, case lc_file_line x of Some (file, _) \<Rightarrow> format_str sf file spec buf | None \<Rightarrow> buf)
      | Line \<Rightarrow> Some (c, case lc_file_line x of Some (_, line) \<Rightarrow> format_u32 line spec buf | None \<Rightarrow> buf)
      | ThreadName \<Rightarrow> Some (c, case lc_thread_name x of Some nm \<Rightarrow> format_str sf nm spec buf | None \<Rightarrow> buf)
      | ThreadId \<Rightarrow> Some (c, format_u64 (lc_thread_id x) spec (buf @ bs ''ThreadId('') @ [0x29])
      | Message \<Rightarrow> interleave sf (lc_fmt x) (lc_tags x) True c buf)"

fun render_pattern ::
  "std_fmt \<Rightarrow> line_ctx \<Rightarrow> segment list \<Rightarrow> cursor \<Rightarrow> bytes \<Rightarrow> (cursor \<times> bytes) option" where
  "render_pattern sf x [] c buf = Some (c, buf)"
| "render_pattern sf x (Lit s # segs) c buf = render_pattern sf x segs c (buf @ s)"
| "render_pattern sf x (Place field spec # segs) c buf =
     (case render_place sf x field spec c buf of
        None \<Rightarrow> None
      | Some (c', buf') \<Rightarrow> render_pattern sf x segs c' buf')"

text \<open>The flagged sections, in the order the code reads them.\<close>

definition read_site :: "env \<Rightarrow> u16 \<Rightarrow> cursor \<Rightarrow> ((bytes \<times> (bytes \<times> u32) option) \<times> cursor) option" where
  "read_site e flags c =
     (if flags AND FLAG_SITE \<noteq> 0 then
        case read_u64 c of (p, c') \<Rightarrow>
          (case env_sites e p of
             None \<Rightarrow> None
           | Some st \<Rightarrow> Some ((site_fmt st, Some (site_file st, site_line st)), c'))
      else Some (([], None), c))"

definition read_source ::
  "env \<Rightarrow> u16 \<Rightarrow> (bytes \<times> u32) option \<Rightarrow> cursor \<Rightarrow> ((bytes \<times> u32) option \<times> cursor) option" where
  "read_source e flags fl c =
     (if flags AND FLAG_SOURCE \<noteq> 0 then
        case read_u64 c of (p, c1) \<Rightarrow> case read_u16 c1 of (l, c2) \<Rightarrow> case read_u32 c2 of (ln, c3) \<Rightarrow>
          (case env_rodata e p (unat l) of
             None \<Rightarrow> None
           | Some file \<Rightarrow> Some (Some (if utf8_valid file then file else bs ''<file>'', ln), c3))
      else Some (fl, c))"

definition read_thread :: "u16 \<Rightarrow> u64 \<Rightarrow> bytes \<Rightarrow> cursor \<Rightarrow> (u64 \<times> bytes) \<times> cursor" where
  "read_thread flags ring_tid ring_name c =
     (if flags AND FLAG_THREAD \<noteq> 0 then
        case read_u64 c of (tid, c1) \<Rightarrow> case read_len_prefixed c1 of ((nm, len), c2) \<Rightarrow>
          ((tid, if 0 < len \<and> utf8_valid nm then nm else ring_name), c2)
      else ((ring_tid, ring_name), c))"

definition decode_and_format ::
  "env \<Rightarrow> bytes \<Rightarrow> 32 word \<Rightarrow> calibration \<Rightarrow> segment list \<Rightarrow> u64 \<Rightarrow> bytes \<Rightarrow> bytes \<Rightarrow> bytes option"
where
  "decode_and_format e record timezone_offset calib line_pattern ring_thread_id ring_thread_name buf =
    (let c0 = skip_bytes 4 (cursor_new record 0 (length record));
         (level_byte, c1) = read_u8 c0;
         (flags, c2) = read_u16 c1;
         (timestamp, c3) = read_u64 (skip_bytes 1 c2);
         level = (case from_u8 level_byte of Some l \<Rightarrow> l | None \<Rightarrow> Error);
         ns = ticks_to_ns timestamp calib
     in case read_site e flags c3 of None \<Rightarrow> None | Some ((fmt, fl0), c4) \<Rightarrow>
        (case read_source e flags fl0 c4 of None \<Rightarrow> None | Some (file_line, c5) \<Rightarrow>
          let ((thread_id, thread_name), c6) = read_thread flags ring_thread_id ring_thread_name c5;
              c7 = (if flags AND FLAG_PROCESS \<noteq> 0 then skip_bytes 4 c6 else c6);
              c8 = (if flags AND FLAG_COMPLEX \<noteq> 0 then skip_bytes 8 c7 else c7);
              (n_args, c9) = read_u8 c8;
              (tags, c10) = read_bytes (unat n_args) c9
          in map_option snd
               (render_pattern (env_fmt e)
                 \<lparr>lc_ns = ns, lc_offset = timezone_offset, lc_level = level, lc_fmt = fmt,
                  lc_file_line = file_line, lc_thread_id = thread_id, lc_thread_name = Some thread_name,
                  lc_tags = tags\<rparr> line_pattern c10 buf)))"

section \<open>Decoding what the producer encoded\<close>

text \<open>Formatting a value directly, without the wire in between.\<close>

fun format_value :: "std_fmt \<Rightarrow> arg \<Rightarrow> format_spec \<Rightarrow> bytes \<Rightarrow> bytes" where
  "format_value sf (U64 w) spec buf = format_u64 w spec buf"
| "format_value sf (I64 w) spec buf = format_i64 w spec buf"
| "format_value sf (F64 w) spec buf = format_f64 sf w spec buf"
| "format_value sf (U32 w) spec buf = format_u32 w spec buf"
| "format_value sf (I32 w) spec buf = format_i32 w spec buf"
| "format_value sf (F32 w) spec buf = format_f32 sf w spec buf"
| "format_value sf (U16 w) spec buf = format_u16 w spec buf"
| "format_value sf (I16 w) spec buf = format_i16 w spec buf"
| "format_value sf (U8 w) spec buf = format_u8 w spec buf"
| "format_value sf (I8 w) spec buf = format_i8 w spec buf"
| "format_value sf (Bool b) spec buf = format_bool b spec buf"
| "format_value sf (Str s) spec buf = format_str sf s spec buf"

text \<open>A Rust string is valid UTF-8, and one that fits a record is shorter than 64 KiB.\<close>

fun arg_ok :: "arg \<Rightarrow> bool" where
  "arg_ok (Str s) \<longleftrightarrow> length s < 65536 \<and> utf8_valid s"
| "arg_ok _ \<longleftrightarrow> True"

lemmas fmt_defs = fmt_u64_def fmt_i64_def fmt_f64_def fmt_u32_def fmt_i32_def fmt_f32_def
  fmt_u16_def fmt_i16_def fmt_u8_def fmt_i8_def fmt_bool_def fmt_str_def exact_def

lemma format_arg_payload:
  assumes "arg_ok a"
  shows "format_arg sf (type_tag a) spec (payload a @ c) buf = Some (True, c, format_value sf a spec buf)"
proof (cases "\<exists>s. a = Str s")
  case True
  then obtain s where "a = Str s" by blast
  then show ?thesis
    using assms by (simp add: format_arg_def TAG_STR_def fmt_str_def utf8_lossy_valid)
next
  case False
  have n: "FIXED_SIZES ! unat (type_tag a) = encoded_size a" by (rule encoded_size_fixed [OF False])
  have r: "read_bytes (FIXED_SIZES ! unat (type_tag a)) (payload a @ c) = (payload a, c)"
    using n by simp
  have "type_tag a \<noteq> TAG_STR" "unat (type_tag a) < length FIXED_SIZES"
    using False by (cases a; simp add: TAG_STR_def FIXED_SIZES_def)+
  moreover have "(FORMATTERS sf ! unat (type_tag a)) (payload a) spec buf = Some (format_value sf a spec buf)"
    using False by (cases a) (simp_all add: FORMATTERS_def fmt_defs)
  ultimately show ?thesis by (simp add: format_arg_def r)
qed

text \<open>What a format string asks for: literal bytes and argument places.\<close>

function fmt_items :: "bytes \<Rightarrow> (u8 + format_spec) list" where
  "fmt_items [] = []"
| "fmt_items (ch # s) =
     (if ch = LBRACE then
        if starts LBRACE s then Inl LBRACE # fmt_items (tl s)
        else Inr (parse_spec (takeWhile (\<lambda>b. b \<noteq> RBRACE) s)) #
             fmt_items (drop 1 (dropWhile (\<lambda>b. b \<noteq> RBRACE) s))
      else if ch = RBRACE then Inl RBRACE # fmt_items (drop 1 s)
      else Inl ch # fmt_items s)"
  by pat_completeness auto
termination
  by (relation "measure length")
    (auto simp: less_Suc_eq_le intro: le_trans [OF diff_le_self length_dropWhile_le])

fun format_message :: "std_fmt \<Rightarrow> (u8 + format_spec) list \<Rightarrow> arg list \<Rightarrow> bytes \<Rightarrow> bytes option" where
  "format_message sf [] [] buf = Some buf"
| "format_message sf [] (a # as) buf = None"
| "format_message sf (Inl b # is) as buf = format_message sf is as (buf @ [b])"
| "format_message sf (Inr spec # is) [] buf = None"
| "format_message sf (Inr spec # is) (a # as) buf = format_message sf is as (format_value sf a spec buf)"

lemma interleave_items:
  "format_message sf (fmt_items s) as buf = Some line \<Longrightarrow> list_all arg_ok as \<Longrightarrow>
   interleave sf s (map type_tag as) True (concat (map payload as) @ c) buf = Some (c, line)"
proof (induction s arbitrary: as buf rule: fmt_items.induct)
  case 1
  then show ?case by (cases as) auto
next
  case (2 ch s)
  consider "ch = LBRACE" "starts LBRACE s" | "ch = LBRACE" "\<not> starts LBRACE s"
    | "ch = RBRACE" | "ch \<noteq> LBRACE" "ch \<noteq> RBRACE" by blast
  then show ?case
  proof cases
    case 2: 2
    then obtain a as' where "as = a # as'" using "2.prems"(1) by (cases as) auto
    with 2 "2.prems" show ?thesis
      using "2.IH"(2) by (simp add: Let_def format_arg_payload)
  qed (use "2.IH" "2.prems" in auto)
qed

definition places :: "(u8 + format_spec) list \<Rightarrow> nat" where
  "places is = length (filter (\<lambda>x. \<not> isl x) is)"

lemma places_simps [simp]:
  "places [] = 0" "places (Inl b # is) = places is" "places (Inr sp # is) = Suc (places is)"
  by (simp_all add: places_def)

lemma format_message_total:
  "places is = length as \<Longrightarrow> \<exists>line. format_message sf is as buf = Some line"
proof (induction "is" arbitrary: as buf)
  case Nil
  then show ?case by simp
next
  case (Cons i "is")
  show ?case
  proof (cases i)
    case (Inl b)
    then show ?thesis using Cons by simp
  next
    case (Inr sp)
    then obtain a as' where "as = a # as'" using Cons.prems by (cases as) auto
    then show ?thesis using Cons Inr by simp
  qed
qed

text \<open>The validator's count is the number of places the drain will fill.\<close>

lemma validate_loop_places: "validate_loop s n = Inr m \<Longrightarrow> places (fmt_items s) + n = m"
proof (induction s n rule: validate_loop.induct)
  case (1 n)
  then show ?case by simp
next
  case (2 c s n)
  define name where "name = takeWhile (\<lambda>b. b \<noteq> COLON \<and> b \<noteq> RBRACE) s"
  define rest where "rest = dropWhile (\<lambda>b. b \<noteq> COLON \<and> b \<noteq> RBRACE) s"
  consider "c = LBRACE" "starts LBRACE s" | (p) "c = LBRACE" "\<not> starts LBRACE s"
    | "c = RBRACE" | "c \<noteq> LBRACE" "c \<noteq> RBRACE" by blast
  then show ?case
  proof cases
    case p
    from "2.prems" p obtain s2 where
      s2: "(if starts COLON rest then parse_spec_const (tl rest) else Inr rest) = Inr s2"
      and rest: "rest \<noteq> []" and hd: "starts RBRACE s2" and v: "validate_loop (tl s2) (Suc n) = Inr m"
      and dig: "\<not> (name \<noteq> [] \<and> is_all_digits name)"
      by (auto simp: Let_def name_def [symmetric] rest_def [symmetric] starts_def
          split: if_splits sum.splits)
    have IH: "places (fmt_items (tl s2)) + Suc n = m"
      using "2.IH"(2) [OF p name_def rest_def dig rest s2 _ _ v] hd by (auto simp: starts_def)
    have "consumes s rest"
      unfolding consumes_def name_def rest_def
      by (rule exI [of _ "takeWhile (\<lambda>b. b \<noteq> COLON \<and> b \<noteq> RBRACE) s"]) (auto dest: set_takeWhileD)
    moreover have "consumes rest s2"
    proof (cases "starts COLON rest")
      case True
      then have "consumes rest (tl rest)" by (intro consumes_tl) (auto simp: starts_def)
      with True s2 show ?thesis using parse_spec_const_consumes consumes_trans by auto
    qed (use s2 in simp)
    ultimately have "consumes s s2" by (rule consumes_trans)
    then have "s2 = dropWhile (\<lambda>b. b \<noteq> RBRACE) s" using hd by (rule consumes_dropWhile_RBRACE)
    then have "tl s2 = drop 1 (dropWhile (\<lambda>b. b \<noteq> RBRACE) s)" by (simp add: drop_Suc)
    then show ?thesis using p IH by simp
  qed (use "2.IH" "2.prems" in \<open>auto split: if_splits simp: drop_Suc starts_def\<close>)
qed

text \<open>A checked message: every place gets its argument, in order, and nothing is left over.\<close>

lemma checked_message:
  assumes "check_fmt fmt (length as) = Some ()" "list_all arg_ok as"
  obtains line where "format_message sf (fmt_items fmt) as buf = Some line"
    "interleave sf fmt (map type_tag as) True (concat (map payload as) @ c) buf = Some (c, line)"
proof -
  have "validate_loop fmt 0 = Inr (length as)"
    using assms(1) by (auto simp: check_fmt_def validate_fmt_def split: sum.splits if_splits)
  then have "places (fmt_items fmt) = length as" using validate_loop_places by fastforce
  then obtain line where line: "format_message sf (fmt_items fmt) as buf = Some line"
    using format_message_total by blast
  show thesis by (rule that [OF line interleave_items [OF line assms(2)]])
qed

section \<open>Lines\<close>

lemma format_impl_append:
  "format_unsigned_impl v spec buf = buf @ format_unsigned_impl v spec []"
  "format_signed_impl i spec buf = buf @ format_signed_impl i spec []"
  "format_float_impl sf v spec buf = buf @ format_float_impl sf v spec []"
  "format_bool b spec buf = buf @ format_bool b spec []"
  "format_str sf s spec buf = buf @ format_str sf s spec []"
  unfolding format_unsigned_impl_def format_signed_impl_def format_float_impl_def format_bool_def
    format_str_def Let_def by (rule format_with_spec_append)+

lemma format_value_append: "format_value sf a spec buf = buf @ format_value sf a spec []"
  by (cases a; simp only: format_value.simps format_u64_def format_i64_def format_f64_def
      format_u32_def format_i32_def format_f32_def format_u16_def format_i16_def format_u8_def
      format_i8_def; rule format_impl_append)

lemma format_message_append:
  "format_message sf is as buf = map_option (\<lambda>m. buf @ m) (format_message sf is as [])"
proof (induction "is" arbitrary: as buf)
  case Nil
  then show ?case by (cases as) simp_all
next
  case (Cons i "is")
  show ?case
  proof (cases i)
    case (Inl b)
    then show ?thesis
      using Cons [of as "buf @ [b]"] Cons [of as "[b]"] by (simp add: option.map_comp comp_def)
  next
    case (Inr sp)
    show ?thesis
    proof (cases as)
      case (Cons a as')
      then show ?thesis
        using Inr Cons.IH [of as' "format_value sf a sp buf"] Cons.IH [of as' "format_value sf a sp []"]
          format_value_append [of sf a sp buf]
        by (simp add: option.map_comp comp_def)
    qed (simp add: Inr)
  qed
qed

text \<open>The text of one pattern segment, given the formatted message.\<close>

fun segment_text :: "std_fmt \<Rightarrow> line_ctx \<Rightarrow> bytes \<Rightarrow> segment \<Rightarrow> bytes" where
  "segment_text sf x msg (Lit s) = s"
| "segment_text sf x msg (Place Timestamp spec) = format_iso8601 (lc_ns x) (lc_offset x) []"
| "segment_text sf x msg (Place FLevel spec) = format_str sf (as_str (lc_level x)) spec []"
| "segment_text sf x msg (Place File spec) =
     (case lc_file_line x of Some (file, _) \<Rightarrow> format_str sf file spec [] | None \<Rightarrow> [])"
| "segment_text sf x msg (Place Line spec) =
     (case lc_file_line x of Some (_, line) \<Rightarrow> format_u32 line spec [] | None \<Rightarrow> [])"
| "segment_text sf x msg (Place ThreadName spec) =
     (case lc_thread_name x of Some nm \<Rightarrow> format_str sf nm spec [] | None \<Rightarrow> [])"
| "segment_text sf x msg (Place ThreadId spec) =
     bs ''ThreadId('' @ format_u64 (lc_thread_id x) spec [] @ [0x29]"
| "segment_text sf x msg (Place Message spec) = msg"

fun is_message :: "segment \<Rightarrow> bool" where
  "is_message (Place Message spec) = True"
| "is_message _ = False"

lemma render_place_text:
  assumes "field \<noteq> Message"
  shows "render_place sf x field spec c buf = Some (c, buf @ segment_text sf x msg (Place field spec))"
proof -
  have u32: "format_u32 v spec b = b @ format_u32 v spec []" and u64: "format_u64 w spec b = b @ format_u64 w spec []"
    for v w b by (simp_all only: format_u32_def format_u64_def) (rule format_impl_append)+
  have iso: "format_iso8601 n off b = b @ format_iso8601 n off []" for n off b
    by (simp add: format_iso8601_def Let_def split: prod.splits)
  show ?thesis
  proof (cases field)
    case ThreadId
    then show ?thesis
      using u64 [of "lc_thread_id x" "buf @ bs ''ThreadId(''"] by (simp add: render_place_def)
  qed (use assms in \<open>simp_all add: render_place_def split: option.splits prod.splits\<close>,
       (rule iso format_impl_append u32 | (intro allI impI, rule format_impl_append u32))+)
qed

text \<open>A pattern renders segment by segment; only the message reads arguments.\<close>

lemma render_pattern_plain:
  "\<not> list_ex is_message segs \<Longrightarrow>
   render_pattern sf x segs c buf = Some (c, buf @ concat (map (segment_text sf x msg) segs))"
proof (induction segs arbitrary: c buf)
  case (Cons seg segs)
  show ?case
  proof (cases seg)
    case (Place field spec)
    then have "field \<noteq> Message" using Cons.prems by auto
    then show ?thesis
      using Place Cons render_place_text [of field sf x spec c buf msg] by simp
  qed (use Cons in simp)
qed simp

lemma render_pattern_text:
  assumes "length (filter is_message segs) \<le> 1"
    and "\<And>buf. interleave sf (lc_fmt x) (lc_tags x) True c buf = Some (c', buf @ msg)"
  shows "\<exists>c''. render_pattern sf x segs c buf = Some (c'', buf @ concat (map (segment_text sf x msg) segs))"
  using assms(1)
proof (induction segs arbitrary: buf)
  case (Cons seg segs)
  show ?case
  proof (cases "is_message seg")
    case True
    then obtain spec where seg: "seg = Place Message spec" by (cases seg rule: is_message.cases) auto
    have "\<not> list_ex is_message segs" using Cons.prems True by (auto simp: list_ex_iff filter_empty_conv)
    from render_pattern_plain [OF this, of sf x c' _ msg] show ?thesis
      by (simp add: seg render_place_def assms(2))
  next
    case False
    show ?thesis
    proof (cases seg)
      case (Place field spec)
      then have "field \<noteq> Message" using False by auto
      from render_place_text [OF this, of sf x spec c buf msg] show ?thesis
        using Place False Cons.prems Cons.IH [of "buf @ segment_text sf x msg (Place field spec)"]
        by simp
    next
      case (Lit tx)
      then show ?thesis using Cons.prems Cons.IH [of "buf @ tx"] by simp
    qed
  qed
qed simp

text \<open>A parsed pattern names the message at most once.\<close>

lemma template_loop_message:
  "template_loop s lit segs seen = Inr out \<Longrightarrow>
   length (filter is_message segs) \<le> (if seen then 1 else 0) \<Longrightarrow> length (filter is_message out) \<le> 1"
proof (induction s lit segs seen rule: template_loop.induct)
  case (1 lit segs seen)
  then show ?case by (auto simp: flush_lit_def split: if_splits)
next
  case (2 c s lit segs seen)
  define name where "name = takeWhile (\<lambda>b. b \<noteq> COLON \<and> b \<noteq> RBRACE) s"
  define rest where "rest = dropWhile (\<lambda>b. b \<noteq> COLON \<and> b \<noteq> RBRACE) s"
  have fl: "filter is_message (flush_lit l) = []" for l by (simp add: flush_lit_def)
  consider "c = LBRACE" "starts LBRACE s" | (p) "c = LBRACE" "\<not> starts LBRACE s"
    | "c = RBRACE" | "c \<noteq> LBRACE" "c \<noteq> RBRACE" by blast
  then show ?case
  proof cases
    case p
    note unf = template_loop.simps(2) [of c s lit segs seen, unfolded name_def [symmetric] rest_def [symmetric] Let_def]
    from "2.prems"(1) p obtain f where rest: "rest \<noteq> []" and nm: "\<not> (name \<noteq> [] \<and> is_all_digits name)"
        "name \<noteq> []" and f: "field_from_str name = Some f" and m: "\<not> (f = Message \<and> seen)"
        "\<not> (f = Message \<and> starts COLON rest)" "\<not> (f = Timestamp \<and> starts COLON rest)"
      unfolding unf by (auto split: if_splits option.splits)
    have cnt: "length (filter is_message ((segs @ flush_lit lit) @ [Place f sp])) \<le> (if seen \<or> f = Message then 1 else 0)"
      for sp using "2.prems"(2) m(1) fl by (cases f) (auto split: if_splits)
    show ?thesis
    proof (cases "starts COLON rest")
      case True
      define body where "body = takeWhile (\<lambda>b. b \<noteq> RBRACE) (tl rest)"
      define rest2 where "rest2 = dropWhile (\<lambda>b. b \<noteq> RBRACE) (tl rest)"
      have v: "rest2 \<noteq> []" "validate_spec_rt body = Inr ()"
        and t: "template_loop (tl rest2) [] ((segs @ flush_lit lit) @ [Place f (parse_spec_body body)])
          (seen \<or> f = Message) = Inr out"
        using "2.prems"(1) p rest nm f m True unfolding unf body_def rest2_def
        by (auto split: if_splits sum.splits)
      show ?thesis
        by (rule "2.IH"(2) [OF p refl name_def rest_def rest nm(1) nm(2) f m refl True body_def rest2_def v t cnt])
    next
      case False
      then have t: "template_loop (tl rest) [] ((segs @ flush_lit lit) @ [Place f default_spec])
          (seen \<or> f = Message) = Inr out"
        using "2.prems"(1) p rest nm f m unfolding unf by (auto split: if_splits)
      show ?thesis
        by (rule "2.IH"(3) [OF p refl name_def rest_def rest nm(1) nm(2) f m refl False t cnt])
    qed
  qed (use "2.IH" "2.prems" fl in \<open>auto split: if_splits\<close>)
qed


text \<open>The line a record stands for.\<close>

definition site_ctx ::
  "level \<Rightarrow> u64 \<Rightarrow> site \<Rightarrow> arg list \<Rightarrow> 32 word \<Rightarrow> calibration \<Rightarrow> u64 \<Rightarrow> bytes \<Rightarrow> line_ctx" where
  "site_ctx l ts st as off calib tid nm =
     \<lparr>lc_ns = ticks_to_ns ts calib, lc_offset = off, lc_level = l, lc_fmt = site_fmt st,
      lc_file_line = Some (site_file st, site_line st), lc_thread_id = tid,
      lc_thread_name = Some nm, lc_tags = map type_tag as\<rparr>"

lemma decode_wire_record_render:
  assumes "env_sites e p = Some st" "length as \<le> 255"
  shows "decode_and_format e (wire_record l ts p as) off calib segs tid nm buf =
    map_option snd (render_pattern (env_fmt e) (site_ctx l ts st as off calib tid nm) segs
      (concat (map payload as)) buf)"
proof -
  define tot where "tot = (word_of_nat (BASE_RECORD_SIZE + length as + args_size as) :: u16)"
  have n: "unat (word_of_nat (length as) :: u8) = length as" using assms(2) by (simp add: unat_of_nat)
  have w: "cursor_new (wire_record l ts p as) 0 (length (wire_record l ts p as)) =
      ([VERSION, LOG_RECORD] @ u16_to_le tot) @ to_u8 l # u16_to_le FLAG_SITE @ [0] @ u64_to_le ts @
      u64_to_le p @ word_of_nat (length as) # map type_tag as @ concat (map payload as)"
    unfolding cursor_new_def wire_record_def header_fields_def args_bytes_def tot_def [symmetric]
    by (simp add: slice_def)
  have flags: "FLAG_SITE AND FLAG_SITE \<noteq> 0" "FLAG_SITE \<noteq> 0" "FLAG_SITE AND FLAG_SOURCE = 0" "FLAG_SITE AND FLAG_THREAD = 0"
    "FLAG_SITE AND FLAG_PROCESS = 0" "FLAG_SITE AND FLAG_COMPLEX = 0"
    by (simp_all add: FLAG_SITE_def FLAG_SOURCE_def FLAG_THREAD_def FLAG_PROCESS_def FLAG_COMPLEX_def)
  have sk: "skip_bytes 4 (([VERSION, LOG_RECORD] @ u16_to_le tot) @ c) = c" for c
    by (rule skip_bytes_append) simp
  show ?thesis
    unfolding decode_and_format_def w sk
    by (simp add: Let_def read_site_def read_source_def read_thread_def flags assms(1) site_ctx_def
        n skip_bytes_append [of "[0]" 1, simplified])
qed

lemma decode_wire_record:
  assumes "env_sites e p = Some st" "check_fmt (site_fmt st) (length as) = Some ()"
    "list_all arg_ok as" "length as \<le> 255" "template_parse pat = Inr segs"
  shows "\<exists>msg. format_message (env_fmt e) (fmt_items (site_fmt st)) as [] = Some msg \<and>
    decode_and_format e (wire_record l ts p as) off calib segs tid nm buf =
      Some (buf @ concat (map (segment_text (env_fmt e) (site_ctx l ts st as off calib tid nm) msg) segs))"
proof -
  let ?x = "site_ctx l ts st as off calib tid nm"
  obtain msg where msg: "format_message (env_fmt e) (fmt_items (site_fmt st)) as [] = Some msg"
    using checked_message [OF assms(2,3)] by metis
  have il: "interleave (env_fmt e) (lc_fmt ?x) (lc_tags ?x) True (concat (map payload as)) b = Some ([], b @ msg)" for b
  proof -
    obtain line where l: "format_message (env_fmt e) (fmt_items (site_fmt st)) as b = Some line"
      "interleave (env_fmt e) (site_fmt st) (map type_tag as) True (concat (map payload as) @ []) b = Some ([], line)"
      using checked_message [OF assms(2,3)] by metis
    moreover have "line = b @ msg" using l(1) format_message_append [of _ _ _ b] msg by simp
    ultimately show ?thesis by (simp add: site_ctx_def)
  qed
  have "length (filter is_message segs) \<le> 1"
    using assms(5) template_loop_message [of pat "[]" "[]" False segs] by (simp add: template_parse_def)
  from render_pattern_text [OF this, of "env_fmt e" ?x, OF il] obtain c' where
    "render_pattern (env_fmt e) ?x segs (concat (map payload as)) buf =
      Some (c', buf @ concat (map (segment_text (env_fmt e) ?x msg) segs))" by blast
  then show ?thesis
    using msg decode_wire_record_render [OF assms(1,4)] by simp
qed

end
