(* ===== verification/Sink.thy ===== *)
theory Sink
  imports Decode
begin

text \<open>
  The sinks (\<open>src/src/sink/\<close>): the \<open>LogSink\<close> trait as operations on a datatype of the
  sinks the crate provides, \<open>RawLogSink\<close>, the level adapter, the fan-out and the test sink
  with its handle. Writers and streams are I/O: \<open>io_ops\<close> are their operations on a world
  \<open>'w\<close>. An \<open>io::Error\<close> is its message. Diagnostics printed to the process's own stderr
  (\<open>eprintln!\<close>) are not part of the model.
\<close>

type_synonym io_error = bytes

datatype stream = Stdout | Stderr

datatype target = Stream stream | Handle nat

text \<open>\<open>io_write t s w\<close> is \<open>write_all\<close>: \<open>Some (e, n)\<close> is an error after \<open>n\<close> bytes.\<close>

record 'w io_ops =
  io_write :: "target \<Rightarrow> bytes \<Rightarrow> 'w \<Rightarrow> 'w \<times> (io_error \<times> nat) option"
  io_flush :: "target \<Rightarrow> 'w \<Rightarrow> 'w \<times> io_error option"
  io_is_terminal :: "stream \<Rightarrow> bool"

section \<open>The in-memory sink\<close>

datatype overflow = Unbounded | DropNewest | DropOldest

record captured_record =
  cr_level :: level
  cr_bytes :: bytes

definition le_u16 :: "bytes \<Rightarrow> nat \<Rightarrow> u16" where
  "le_u16 xs offset = (if offset + 2 \<le> length xs then u16_of_le (take 2 (drop offset xs)) else 0)"

definition le_u64 :: "bytes \<Rightarrow> nat \<Rightarrow> u64" where
  "le_u64 xs offset = (if offset + 8 \<le> length xs then u64_of_le (take 8 (drop offset xs)) else 0)"

definition cr_total_size :: "captured_record \<Rightarrow> u16" where
  "cr_total_size r = le_u16 (cr_bytes r) 2"

definition cr_flags :: "captured_record \<Rightarrow> u16" where
  "cr_flags r = le_u16 (cr_bytes r) 5"

definition cr_timestamp_ticks :: "captured_record \<Rightarrow> u64" where
  "cr_timestamp_ticks r = le_u64 (cr_bytes r) 8"

record mem_state =
  ms_records :: "captured_record list"
  ms_lines :: "(bytes \<times> level) list"
  ms_dropped_records :: u64
  ms_dropped_lines :: u64
  ms_capacity :: nat
  ms_overflow :: overflow

definition mem_with_capacity :: "nat \<Rightarrow> overflow \<Rightarrow> mem_state" where
  "mem_with_capacity capacity overflow =
     \<lparr>ms_records = [], ms_lines = [], ms_dropped_records = 0, ms_dropped_lines = 0,
      ms_capacity = capacity, ms_overflow = overflow\<rparr>"

definition mem_new :: mem_state where
  "mem_new = mem_with_capacity (2 ^ 64 - 1) Unbounded"

definition mem_bounded :: "nat \<Rightarrow> overflow \<Rightarrow> mem_state option" where
  "mem_bounded capacity overflow =
     (if 0 < capacity then Some (mem_with_capacity capacity overflow) else None)"

definition push_record :: "bytes \<Rightarrow> level \<Rightarrow> mem_state \<Rightarrow> mem_state" where
  "push_record r level st =
    (let c = \<lparr>cr_level = level, cr_bytes = r\<rparr> in
     if ms_overflow st \<noteq> Unbounded \<and> ms_capacity st \<le> length (ms_records st) then
       if ms_overflow st = DropNewest
       then st\<lparr>ms_dropped_records := ms_dropped_records st + 1\<rparr>
       else st\<lparr>ms_records := tl (ms_records st) @ [c], ms_dropped_records := ms_dropped_records st + 1\<rparr>
     else st\<lparr>ms_records := ms_records st @ [c]\<rparr>)"

definition push_line :: "bytes \<Rightarrow> level \<Rightarrow> mem_state \<Rightarrow> mem_state" where
  "push_line line level st =
    (if ms_overflow st \<noteq> Unbounded \<and> ms_capacity st \<le> length (ms_lines st) then
       if ms_overflow st = DropNewest
       then st\<lparr>ms_dropped_lines := ms_dropped_lines st + 1\<rparr>
       else st\<lparr>ms_lines := tl (ms_lines st) @ [(line, level)], ms_dropped_lines := ms_dropped_lines st + 1\<rparr>
     else st\<lparr>ms_lines := ms_lines st @ [(line, level)]\<rparr>)"

text \<open>The handle's views and its one mutation.\<close>

definition records_len :: "mem_state \<Rightarrow> nat" where "records_len st = length (ms_records st)"
definition lines_len :: "mem_state \<Rightarrow> nat" where "lines_len st = length (ms_lines st)"
definition mem_is_empty :: "mem_state \<Rightarrow> bool" where
  "mem_is_empty st \<longleftrightarrow> ms_records st = [] \<and> ms_lines st = []"
definition mem_levels :: "mem_state \<Rightarrow> level list" where "mem_levels st = map cr_level (ms_records st)"
definition line_strings :: "mem_state \<Rightarrow> bytes list" where
  "line_strings st = map (\<lambda>(l, _). utf8_lossy l) (ms_lines st)"
definition mem_clear :: "mem_state \<Rightarrow> mem_state" where
  "mem_clear st = st\<lparr>ms_records := [], ms_lines := [], ms_dropped_records := 0, ms_dropped_lines := 0\<rparr>"

section \<open>The console sink\<close>

datatype color_mode = Auto | Always | Never

definition ESC :: u8 where "ESC = 0x1B"
definition NL :: u8 where "NL = 0x0A"
definition RESET :: bytes where "RESET = ESC # bs ''[0m''"

fun color_code :: "level \<Rightarrow> bytes" where
  "color_code Error = ESC # bs ''[91m''"
| "color_code Warn = ESC # bs ''[33m''"
| "color_code Info = ESC # bs ''[32m''"
| "color_code Debug = ESC # bs ''[36m''"
| "color_code Trace = ESC # bs ''[90m''"

fun resolve :: "'w io_ops \<Rightarrow> color_mode \<Rightarrow> stream \<Rightarrow> bool" where
  "resolve io Always st = True"
| "resolve io Never st = False"
| "resolve io Auto st = io_is_terminal io st"

definition render :: "bytes \<Rightarrow> level \<Rightarrow> bool \<Rightarrow> bytes" where
  "render line level color =
     (if color then color_code level @ line @ RESET else line) @ [NL]"

record console =
  co_stream :: stream
  co_mode :: color_mode
  co_use_color :: bool
  co_buf :: bytes

definition with_stream :: "'w io_ops \<Rightarrow> stream \<Rightarrow> console" where
  "with_stream io st = \<lparr>co_stream = st, co_mode = Auto, co_use_color = resolve io Auto st, co_buf = []\<rparr>"

definition with_color :: "'w io_ops \<Rightarrow> color_mode \<Rightarrow> console \<Rightarrow> console" where
  "with_color io mode c = c\<lparr>co_mode := mode, co_use_color := resolve io mode (co_stream c)\<rparr>"

section \<open>The buffered writer behind a file\<close>

definition FILE_BUF_CAPACITY :: nat where "FILE_BUF_CAPACITY = 64 * 1024"

text \<open>\<open>BufWriter\<close>: what is not written yet, and \<open>flush_buf\<close>, which keeps what an error left.\<close>

definition buf_flush :: "'w io_ops \<Rightarrow> target \<Rightarrow> bytes \<Rightarrow> 'w \<Rightarrow> bytes \<times> 'w \<times> io_error option" where
  "buf_flush io t buf w =
     (if buf = [] then ([], w, None)
      else case io_write io t buf w of
             (w', None) \<Rightarrow> ([], w', None)
           | (w', Some (e, n)) \<Rightarrow> (drop n buf, w', Some e))"

definition buf_write_all ::
  "'w io_ops \<Rightarrow> target \<Rightarrow> nat \<Rightarrow> bytes \<Rightarrow> bytes \<Rightarrow> 'w \<Rightarrow> bytes \<times> 'w \<times> io_error option"
where
  "buf_write_all io t capacity s buf w =
     (if length s < capacity - length buf then (buf @ s, w, None)
      else case (if capacity - length buf < length s then buf_flush io t buf w else (buf, w, None)) of
             (buf', w', Some e) \<Rightarrow> (buf', w', Some e)
           | (buf', w', None) \<Rightarrow>
               if capacity \<le> length s
               then (case io_write io t s w' of (w'', r) \<Rightarrow> (buf', w'', map_option fst r))
               else (buf' @ s, w', None))"

section \<open>The sinks\<close>

datatype sink =
    NullSink
  | InMemorySink mem_state
  | WriterSink target
  | FileSink target bytes
  | ConsoleSink console
  | WithLevel sink level
  | FanOut "sink list"

fun max_level :: "sink \<Rightarrow> level" where
  "max_level (WithLevel s level) = level"
| "max_level _ = Trace"

text \<open>\<open>?\<close> on the first of two writes returns its error.\<close>

definition write_line :: "'w io_ops \<Rightarrow> target \<Rightarrow> bytes \<Rightarrow> 'w \<Rightarrow> 'w \<times> io_error option" where
  "write_line io t line w =
     (case io_write io t line w of
        (w', Some (e, n)) \<Rightarrow> (w', Some e)
      | (w', None) \<Rightarrow> (case io_write io t [NL] w' of (w'', r) \<Rightarrow> (w'', map_option fst r)))"

definition buf_line ::
  "'w io_ops \<Rightarrow> target \<Rightarrow> bytes \<Rightarrow> bytes \<Rightarrow> 'w \<Rightarrow> bytes \<times> 'w \<times> io_error option" where
  "buf_line io t line buf w =
     (case buf_write_all io t FILE_BUF_CAPACITY line buf w of
        (buf', w', Some e) \<Rightarrow> (buf', w', Some e)
      | (buf', w', None) \<Rightarrow> buf_write_all io t FILE_BUF_CAPACITY [NL] buf' w')"

definition console_accept ::
  "'w io_ops \<Rightarrow> bytes \<Rightarrow> level \<Rightarrow> console \<Rightarrow> 'w \<Rightarrow> console \<times> 'w \<times> io_error option" where
  "console_accept io line l c w =
    (let out = render line l (co_use_color c) in
     case io_write io (Stream (co_stream c)) out w of
       (w', r) \<Rightarrow> (c\<lparr>co_buf := out\<rparr>, w', map_option fst r))"

fun accept :: "'w io_ops \<Rightarrow> bytes \<Rightarrow> level \<Rightarrow> sink \<Rightarrow> 'w \<Rightarrow> sink \<times> 'w \<times> io_error option"
and fan_accept :: "'w io_ops \<Rightarrow> bytes \<Rightarrow> level \<Rightarrow> sink list \<Rightarrow> 'w \<Rightarrow> sink list \<times> 'w" where
  "accept io line l NullSink w = (NullSink, w, None)"
| "accept io line l (InMemorySink st) w = (InMemorySink (push_line line l st), w, None)"
| "accept io line l (WriterSink t) w =
     (case write_line io t line w of (w', r) \<Rightarrow> (WriterSink t, w', r))"
| "accept io line l (FileSink t buf) w =
     (case buf_line io t line buf w of (buf', w', r) \<Rightarrow> (FileSink t buf', w', r))"
| "accept io line l (ConsoleSink c) w =
     (case console_accept io line l c w of (c', w', r) \<Rightarrow> (ConsoleSink c', w', r))"
| "accept io line l (WithLevel s lv) w =
     (case accept io line l s w of (s', w', r) \<Rightarrow> (WithLevel s' lv, w', r))"
| "accept io line l (FanOut es) w =
     (case fan_accept io line l es w of (es', w') \<Rightarrow> (FanOut es', w', None))"
| "fan_accept io line l [] w = ([], w)"
| "fan_accept io line l (e # es) w =
     (case (if l \<le> max_level e then accept io line l e w else (e, w, None)) of
        (e', w', r) \<Rightarrow> (case fan_accept io line l es w' of (es', w'') \<Rightarrow> (e' # es', w'')))"

definition file_flush :: "'w io_ops \<Rightarrow> target \<Rightarrow> bytes \<Rightarrow> 'w \<Rightarrow> bytes \<times> 'w \<times> io_error option" where
  "file_flush io t buf w =
     (case buf_flush io t buf w of
        (buf', w', Some e) \<Rightarrow> (buf', w', Some e)
      | (buf', w', None) \<Rightarrow> (case io_flush io t w' of (w'', r) \<Rightarrow> (buf', w'', r)))"

fun sink_flush :: "'w io_ops \<Rightarrow> sink \<Rightarrow> 'w \<Rightarrow> sink \<times> 'w \<times> io_error option"
and fan_flush :: "'w io_ops \<Rightarrow> sink list \<Rightarrow> 'w \<Rightarrow> sink list \<times> 'w" where
  "sink_flush io NullSink w = (NullSink, w, None)"
| "sink_flush io (InMemorySink st) w = (InMemorySink st, w, None)"
| "sink_flush io (WriterSink t) w = (case io_flush io t w of (w', r) \<Rightarrow> (WriterSink t, w', r))"
| "sink_flush io (FileSink t buf) w =
     (case file_flush io t buf w of (buf', w', r) \<Rightarrow> (FileSink t buf', w', r))"
| "sink_flush io (ConsoleSink c) w =
     (case io_flush io (Stream (co_stream c)) w of (w', r) \<Rightarrow> (ConsoleSink c, w', r))"
| "sink_flush io (WithLevel s lv) w =
     (case sink_flush io s w of (s', w', r) \<Rightarrow> (WithLevel s' lv, w', r))"
| "sink_flush io (FanOut es) w = (case fan_flush io es w of (es', w') \<Rightarrow> (FanOut es', w', None))"
| "fan_flush io [] w = ([], w)"
| "fan_flush io (e # es) w =
     (case sink_flush io e w of (e', w', r) \<Rightarrow>
       (case fan_flush io es w' of (es', w'') \<Rightarrow> (e' # es', w'')))"

text \<open>\<open>raw_sink().is_some()\<close>, and \<open>accept_raw\<close> on the sink it returns: \<open>None\<close> is the
  failing \<open>expect\<close> of a caller that did not probe.\<close>

fun raw_sink :: "sink \<Rightarrow> bool" where
  "raw_sink NullSink = True"
| "raw_sink (InMemorySink st) = True"
| "raw_sink (WithLevel s lv) = raw_sink s"
| "raw_sink _ = False"

fun accept_raw :: "bytes \<Rightarrow> level \<Rightarrow> sink \<Rightarrow> (sink \<times> io_error option) option" where
  "accept_raw r l NullSink = Some (NullSink, None)"
| "accept_raw r l (InMemorySink st) = Some (InMemorySink (push_record r l st), None)"
| "accept_raw r l (WithLevel s lv) =
     map_option (\<lambda>(s', e). (WithLevel s' lv, e)) (accept_raw r l s)"
| "accept_raw r l _ = None"

section \<open>Building sinks\<close>

definition with_max_level :: "level \<Rightarrow> sink \<Rightarrow> sink" where
  "with_max_level level s = WithLevel s level"

definition fan_new :: sink where "fan_new = FanOut []"

fun fan_add :: "sink \<Rightarrow> sink \<Rightarrow> sink" where
  "fan_add s (FanOut es) = FanOut (es @ [s])"
| "fan_add s f = f"

section \<open>Levels and streams of lines\<close>

lemma max_level_accept [simp]: "max_level (fst (accept io line l s w)) = max_level s"
  by (cases s) (auto split: prod.splits simp: Let_def)

lemma fan_accept_length [simp]: "length (fst (fan_accept io line l es w)) = length es"
  by (induction es arbitrary: w) (simp_all add: case_prod_unfold)

text \<open>Feeding lines one after another; errors do not stop the stream.\<close>

fun accept_lines :: "'w io_ops \<Rightarrow> (bytes \<times> level) list \<Rightarrow> sink \<Rightarrow> 'w \<Rightarrow> sink \<times> 'w \<times> io_error list" where
  "accept_lines io [] s w = (s, w, [])"
| "accept_lines io ((line, l) # xs) s w =
     (case accept io line l s w of (s', w', r) \<Rightarrow>
       (case accept_lines io xs s' w' of (s'', w'', es) \<Rightarrow>
         (s'', w'', (case r of None \<Rightarrow> es | Some e \<Rightarrow> e # es))))"

definition push_lines_mem :: "(bytes \<times> level) list \<Rightarrow> mem_state \<Rightarrow> mem_state" where
  "push_lines_mem xs st = foldl (\<lambda>st (line, l). push_line line l st) st xs"

lemma fan_accept_mem:
  assumes "i < length es" "es ! i = WithLevel (InMemorySink st) lv"
  shows "fst (fan_accept io line l es w) ! i =
    WithLevel (InMemorySink (if l \<le> lv then push_line line l st else st)) lv"
  using assms
proof (induction es arbitrary: i w)
  case (Cons e es)
  then show ?case by (cases i) (auto simp: case_prod_unfold)
qed simp

lemma fan_lines_mem:
  assumes "i < length es" "es ! i = WithLevel (InMemorySink st) lv"
  shows "\<exists>es'. fst (accept_lines io xs (FanOut es) w) = FanOut es' \<and> i < length es' \<and>
    es' ! i = WithLevel (InMemorySink (push_lines_mem (filter (\<lambda>(line, l). l \<le> lv) xs) st)) lv"
  using assms
proof (induction xs arbitrary: es w st)
  case (Cons x xs)
  obtain line l where x: "x = (line, l)" by (cases x)
  obtain es1 w1 where f: "fan_accept io line l es w = (es1, w1)" by fastforce
  have "i < length es1" "es1 ! i = WithLevel (InMemorySink (if l \<le> lv then push_line line l st else st)) lv"
    using fan_accept_length [of io line l es w] fan_accept_mem [OF Cons.prems, of io line l w] Cons.prems(1) f
    by simp_all
  from Cons.IH [OF this, of w1] show ?case
    by (auto simp: x f push_lines_mem_def case_prod_unfold)
qed (simp add: push_lines_mem_def)

text \<open>What a bounded store keeps of a sequence.\<close>

definition kept :: "overflow \<Rightarrow> nat \<Rightarrow> 'a list \<Rightarrow> 'a list" where
  "kept ov cap xs =
     (case ov of Unbounded \<Rightarrow> xs | DropNewest \<Rightarrow> take cap xs | DropOldest \<Rightarrow> drop (length xs - cap) xs)"

lemma kept_snoc:
  assumes "0 < cap"
  shows "kept ov cap (xs @ [x]) =
    (if ov \<noteq> Unbounded \<and> cap \<le> length (kept ov cap xs) then
       if ov = DropNewest then kept ov cap xs else tl (kept ov cap xs) @ [x]
     else kept ov cap xs @ [x])"
  using assms by (cases ov) (auto simp: kept_def tl_drop [symmetric] drop_Suc Suc_diff_le)

definition lost :: "overflow \<Rightarrow> nat \<Rightarrow> 'a list \<Rightarrow> nat" where
  "lost ov cap xs = length xs - length (kept ov cap xs)"

lemma lost_snoc:
  assumes "0 < cap"
  shows "lost ov cap (xs @ [x]) =
    (if ov \<noteq> Unbounded \<and> cap \<le> length (kept ov cap xs) then Suc (lost ov cap xs) else lost ov cap xs)"
  using assms by (cases ov) (auto simp: lost_def kept_def)

section \<open>Sinks that write lines to a target\<close>

text \<open>The sinks that write plain lines to \<open>t\<close>, and the bytes they hold back.\<close>

fun writes_to :: "target \<Rightarrow> sink \<Rightarrow> bool" where
  "writes_to t (WriterSink u) \<longleftrightarrow> u = t"
| "writes_to t (FileSink u buf) \<longleftrightarrow> u = t"
| "writes_to t (ConsoleSink c) \<longleftrightarrow> Stream (co_stream c) = t \<and> \<not> co_use_color c"
| "writes_to t _ \<longleftrightarrow> False"

fun pending :: "sink \<Rightarrow> bytes" where
  "pending (FileSink u buf) = buf"
| "pending _ = []"

text \<open>What the sinks need of a writer: a successful write appends, a flush adds nothing.\<close>

locale append_io =
  fixes io :: "'w io_ops" and content :: "target \<Rightarrow> 'w \<Rightarrow> bytes"
  assumes write_appends: "io_write io t s w = (w', None) \<Longrightarrow> content t w' = content t w @ s"
    and flush_keeps: "io_flush io t w = (w', r) \<Longrightarrow> content t w' = content t w"
begin

lemma write_line_appends:
  "write_line io t line w = (w', None) \<Longrightarrow> content t w' = content t w @ line @ [NL]"
  by (auto simp: write_line_def split: prod.splits option.splits dest!: write_appends)

lemma buf_flush_appends:
  "buf_flush io t buf w = (buf', w', None) \<Longrightarrow> buf' = [] \<and> content t w' = content t w @ buf"
  by (auto simp: buf_flush_def split: prod.splits option.splits if_splits dest!: write_appends)

lemma buf_write_all_appends:
  assumes "buf_write_all io t cap s buf w = (buf', w', None)"
  shows "content t w' @ buf' = content t w @ buf @ s"
proof (cases "length s < cap - length buf")
  case True
  then show ?thesis using assms by (auto simp: buf_write_all_def)
next
  case small: False
  obtain buf1 w1 where f: "(if cap - length buf < length s then buf_flush io t buf w else (buf, w, None)) = (buf1, w1, None)"
    and r: "(if cap \<le> length s then (case io_write io t s w1 of (w'', r) \<Rightarrow> (buf1, w'', map_option fst r))
      else (buf1 @ s, w1, None)) = (buf', w', None)"
    using assms small by (auto simp: buf_write_all_def split: prod.splits option.splits if_splits)
  have 1: "content t w1 @ buf1 = content t w @ buf" and e: "cap \<le> length s \<Longrightarrow> buf1 = [] \<or> s = []"
  proof -
    show "content t w1 @ buf1 = content t w @ buf" using f by (auto split: if_splits dest!: buf_flush_appends)
    show "buf1 = [] \<or> s = []" if "cap \<le> length s"
    proof (cases "cap - length buf < length s")
      case True
      then show ?thesis using f by (auto dest!: buf_flush_appends)
    next
      case False
      then have "length s = cap - length buf1" using f small by auto
      then have "length s = 0 \<or> length buf1 = 0" using that by linarith
      then show ?thesis by auto
    qed
  qed
  show ?thesis
    using r 1 e by (auto split: if_splits prod.splits dest!: write_appends)
qed

lemma buf_line_appends:
  "buf_line io t line buf w = (buf', w', None) \<Longrightarrow> content t w' @ buf' = content t w @ buf @ line @ [NL]"
  by (auto simp: buf_line_def split: prod.splits option.splits dest!: buf_write_all_appends)

lemma accept_appends:
  assumes "writes_to t s" "accept io line l s w = (s', w', None)"
  shows "writes_to t s' \<and> content t w' @ pending s' = content t w @ pending s @ line @ [NL]"
  using assms
  by (cases s) (auto simp: console_accept_def Let_def render_def split: prod.splits
      dest!: write_line_appends buf_line_appends write_appends)

lemma accept_lines_appends:
  assumes "writes_to t s" "accept_lines io xs s w = (s', w', [])"
  shows "writes_to t s' \<and> content t w' @ pending s' =
    content t w @ pending s @ concat (map (\<lambda>(line, l). line @ [NL]) xs)"
  using assms
proof (induction xs arbitrary: s w)
  case (Cons x xs)
  obtain line l where x: "x = (line, l)" by (cases x)
  obtain s1 w1 r where a: "accept io line l s w = (s1, w1, r)" by (metis prod_cases3)
  have r: "r = None" and rest: "accept_lines io xs s1 w1 = (s', w', [])"
    using Cons.prems(2) by (auto simp: x a split: prod.splits option.splits)
  show ?case using Cons.IH [OF _ rest] accept_appends [OF Cons.prems(1)] a r by (simp add: x)
qed simp

lemma flush_appends:
  "writes_to t s \<Longrightarrow> sink_flush io s w = (s', w', None) \<Longrightarrow> content t w' = content t w @ pending s"
  by (cases s) (auto simp: file_flush_def split: prod.splits option.splits dest!: buf_flush_appends flush_keeps)

end

text \<open>A disk: contents per target, and room for a number of bytes.\<close>

record disk =
  disk_content :: "target \<Rightarrow> bytes"
  disk_free :: nat

definition disk_write :: "target \<Rightarrow> bytes \<Rightarrow> disk \<Rightarrow> disk \<times> (io_error \<times> nat) option" where
  "disk_write t s d =
    (let n = min (length s) (disk_free d);
         d' = d\<lparr>disk_content := (disk_content d)(t := disk_content d t @ take n s), disk_free := disk_free d - n\<rparr>
     in (d', if n = length s then None else Some (bs ''no space left on device'', n)))"

definition disk_io :: "disk io_ops" where
  "disk_io = \<lparr>io_write = disk_write, io_flush = (\<lambda>t d. (d, None)), io_is_terminal = (\<lambda>st. False)\<rparr>"

interpretation disk: append_io disk_io "\<lambda>t d. disk_content d t"
  by unfold_locales (auto simp: disk_io_def disk_write_def Let_def split: if_splits)

end
