(* ===== verification/Ring.thy ===== *)
theory Ring
  imports Wire_Record
begin

text \<open>
  The crate-local single-producer, single-consumer ring (\<open>src/src/ring.rs\<close>, module
  \<open>custom\<close>). The record holds the control fields of both cache lines, the registration
  and segment flags, and the storage as a list of bytes; positions are free-running
  \<open>u64\<close> values, offsets are \<open>position & mask\<close>. The cargo features
  \<open>fast-tail-cache\<close> and \<open>watermark-head\<close> are an argument. What the producer reads
  from the drain while it spins is a list of observations.
\<close>

datatype backpressure = Drop | Block | NanoLog | Quill

record features =
  fast_tail_cache :: bool
  watermark_head :: bool

definition default_features :: features where
  "default_features = \<lparr>fast_tail_cache = False, watermark_head = False\<rparr>"

definition DEFAULT_RING_SIZE :: nat where "DEFAULT_RING_SIZE = 1048576"
definition CACHE_LINE_SIZE :: nat where "CACHE_LINE_SIZE = 64"
definition SLOT_SIZE :: nat where "SLOT_SIZE = CACHE_LINE_SIZE"
definition WATERMARK_HEAD_RECORDS :: u64 where "WATERMARK_HEAD_RECORDS = 1000"

record reservation =
  res_ptr :: nat
  res_head :: u64

definition align_up :: "u64 \<Rightarrow> u64 \<Rightarrow> u64" where
  "align_up n align = (n + (align - 1)) AND NOT (align - 1)"

record ring =
  rb_head :: u64
  rb_tail_cache :: u64
  rb_local_head :: u64
  rb_since_watermark :: u64
  rb_tail :: u64
  rb_head_cache :: u64
  rb_live :: bool
  rb_thread_id :: u64
  rb_thread_name :: bytes
  rb_capacity :: nat
  rb_mask :: u64
  rb_data :: bytes
  rb_serial :: u64
  rb_helper_reserved :: bool
  rb_draining :: bool
  rb_recyclable :: bool
  rb_recycled :: bool
  rb_handed_off :: bool

fun is_power_of_two :: "nat \<Rightarrow> bool" where
  "is_power_of_two n = (if n = 0 then False else n = 1 \<or> (even n \<and> is_power_of_two (n div 2)))"

declare is_power_of_two.simps [simp del]

definition from_storage :: "bytes \<Rightarrow> nat \<Rightarrow> bool \<Rightarrow> ring" where
  "from_storage data capacity recyclable =
     \<lparr>rb_head = 0, rb_tail_cache = 0, rb_local_head = 0, rb_since_watermark = 0,
      rb_tail = 0, rb_head_cache = 0, rb_live = True,
      rb_thread_id = 0, rb_thread_name = [],
      rb_capacity = capacity, rb_mask = word_of_nat (capacity - 1), rb_data = data,
      rb_serial = 0, rb_helper_reserved = False, rb_draining = False,
      rb_recyclable = recyclable, rb_recycled = False, rb_handed_off = False\<rparr>"

text \<open>Both constructors assert the capacity and hand out zeroed storage.\<close>

definition with_capacity :: "nat \<Rightarrow> ring option" where
  "with_capacity capacity =
     (if is_power_of_two capacity \<and> SLOT_SIZE \<le> capacity
      then Some (from_storage (replicate capacity 0) capacity False) else None)"

definition with_capacity_arena :: "nat \<Rightarrow> bool \<Rightarrow> ring option" where
  "with_capacity_arena capacity recyclable =
     (if is_power_of_two capacity \<and> SLOT_SIZE \<le> capacity
      then Some (from_storage (replicate capacity 0) capacity recyclable) else None)"

section \<open>Control flags\<close>

definition set_serial :: "u64 \<Rightarrow> ring \<Rightarrow> ring" where
  "set_serial serial r = r\<lparr>rb_serial := serial\<rparr>"

definition set_thread_info :: "u64 \<Rightarrow> bytes \<Rightarrow> ring \<Rightarrow> ring" where
  "set_thread_info tid nm r = r\<lparr>rb_thread_id := tid, rb_thread_name := nm\<rparr>"

definition set_dead :: "ring \<Rightarrow> ring" where
  "set_dead r = r\<lparr>rb_live := False\<rparr>"

definition reserve_for_helper :: "ring \<Rightarrow> ring" where
  "reserve_for_helper r = r\<lparr>rb_helper_reserved := True\<rparr>"

definition clear_helper_reservation :: "ring \<Rightarrow> ring" where
  "clear_helper_reservation r = r\<lparr>rb_helper_reserved := False\<rparr>"

definition mark_draining :: "ring \<Rightarrow> ring" where
  "mark_draining r = r\<lparr>rb_draining := True\<rparr>"

definition clear_draining :: "ring \<Rightarrow> ring" where
  "clear_draining r = r\<lparr>rb_draining := False\<rparr>"

definition mark_handed_off :: "ring \<Rightarrow> ring" where
  "mark_handed_off r = r\<lparr>rb_handed_off := True\<rparr>"

text \<open>\<open>mark_recycled\<close> is a \<open>swap\<close>: true for the one caller that set the flag.\<close>

definition mark_recycled :: "ring \<Rightarrow> bool \<times> ring" where
  "mark_recycled r = (\<not> rb_recycled r, r\<lparr>rb_recycled := True\<rparr>)"

definition reset_for_reuse :: "ring \<Rightarrow> ring" where
  "reset_for_reuse r =
     r\<lparr>rb_head := 0, rb_tail := 0, rb_tail_cache := 0, rb_head_cache := 0,
       rb_local_head := 0, rb_since_watermark := 0,
       rb_helper_reserved := False, rb_draining := False, rb_recycled := False,
       rb_handed_off := False, rb_live := True\<rparr>"

section \<open>The producer side\<close>

definition producer_head :: "features \<Rightarrow> ring \<Rightarrow> u64" where
  "producer_head ft r = (if watermark_head ft then rb_local_head r else rb_head r)"

definition flush_watermark :: "ring \<Rightarrow> ring" where
  "flush_watermark r = r\<lparr>rb_since_watermark := 0, rb_head := rb_local_head r\<rparr>"

definition write_eob :: "nat \<Rightarrow> u16 \<Rightarrow> bytes \<Rightarrow> bytes" where
  "write_eob off span d = blit off ([VERSION, END_OF_BUFFER] @ u16_to_le span) d"

text \<open>
  The refresh loop of \<open>try_ensure_capacity\<close>: each turn reads the drain's tail (and,
  under \<open>Block\<close>, the live flag). The observations are what those loads return, turn by
  turn; \<open>None\<close> is a producer that is still spinning when they end.
\<close>

fun ensure_loop ::
  "(u64 \<times> bool) list \<Rightarrow> u64 \<Rightarrow> u64 \<Rightarrow> u64 \<Rightarrow> backpressure \<Rightarrow> (bool \<times> u64) option" where
  "ensure_loop [] msk head needed policy = None"
| "ensure_loop ((t, live) # obs) msk head needed policy =
     (if head + needed - t \<le> msk then Some (True, t)
      else case policy of
        Drop \<Rightarrow> Some (False, t)
      | NanoLog \<Rightarrow> Some (False, t)
      | Quill \<Rightarrow> Some (False, t)
      | Block \<Rightarrow> if \<not> live then Some (False, t) else ensure_loop obs msk head needed policy)"

definition try_ensure_capacity ::
  "features \<Rightarrow> (u64 \<times> bool) list \<Rightarrow> ring \<Rightarrow> u64 \<Rightarrow> u64 \<Rightarrow> backpressure \<Rightarrow> (bool \<times> ring) option"
where
  "try_ensure_capacity ft obs r head needed policy =
     (if head + needed - rb_tail_cache r \<le> rb_mask r then
        (if fast_tail_cache ft then Some (True, r)
         else Some (True, r\<lparr>rb_tail_cache := rb_tail r\<rparr>))
      else case ensure_loop ((rb_tail r, rb_live r) # obs) (rb_mask r) head needed policy of
             None \<Rightarrow> None
           | Some (ok, t) \<Rightarrow> Some (ok, r\<lparr>rb_tail_cache := t\<rparr>))"

definition reserve ::
  "features \<Rightarrow> (u64 \<times> bool) list \<Rightarrow> ring \<Rightarrow> nat \<Rightarrow> backpressure \<Rightarrow> (ring \<times> reservation option) option"
where
  "reserve ft obs r total_size policy =
    (let aligned = align_up (word_of_nat total_size) (word_of_nat SLOT_SIZE);
         head = producer_head ft r;
         offset = unat (head AND rb_mask r);
         remaining_phys = word_of_nat (rb_capacity r - offset) :: u64;
         wrap = remaining_phys < aligned;
         needed = (if wrap then aligned + remaining_phys else aligned)
     in case try_ensure_capacity ft obs r head needed policy of
          None \<Rightarrow> None
        | Some (False, r1) \<Rightarrow> Some (r1, None)
        | Some (True, r1) \<Rightarrow>
            let r2 = (if wrap then
                        r1\<lparr>rb_data := write_eob offset (ucast remaining_phys) (rb_data r1)\<rparr>
                      else r1);
                nxt = (if wrap then head + remaining_phys else head);
                dst = unat (nxt AND rb_mask r)
            in Some (r2, Some \<lparr>res_ptr = dst, res_head = nxt + aligned\<rparr>))"

definition publish :: "features \<Rightarrow> reservation \<Rightarrow> ring \<Rightarrow> ring" where
  "publish ft s r =
     (if watermark_head ft then
        let r1 = r\<lparr>rb_local_head := res_head s, rb_since_watermark := rb_since_watermark r + 1\<rparr>
        in if WATERMARK_HEAD_RECORDS \<le> rb_since_watermark r1 then flush_watermark r1 else r1
      else r\<lparr>rb_head := res_head s\<rparr>)"

text \<open>The caller's store of the assembled record at the reserved pointer.\<close>

definition store_record :: "reservation \<Rightarrow> bytes \<Rightarrow> ring \<Rightarrow> ring" where
  "store_record s xs r = r\<lparr>rb_data := blit (res_ptr s) xs (rb_data r)\<rparr>"

section \<open>Positions and offsets\<close>

lemma is_power_of_two_iff: "is_power_of_two n \<longleftrightarrow> (\<exists>k. n = 2 ^ k)"
proof (induction n rule: is_power_of_two.induct)
  case (1 n)
  consider "n = 0" | "n = 1" | "n \<noteq> 0" "n \<noteq> 1" "odd n" | "n \<noteq> 0" "n \<noteq> 1" "even n" by blast
  then show ?case
  proof cases
    case 1
    then show ?thesis by (simp add: is_power_of_two.simps [of 0])
  next
    case 2
    then show ?thesis by (simp add: is_power_of_two.simps [of "Suc 0"] exI [of _ 0])
  next
    case 3
    then have "\<nexists>k. n = 2 ^ k" by (metis even_power even_numeral power_0 neq0_conv)
    with 3 show ?thesis by (simp add: is_power_of_two.simps [of n])
  next
    case 4
    then have "(\<exists>k. n = 2 ^ k) \<longleftrightarrow> (\<exists>k. n div 2 = 2 ^ k)"
      by (metis dvd_mult_div_cancel nat_power_eq_Suc_0_iff nonzero_mult_div_cancel_left
          power_0 power_Suc not0_implies_Suc zero_neq_numeral)
    with 4 1 show ?thesis by (simp add: is_power_of_two.simps [of n])
  qed
qed

text \<open>Rounding up to a slot on unbounded positions.\<close>

definition slots :: "nat \<Rightarrow> nat" where
  "slots n = 64 * ((n + 63) div 64)"

lemma slots_ge: "n \<le> slots n"
  by (simp add: slots_def)

lemma slots_less: "slots n < n + 64"
  by (simp add: slots_def)

lemma slots_dvd [simp]: "64 dvd slots n"
  by (simp add: slots_def)

lemma slots_dvd_eq: "64 dvd n \<Longrightarrow> slots n = n"
  by (auto simp: slots_def)

lemma slots_pos: "0 < n \<Longrightarrow> 64 \<le> slots n"
  by (simp add: slots_def)

lemma unat_and_mask:
  fixes w :: "'a::len word"
  assumes "cap = 2 ^ k" "k < LENGTH('a)"
  shows "unat (w AND word_of_nat (cap - 1)) = unat w mod cap"
proof -
  have "(word_of_nat (cap - 1) :: 'a word) = mask k"
    using assms by (simp add: mask_eq_exp_minus_1 of_nat_diff)
  then have "w AND word_of_nat (cap - 1) = take_bit k w"
    by (simp add: take_bit_eq_mask)
  then have "unat (w AND word_of_nat (cap - 1)) = take_bit k (unat w)"
    by (simp only: unsigned_take_bit_eq)
  then show ?thesis using assms by (simp only: take_bit_eq_mod)
qed

lemma unat_align_up:
  assumes "unat n + 63 < 2 ^ 64"
  shows "unat (align_up n 64) = slots (unat n)"
proof -
  let ?m = "n + 63"
  have m: "unat ?m = unat n + 63" using assms by (simp add: unat_word_ariths)
  have "(63::u64) = mask 6" by (simp add: mask_eq_exp_minus_1)
  then have "align_up n 64 = ?m AND NOT (mask 6)"
    by (simp add: align_up_def)
  also have "\<dots> = ?m - take_bit 6 ?m"
  proof -
    have "(?m AND NOT (mask 6)) + (?m AND mask 6) = (?m AND NOT (mask 6)) OR (?m AND mask 6)"
      by (rule disjunctive_add) (auto simp: bit_simps)
    also have "\<dots> = ?m" by (rule bit_eqI) (auto simp: bit_simps)
    finally show ?thesis by (simp add: take_bit_eq_mask eq_diff_eq)
  qed
  finally have "align_up n 64 = ?m - take_bit 6 ?m" .
  moreover have "unat (take_bit 6 ?m) = unat ?m mod 64"
    by (simp only: unsigned_take_bit_eq) (simp add: take_bit_eq_mod)
  ultimately have "unat (align_up n 64) = unat ?m - unat ?m mod 64"
    by (simp add: unat_sub word_le_nat_alt)
  then show ?thesis by (simp add: m slots_def minus_mod_eq_mult_div)
qed
text \<open>Well-formed rings: what the constructors establish and every operation keeps.\<close>

definition ring_wf :: "ring \<Rightarrow> bool" where
  "ring_wf r \<longleftrightarrow>
     is_power_of_two (rb_capacity r) \<and> SLOT_SIZE \<le> rb_capacity r \<and> rb_capacity r < 2 ^ 64 \<and>
     rb_mask r = word_of_nat (rb_capacity r - 1) \<and> length (rb_data r) = rb_capacity r"

lemma ring_wf_cap:
  assumes "ring_wf r"
  shows "64 \<le> rb_capacity r" "64 dvd rb_capacity r" "2 * rb_capacity r \<le> 2 ^ 64"
    "length (rb_data r) = rb_capacity r" "unat (rb_mask r) = rb_capacity r - 1"
    "unat (w AND rb_mask r) = unat w mod rb_capacity r"
proof -
  obtain k where k: "rb_capacity r = 2 ^ k"
    using assms by (auto simp: ring_wf_def is_power_of_two_iff)
  have ge: "(2::nat) ^ 6 \<le> 2 ^ k" and lt: "(2::nat) ^ k < 2 ^ 64"
    using assms k by (simp_all add: ring_wf_def SLOT_SIZE_def CACHE_LINE_SIZE_def)
  have "6 \<le> k" by (rule power_le_imp_le_exp [OF _ ge]) simp
  moreover have "k < 64" by (rule power_less_imp_less_exp [OF _ lt]) simp
  ultimately have k': "6 \<le> k" "k < 64" by simp_all
  show "64 \<le> rb_capacity r" "length (rb_data r) = rb_capacity r"
    using assms by (simp_all add: ring_wf_def SLOT_SIZE_def CACHE_LINE_SIZE_def)
  have "(2::nat) ^ 6 dvd 2 ^ k" using k' by (intro le_imp_power_dvd)
  then show "64 dvd rb_capacity r" by (simp add: k)
  have "(2::nat) * 2 ^ k = 2 ^ Suc k" by simp
  also have "\<dots> \<le> 2 ^ 64" using k' by (intro power_increasing) simp_all
  finally show "2 * rb_capacity r \<le> 2 ^ 64" by (simp add: k)
  show "unat (rb_mask r) = rb_capacity r - 1"
    using assms by (auto simp: ring_wf_def unat_of_nat)
  show "unat (w AND rb_mask r) = unat w mod rb_capacity r"
    using assms k' unat_and_mask [OF k, of w]
    by (simp only: ring_wf_def len_num0 len_num1 len_bit0 len_bit1 mult_2 mult_1_right)
qed

lemma with_capacity_wf: "with_capacity cap = Some r \<Longrightarrow> cap < 2 ^ 64 \<Longrightarrow> ring_wf r"
  by (auto simp: with_capacity_def ring_wf_def from_storage_def split: if_splits)

lemma with_capacity_arena_wf:
  "with_capacity_arena cap b = Some r \<Longrightarrow> cap < 2 ^ 64 \<Longrightarrow> ring_wf r"
  by (auto simp: with_capacity_arena_def ring_wf_def from_storage_def split: if_splits)

end
