(* ===== verification/Ring_Spec.thy ===== *)
theory Ring_Spec
  imports Ring
begin

text \<open>
  The producer side of the ring on unbounded positions: where a reservation starts and ends,
  when the space test passes, and \<open>reserve\<close> as one case equation.
\<close>

section \<open>What a reservation gives\<close>

text \<open>
  Where the next record of \<open>n\<close> bytes starts, on unbounded positions: at the write
  position, or at the next multiple of the capacity when it would straddle the end.
\<close>

definition wraps :: "nat \<Rightarrow> nat \<Rightarrow> nat \<Rightarrow> bool" where
  "wraps cap p n \<longleftrightarrow> cap - p mod cap < slots n"

definition start_pos :: "nat \<Rightarrow> nat \<Rightarrow> nat \<Rightarrow> nat" where
  "start_pos cap p n = (if wraps cap p n then p + (cap - p mod cap) else p)"

definition end_pos :: "nat \<Rightarrow> nat \<Rightarrow> nat \<Rightarrow> nat" where
  "end_pos cap p n = start_pos cap p n + slots n"

lemma end_pos_bound:
  assumes "n \<le> 65535"
  shows "p \<le> start_pos cap p n" "start_pos cap p n < p + 65536"
    "end_pos cap p n \<le> start_pos cap p n + 65536" "slots n \<le> 65536"
proof -
  show s: "slots n \<le> 65536" using assms by (simp add: slots_def)
  show "p \<le> start_pos cap p n" "start_pos cap p n < p + 65536"
    "end_pos cap p n \<le> start_pos cap p n + 65536"
    using s by (auto simp: start_pos_def end_pos_def wraps_def)
qed

lemma start_pos_mod:
  assumes "0 < cap"
  shows "start_pos cap p n mod cap = (if wraps cap p n then 0 else p mod cap)"
proof -
  have "(p + (cap - p mod cap)) mod cap = 0"
    using assms by (metis add.commute le_add_diff_inverse2 mod_add_left_eq mod_le_divisor mod_self)
  then show ?thesis by (simp add: start_pos_def)
qed

text \<open>The space test, read on unbounded positions.\<close>

lemma fits_iff:
  fixes p t m :: u64
  assumes "unat p + unat n < 2 ^ 64" "unat t \<le> unat p"
  shows "p + n - t \<le> m \<longleftrightarrow> unat p + unat n - unat t \<le> unat m"
proof -
  have "unat (p + n) = unat p + unat n"
    using assms by (simp add: unat_word_ariths)
  then show ?thesis
    using assms by (simp add: word_le_nat_alt unat_sub)
qed

lemma reserve_geometry:
  assumes wf: "ring_wf r" and n: "n \<le> 65535" and p: "p = unat (producer_head ft r)"
    and room: "p + 131072 < 2 ^ 64"
  defines "aligned \<equiv> align_up (word_of_nat n) (word_of_nat SLOT_SIZE)"
    and "rem \<equiv> word_of_nat (rb_capacity r - unat (producer_head ft r AND rb_mask r)) :: u64"
  shows "unat aligned = slots n"
    and "unat (producer_head ft r AND rb_mask r) = p mod rb_capacity r"
    and "unat rem = rb_capacity r - p mod rb_capacity r"
    and "rem < aligned \<longleftrightarrow> wraps (rb_capacity r) p n"
    and "unat (if rem < aligned then aligned + rem else aligned) = end_pos (rb_capacity r) p n - p"
    and "unat (if rem < aligned then producer_head ft r + rem else producer_head ft r)
      = start_pos (rb_capacity r) p n"
    and "unat ((if rem < aligned then producer_head ft r + rem else producer_head ft r) + aligned)
      = end_pos (rb_capacity r) p n"
proof -
  note cap = ring_wf_cap [OF wf]
  have "unat (word_of_nat n :: u64) = n" using n by (simp add: unat_of_nat)
  then show al: "unat aligned = slots n"
    using n by (simp add: aligned_def SLOT_SIZE_def CACHE_LINE_SIZE_def unat_align_up)
  show off: "unat (producer_head ft r AND rb_mask r) = p mod rb_capacity r"
    by (simp add: cap(6) p)
  show rm: "unat rem = rb_capacity r - p mod rb_capacity r"
    using cap(3) by (simp add: rem_def off unat_of_nat)
  show wr: "rem < aligned \<longleftrightarrow> wraps (rb_capacity r) p n"
    by (simp add: word_less_nat_alt al rm wraps_def)
  have s: "slots n \<le> 65536" using end_pos_bound [OF n] by simp
  show "unat (if rem < aligned then aligned + rem else aligned) = end_pos (rb_capacity r) p n - p"
    using s room
    by (auto simp: wr end_pos_def start_pos_def wraps_def unat_word_ariths al rm)
  show st: "unat (if rem < aligned then producer_head ft r + rem else producer_head ft r)
      = start_pos (rb_capacity r) p n"
    using s room by (auto simp: wr start_pos_def wraps_def unat_word_ariths rm p [symmetric])
  show "unat ((if rem < aligned then producer_head ft r + rem else producer_head ft r) + aligned)
      = end_pos (rb_capacity r) p n"
    using s room end_pos_bound(2) [OF n, of "rb_capacity r" p]
    by (simp add: unat_word_ariths st al end_pos_def)
qed

text \<open>
  The capacity check on unbounded positions, with no further observations: \<open>e\<close> is the
  position after the write.
\<close>

lemma try_ensure_capacity_spec:
  assumes wf: "ring_wf r" and e: "unat head + unat needed = e" "e < 2 ^ 64"
    and tails: "unat (rb_tail_cache r) \<le> unat (rb_tail r)" "unat (rb_tail r) \<le> unat head"
  shows "try_ensure_capacity ft [] r head needed policy =
    (if e - unat (rb_tail_cache r) < rb_capacity r \<and> fast_tail_cache ft then Some (True, r)
     else if e - unat (rb_tail r) < rb_capacity r then Some (True, r\<lparr>rb_tail_cache := rb_tail r\<rparr>)
     else if policy = Block \<and> rb_live r then None
     else Some (False, r\<lparr>rb_tail_cache := rb_tail r\<rparr>))"
proof -
  have cap: "unat (rb_mask r) = rb_capacity r - 1" "0 < rb_capacity r"
    using ring_wf_cap [OF wf] by auto
  have fit: "head + needed - t \<le> rb_mask r \<longleftrightarrow> e - unat t < rb_capacity r"
    if "unat t \<le> unat head" for t
    using fits_iff [of head needed t "rb_mask r"] that e cap by auto
  have c: "head + needed - rb_tail_cache r \<le> rb_mask r \<longleftrightarrow>
      e - unat (rb_tail_cache r) < rb_capacity r"
    and t: "head + needed - rb_tail r \<le> rb_mask r \<longleftrightarrow> e - unat (rb_tail r) < rb_capacity r"
    using tails by (auto intro!: fit)
  have "e - unat (rb_tail_cache r) < rb_capacity r \<Longrightarrow> e - unat (rb_tail r) < rb_capacity r"
    using tails by linarith
  then show ?thesis
    by (auto simp: try_ensure_capacity_def c t split: backpressure.splits)
qed

lemma reserve_spec:
  assumes wf: "ring_wf r" and n: "n \<le> 65535" and p: "p = unat (producer_head ft r)"
    and room: "p + 131072 < 2 ^ 64"
    and tails: "unat (rb_tail_cache r) \<le> unat (rb_tail r)" "unat (rb_tail r) \<le> p"
  defines "cap \<equiv> rb_capacity r"
  defines "e \<equiv> end_pos cap p n"
  defines "d \<equiv> (if wraps cap p n
      then write_eob (p mod cap) (word_of_nat (cap - p mod cap)) (rb_data r) else rb_data r)"
  defines "s \<equiv> \<lparr>res_ptr = start_pos cap p n mod cap, res_head = word_of_nat e\<rparr>"
  shows "reserve ft [] r n policy =
    (if e - unat (rb_tail_cache r) < cap \<and> fast_tail_cache ft then Some (r\<lparr>rb_data := d\<rparr>, Some s)
     else if e - unat (rb_tail r) < cap
       then Some (r\<lparr>rb_tail_cache := rb_tail r, rb_data := d\<rparr>, Some s)
     else if policy = Block \<and> rb_live r then None
     else Some (r\<lparr>rb_tail_cache := rb_tail r\<rparr>, None))"
proof -
  note g = reserve_geometry [OF wf n p room, folded cap_def]
  define al where "al = align_up (word_of_nat n) (word_of_nat SLOT_SIZE)"
  define off where "off = unat (producer_head ft r AND rb_mask r)"
  define rm where "rm = (word_of_nat (cap - off) :: u64)"
  define needed where "needed = (if rm < al then al + rm else al)"
  define nxt where "nxt = (if rm < al then producer_head ft r + rm else producer_head ft r)"
  note g = g [folded off_def, folded al_def rm_def, folded nxt_def needed_def]
  have e: "unat (producer_head ft r) + unat needed = e" "e < 2 ^ 64"
    using g(5) p room end_pos_bound(1-3) [OF n, where p = p and cap = cap]
    by (auto simp: e_def end_pos_def)
  have "reserve ft [] r n policy =
    (case try_ensure_capacity ft [] r (producer_head ft r) needed policy of
       None \<Rightarrow> None
     | Some (False, r1) \<Rightarrow> Some (r1, None)
     | Some (True, r1) \<Rightarrow>
         let r2 = (if rm < al then r1\<lparr>rb_data := write_eob off (ucast rm) (rb_data r1)\<rparr> else r1)
         in Some (r2, Some \<lparr>res_ptr = unat (nxt AND rb_mask r), res_head = nxt + al\<rparr>))"
    by (simp only: reserve_def Let_def al_def off_def rm_def needed_def nxt_def cap_def)
  also have "\<lparr>res_ptr = unat (nxt AND rb_mask r), res_head = nxt + al\<rparr> = s"
  proof -
    have "nxt + al = word_of_nat e" unfolding e_def g(7) [symmetric] by simp
    then show ?thesis
      using g(6) by (simp add: s_def ring_wf_cap(6) [OF wf] cap_def)
  qed
  also have "(ucast rm :: u16) = word_of_nat (cap - p mod cap)"
  proof -
    have "(ucast rm :: u16) = word_of_nat (unat rm)" by simp
    then show ?thesis by (simp only: g(3))
  qed
  also have "try_ensure_capacity ft [] r (producer_head ft r) needed policy =
    (if e - unat (rb_tail_cache r) < cap \<and> fast_tail_cache ft then Some (True, r)
     else if e - unat (rb_tail r) < cap then Some (True, r\<lparr>rb_tail_cache := rb_tail r\<rparr>)
     else if policy = Block \<and> rb_live r then None
     else Some (False, r\<lparr>rb_tail_cache := rb_tail r\<rparr>))"
    unfolding cap_def by (rule try_ensure_capacity_spec [OF wf e tails [unfolded p]])
  finally show ?thesis
    by (simp add: g(2,4) d_def Let_def)
qed
end
