(* ===== verification/Ring_Drain.thy ===== *)
theory Ring_Drain
  imports Ring_Spec Cursor
begin

text \<open>
  The drain side of the ring (\<open>drain_ring_inner\<close>, \<open>drain_ring\<close> in
  \<open>src/src/drain.rs\<close>) and the byte layout both sides agree on. What a pass does with a
  record is an argument \<open>deliver\<close> that threads a state; \<open>None\<close> from it is a panic of the
  drain thread.
\<close>

section \<open>One pass over the ring\<close>

datatype drain_step =
    Break (step_tail: u64)
  | Skip (step_tail: u64)
  | Deliver (step_record: bytes) (step_level: level) (step_tail: u64)

definition record_level :: "bytes \<Rightarrow> level" where
  "record_level record =
     (if length record \<le> 4 then Error
      else case from_u8 (record ! 4) of Some l \<Rightarrow> l | None \<Rightarrow> Error)"

text \<open>One turn of the \<open>while tail < head_cache\<close> loop.\<close>

definition drain_iter :: "bytes \<Rightarrow> nat \<Rightarrow> u64 \<Rightarrow> u64 \<Rightarrow> drain_step" where
  "drain_iter d capacity head_cache tail =
    (let msk = word_of_nat (capacity - 1) :: u64;
         offset = unat (tail AND msk);
         c0 = cursor_new d offset (capacity - offset);
         (version, c1) = read_u8 c0;
         (rectype, c2) = read_u8 c1;
         (size, c3) = read_u16 c2;
         total_size = unat size
     in if total_size = 0 then Break tail
        else if version \<noteq> VERSION \<or> (rectype \<noteq> LOG_RECORD \<and> rectype \<noteq> END_OF_BUFFER)
                \<or> total_size < HEADER_SIZE \<or> capacity < offset + total_size
          then Break head_cache
        else let tail' = tail + align_up (word_of_nat total_size) (word_of_nat SLOT_SIZE) in
          if rectype = END_OF_BUFFER then Skip tail'
          else let record = slice d offset total_size
               in Deliver record (record_level record) tail')"

partial_function (option) drain_loop ::
  "(bytes \<Rightarrow> level \<Rightarrow> 'k \<Rightarrow> 'k option) \<Rightarrow> bytes \<Rightarrow> nat \<Rightarrow> u64 \<Rightarrow> u64 \<Rightarrow> bool \<Rightarrow> 'k
   \<Rightarrow> (u64 \<times> bool \<times> 'k) option"
where
  "drain_loop deliver d capacity head_cache tail had_work k =
     (if tail < head_cache then
        case drain_iter d capacity head_cache tail of
          Break t \<Rightarrow> Some (t, had_work, k)
        | Skip t \<Rightarrow> drain_loop deliver d capacity head_cache t had_work k
        | Deliver rec l t \<Rightarrow>
            Option.bind (deliver rec l k) (drain_loop deliver d capacity head_cache t True)
      else Some (tail, had_work, k))"

declare drain_loop.simps [code]

text \<open>
  What a pass does before its loop: a dead ring's unpublished positions are flushed under
  \<open>watermark-head\<close>, and the published head is loaded when the cached one is used up.
\<close>

definition drain_begin :: "features \<Rightarrow> ring \<Rightarrow> ring \<times> u64" where
  "drain_begin ft r =
    (let r0 = (if watermark_head ft \<and> \<not> rb_live r then flush_watermark r else r)
     in (r0, if rb_tail r0 = rb_head_cache r0 then rb_head r0 else rb_head_cache r0))"

definition drain_end :: "u64 \<Rightarrow> u64 \<Rightarrow> ring \<Rightarrow> ring" where
  "drain_end tail head_cache r = r\<lparr>rb_tail := tail, rb_head_cache := head_cache\<rparr>"

definition drain_ring_inner ::
  "features \<Rightarrow> (bytes \<Rightarrow> level \<Rightarrow> 'k \<Rightarrow> 'k option) \<Rightarrow> ring \<Rightarrow> 'k \<Rightarrow> (bool \<times> ring \<times> 'k) option"
where
  "drain_ring_inner ft deliver r k =
    (let (r0, head_cache) = drain_begin ft r; tail = rb_tail r0 in
     if tail = head_cache then Some (False, r0, k)
     else case drain_loop deliver (rb_data r0) (rb_capacity r0) head_cache tail False k of
            None \<Rightarrow> None
          | Some (t, had_work, k') \<Rightarrow> Some (had_work, drain_end t head_cache r0, k'))"

text \<open>The poll loop's wrapper raises the \<open>draining\<close> flag around the pass.\<close>

definition drain_ring ::
  "features \<Rightarrow> (bytes \<Rightarrow> level \<Rightarrow> 'k \<Rightarrow> 'k option) \<Rightarrow> ring \<Rightarrow> 'k \<Rightarrow> (bool \<times> ring \<times> 'k) option"
where
  "drain_ring ft deliver r k =
     (case drain_ring_inner ft deliver (mark_draining r) k of
        None \<Rightarrow> None
      | Some (had_work, r', k') \<Rightarrow> Some (had_work, clear_draining r', k'))"

section \<open>The layout of published bytes\<close>

text \<open>A record as the ring carries it: at least a header, with its own length in the prefix.\<close>

definition wire_ok :: "bytes \<Rightarrow> bool" where
  "wire_ok r \<longleftrightarrow> HEADER_SIZE \<le> length r \<and> length r \<le> MAX_RECORD_SIZE \<and>
     take 4 r = [VERSION, LOG_RECORD] @ u16_to_le (word_of_nat (length r))"

text \<open>
  \<open>frames d cap p q rs\<close>: the positions from \<open>p\<close> to \<open>q\<close> of the storage \<open>d\<close> hold the
  records \<open>rs\<close> in this order, each in one contiguous slot-aligned frame, with end-of-buffer
  fillers where the next record would not fit before the physical end.
\<close>

inductive frames :: "bytes \<Rightarrow> nat \<Rightarrow> nat \<Rightarrow> nat \<Rightarrow> bytes list \<Rightarrow> bool" for d cap where
  frames_nil: "frames d cap p p []"
| frames_rec: "wire_ok r \<Longrightarrow> p mod cap + slots (length r) \<le> cap \<Longrightarrow>
    slice d (p mod cap) (length r) = r \<Longrightarrow> frames d cap (p + slots (length r)) q rs \<Longrightarrow>
    frames d cap p q (r # rs)"
| frames_eob: "p mod cap < cap \<Longrightarrow> cap - p mod cap < 65536 \<Longrightarrow>
    slice d (p mod cap) 4 = [VERSION, END_OF_BUFFER] @ u16_to_le (word_of_nat (cap - p mod cap)) \<Longrightarrow>
    frames d cap (p + (cap - p mod cap)) q rs \<Longrightarrow> frames d cap p q rs"

inductive_cases frames_NilE: "frames d cap p q []"
inductive_cases frames_ConsE: "frames d cap p q (r # rs)"

lemma wire_ok_slots: "wire_ok r \<Longrightarrow> 64 \<le> slots (length r)"
  by (rule slots_pos) (auto simp: wire_ok_def record_consts)

lemma frames_le: "frames d cap p q rs \<Longrightarrow> p \<le> q"
  by (induction rule: frames.induct) auto

lemma frames_dvd: "frames d cap p q rs \<Longrightarrow> 64 dvd cap \<Longrightarrow> 64 dvd p \<Longrightarrow> 64 dvd q"
  by (induction rule: frames.induct) (auto simp del: add_diff_assoc simp: dvd_mod)

lemma frames_refl_Nil: "frames d cap p p rs \<Longrightarrow> rs = []"
proof (erule frames.cases)
  fix p' r q rs'
  assume *: "p = p'" "p = q" "wire_ok r" "frames d cap (p' + slots (length r)) q rs'"
  show "rs = []" using frames_le [OF *(4)] wire_ok_slots [OF *(3)] * by simp
next
  fix p' q rs'
  assume *: "p = p'" "p = q" "p' mod cap < cap" "frames d cap (p' + (cap - p' mod cap)) q rs'"
  show "rs = []" using frames_le [OF *(4)] * by simp
qed simp

lemma frames_append:
  "frames d cap p q rs \<Longrightarrow> frames d cap q s rs' \<Longrightarrow> frames d cap p s (rs @ rs')"
  by (induction rule: frames.induct) (auto intro: frames.intros)

text \<open>Distinct positions less than a capacity apart have distinct offsets.\<close>

lemma mod_neq:
  fixes i j cap :: nat
  assumes "i < j" "j - i < cap"
  shows "i mod cap \<noteq> j mod cap"
  using assms by (metis dvd_imp_le less_imp_le_nat linorder_not_less mod_eq_dvd_iff_nat zero_less_diff)

lemma mod_add_small: "(p::nat) mod cap + j < cap \<Longrightarrow> (p + j) mod cap = p mod cap + j"
  by (metis mod_add_left_eq mod_less)

text \<open>The layout of a range depends on the bytes of that range only.\<close>

lemma slice_cong_pos:
  fixes d d' :: bytes
  assumes "length d = cap" "length d' = cap" "p mod cap + n \<le> cap" "0 < n"
    and "\<And>i. p \<le> i \<Longrightarrow> i < p + n \<Longrightarrow> d' ! (i mod cap) = d ! (i mod cap)"
  shows "slice d' (p mod cap) n = slice d (p mod cap) n"
proof (rule slice_eqI)
  fix i assume i: "p mod cap \<le> i" "i < p mod cap + n"
  define j where "j = i - p mod cap"
  have "p mod cap + j < cap" using i assms(3) by (simp add: j_def)
  then have "(p + j) mod cap = p mod cap + j" by (rule mod_add_small)
  then have "(p + j) mod cap = i" using i by (simp add: j_def)
  moreover have "d' ! ((p + j) mod cap) = d ! ((p + j) mod cap)"
    using i by (intro assms(5)) (auto simp: j_def)
  ultimately show "d' ! i = d ! i" by simp
qed (use assms in auto)

lemma frames_cong:
  assumes "frames d cap p q rs" "length d = cap" "length d' = cap" "64 dvd cap" "64 dvd p"
    and "\<And>i. p \<le> i \<Longrightarrow> i < q \<Longrightarrow> d' ! (i mod cap) = d ! (i mod cap)"
  shows "frames d' cap p q rs"
  using assms
proof (induction rule: frames.induct)
  case (frames_nil p)
  show ?case by (rule frames.frames_nil)
next
  case (frames_rec r p q rs)
  have q: "p + slots (length r) \<le> q" using frames_rec(4) by (rule frames_le)
  have n: "0 < length r" "length r \<le> slots (length r)"
    using frames_rec(1) by (auto simp: wire_ok_def record_consts slots_ge)
  have "slice d' (p mod cap) (length r) = slice d (p mod cap) (length r)"
    using frames_rec.prems frames_rec.hyps(2) n q by (intro slice_cong_pos) auto
  then have "slice d' (p mod cap) (length r) = r" using frames_rec.hyps(3) by simp
  moreover have "frames d' cap (p + slots (length r)) q rs"
    using frames_rec.prems by (intro frames_rec.IH) auto
  ultimately show ?case
    using frames_rec.hyps(1,2) by (intro frames.frames_rec)
next
  case (frames_eob p q rs)
  have q: "p + (cap - p mod cap) \<le> q" using frames_eob(4) by (rule frames_le)
  have dv: "64 dvd cap - p mod cap" using frames_eob.prems by (simp add: dvd_mod)
  then have ge: "64 \<le> cap - p mod cap" using frames_eob.hyps(1) by (auto dest: dvd_imp_le)
  have "slice d' (p mod cap) 4 = slice d (p mod cap) 4"
    using frames_eob.prems frames_eob.hyps(1) ge q by (intro slice_cong_pos) auto
  then have "slice d' (p mod cap) 4 =
      [VERSION, END_OF_BUFFER] @ u16_to_le (word_of_nat (cap - p mod cap))"
    using frames_eob.hyps(3) by simp
  moreover have "frames d' cap (p + (cap - p mod cap)) q rs"
    using frames_eob.prems dv by (intro frames_eob.IH) auto
  ultimately show ?case
    by (rule frames.frames_eob [OF frames_eob.hyps(1,2)])
qed

section \<open>A pass delivers exactly the published records\<close>

lemma drain_iter_prefix:
  assumes "slice d off 4 = [v, ty] @ u16_to_le sz" "off = unat (tail AND word_of_nat (cap - 1))"
    "length d = cap" "off + 4 \<le> cap"
  shows "drain_iter d cap hc tail =
    (let n = unat sz; tail' = tail + align_up (word_of_nat n) 64 in
     if n = 0 then Break tail
     else if v \<noteq> VERSION \<or> (ty \<noteq> LOG_RECORD \<and> ty \<noteq> END_OF_BUFFER)
             \<or> n < HEADER_SIZE \<or> cap < off + n then Break hc
     else if ty = END_OF_BUFFER then Skip tail'
     else Deliver (slice d off n) (record_level (slice d off n)) tail')"
proof -
  have "cursor_new d off (cap - off) = slice d off 4 @ drop (off + 4) d"
    using assms(3) append_take_drop_id [of 4 "drop off d"]
    by (simp add: cursor_new_def slice_def drop_drop add.commute)
  then have c: "cursor_new d off (cap - off) = v # ty # u16_to_le sz @ drop (off + 4) d"
    by (simp add: assms(1))
  show ?thesis
    unfolding drain_iter_def Let_def assms(2) [symmetric] c
    by (simp add: SLOT_SIZE_def CACHE_LINE_SIZE_def)
qed

lemma wire_ok_prefix:
  assumes "wire_ok r" "slice d off (length r) = r"
  shows "slice d off 4 = [VERSION, LOG_RECORD] @ u16_to_le (word_of_nat (length r))"
proof -
  have "4 \<le> length r" using assms(1) by (simp add: wire_ok_def record_consts)
  then have "slice d off 4 = take 4 (slice d off (length r))"
    by (simp add: slice_def min_def)
  then show ?thesis using assms by (simp add: wire_ok_def)
qed

text \<open>One turn at the front of a well-formed range.\<close>

lemma drain_iter_rec:
  assumes "wire_ok r" "off = unat (tail AND word_of_nat (cap - 1))"
    "slice d off (length r) = r" "length d = cap" "off + slots (length r) \<le> cap"
  shows "drain_iter d cap hc tail =
    Deliver r (record_level r) (tail + align_up (word_of_nat (length r)) 64)"
proof -
  have n: "16 \<le> length r" "length r < 65536" "r \<noteq> []"
    using assms(1) by (auto simp: wire_ok_def record_consts)
  have u: "unat (word_of_nat (length r) :: u16) = length r" using n by (simp add: unat_of_nat)
  have "off + length r \<le> cap" using assms(5) slots_ge [of "length r"] by simp
  then show ?thesis
    using n assms(3) drain_iter_prefix [OF wire_ok_prefix [OF assms(1,3)] assms(2,4), of hc]
    by (simp add: u record_consts Let_def)
qed

lemma drain_iter_eob:
  assumes "slice d off 4 = [VERSION, END_OF_BUFFER] @ u16_to_le (word_of_nat (cap - off))"
    "off = unat (tail AND word_of_nat (cap - 1))" "length d = cap"
    "64 \<le> cap - off" "cap - off < 65536"
  shows "drain_iter d cap hc tail = Skip (tail + align_up (word_of_nat (cap - off)) 64)"
proof -
  have "unat (word_of_nat (cap - off) :: u16) = cap - off" using assms(5) by (simp add: unat_of_nat)
  then show ?thesis
    using assms(4,5) drain_iter_prefix [OF assms(1-3), of hc]
    by (simp add: record_consts Let_def)
qed

lemma tail_advance:
  assumes "unat tail + slots n < 2 ^ 64" "n < 65536"
  shows "unat (tail + align_up (word_of_nat n) 64) = unat tail + slots n"
proof -
  have "unat (word_of_nat n :: u64) = n" using assms(2) by (simp add: unat_of_nat)
  then have "unat (align_up (word_of_nat n) 64) = slots n"
    using assms(2) by (simp add: unat_align_up)
  then show ?thesis using assms(1) by (simp add: unat_word_ariths)
qed

text \<open>The step relation of the loop on a well-formed range, for one or several turns.\<close>

lemma drain_iter_frames:
  assumes "frames d cap (unat tail) (unat hc) rs" "tail < hc"
    and off: "unat (tail AND word_of_nat (cap - 1)) = unat tail mod cap"
    and d: "length d = cap" "64 dvd cap" "64 dvd unat tail" "0 < cap"
  shows "(\<exists>r rs' t. rs = r # rs' \<and> drain_iter d cap hc tail = Deliver r (record_level r) t \<and>
            unat t = unat tail + slots (length r) \<and> wire_ok r \<and>
            frames d cap (unat t) (unat hc) rs') \<or>
         (\<exists>t. drain_iter d cap hc tail = Skip t \<and> unat tail < unat t \<and> 64 dvd unat t \<and>
            frames d cap (unat t) (unat hc) rs)"
  using assms(1)
proof cases
  case frames_nil
  then show ?thesis using assms(2) by (simp add: word_less_nat_alt)
next
  case (frames_rec r rs')
  have "unat tail + slots (length r) < 2 ^ 64"
    using frames_le [OF frames_rec(5)] unat_lt [of hc] by simp
  moreover have "length r < 65536" using frames_rec(2) by (simp add: wire_ok_def record_consts)
  ultimately have "unat (tail + align_up (word_of_nat (length r)) 64) = unat tail + slots (length r)"
    by (rule tail_advance)
  moreover have "drain_iter d cap hc tail =
      Deliver r (record_level r) (tail + align_up (word_of_nat (length r)) 64)"
    using frames_rec off d by (intro drain_iter_rec) simp_all
  ultimately show ?thesis using frames_rec(1,2,5) by auto
next
  case frames_eob
  let ?n = "cap - unat tail mod cap"
  have dv: "64 dvd ?n" using d by (simp add: dvd_mod)
  then have ge: "64 \<le> ?n" using frames_eob(1) by (auto dest: dvd_imp_le)
  have "unat tail + slots ?n < 2 ^ 64"
    using frames_le [OF frames_eob(4)] unat_lt [of hc] dv by (simp add: slots_dvd_eq)
  then have "unat (tail + align_up (word_of_nat ?n) 64) = unat tail + ?n"
    using tail_advance frames_eob(2) dv by (simp add: slots_dvd_eq)
  moreover have "drain_iter d cap hc tail = Skip (tail + align_up (word_of_nat ?n) 64)"
    using frames_eob(2,3) off d(1) ge by (subst off [symmetric], intro drain_iter_eob) simp_all
  moreover have "64 dvd unat tail + ?n" using dv d(3) by (rule dvd_add [rotated])
  ultimately show ?thesis using frames_eob(4) ge by (auto simp del: add_diff_assoc)
qed

text \<open>Delivering a list of records, in order.\<close>

fun deliver_all :: "(bytes \<Rightarrow> level \<Rightarrow> 'k \<Rightarrow> 'k option) \<Rightarrow> bytes list \<Rightarrow> 'k \<Rightarrow> 'k option" where
  "deliver_all deliver [] k = Some k"
| "deliver_all deliver (r # rs) k =
     Option.bind (deliver r (record_level r) k) (deliver_all deliver rs)"

lemma drain_loop_frames:
  assumes "frames d cap (unat tail) (unat hc) rs"
    and off: "\<And>w. unat (w AND word_of_nat (cap - 1) :: u64) = unat w mod cap"
    and d: "length d = cap" "64 dvd cap" "64 dvd unat tail" "0 < cap"
  shows "drain_loop deliver d cap hc tail hw k =
    map_option (\<lambda>k'. (hc, hw \<or> rs \<noteq> [], k')) (deliver_all deliver rs k)"
  using assms(1) d(3)
proof (induction "unat hc - unat tail" arbitrary: tail rs hw k rule: less_induct)
  case less
  show ?case
  proof (cases "tail < hc")
    case False
    then have "tail = hc"
      using frames_le [OF less.prems(1)] by (simp add: word_less_nat_alt word_unat_eq_iff)
    moreover from this have "rs = []" using less.prems(1) frames_refl_Nil by blast
    ultimately show ?thesis by (simp add: drain_loop.simps)
  next
    case True
    from drain_iter_frames [OF less.prems(1) True off d(1,2) less.prems(2) d(4)]
    consider (r) r rs' t where "rs = r # rs'" "drain_iter d cap hc tail = Deliver r (record_level r) t"
        "unat t = unat tail + slots (length r)" "frames d cap (unat t) (unat hc) rs'" "wire_ok r"
      | (e) t where "drain_iter d cap hc tail = Skip t" "unat tail < unat t" "64 dvd unat t"
        "frames d cap (unat t) (unat hc) rs"
      by auto
    then show ?thesis
    proof cases
      case r
      have "unat hc - unat t < unat hc - unat tail"
        using r(3) wire_ok_slots [OF r(5)] True by (auto simp: word_less_nat_alt)
      note IH = less.hyps [OF this r(4)]
      show ?thesis
        using r IH less.prems(2) True
        by (subst drain_loop.simps) (cases "deliver r (record_level r) k"; simp)
    next
      case e
      have "unat hc - unat t < unat hc - unat tail"
        using e(2) True by (auto simp: word_less_nat_alt)
      note IH = less.hyps [OF this e(4,3)]
      show ?thesis using e IH True by (subst drain_loop.simps) simp
    qed
  qed
qed


text \<open>
  A pass over a well-formed ring whose undrained bytes hold \<open>rs\<close>: it returns, it delivers
  \<open>rs\<close> in order and it moves the tail to the head it loaded.
\<close>

lemma drain_ring_inner_frames:
  fixes r :: ring and ft :: features and hc :: u64 and r0 :: ring
  assumes "ring_wf r" "drain_begin ft r = (r0, hc)" "64 dvd unat (rb_tail r0)"
    and "frames (rb_data r0) (rb_capacity r0) (unat (rb_tail r0)) (unat hc) rs"
  shows "drain_ring_inner ft deliver r k =
    map_option (\<lambda>k'. (rs \<noteq> [], if rb_tail r0 = hc then r0 else drain_end hc hc r0, k'))
      (deliver_all deliver rs k)"
proof -
  have wf: "ring_wf r0"
    using assms(1,2)
    by (auto simp: drain_begin_def Let_def ring_wf_def flush_watermark_def split: if_splits)
  note cap = ring_wf_cap [OF wf]
  have "unat (w AND word_of_nat (rb_capacity r0 - 1)) = unat w mod rb_capacity r0" for w :: u64
    using cap(6) wf by (simp add: ring_wf_def)
  note loop = drain_loop_frames [OF assms(4) this cap(4,2) assms(3)]
  show ?thesis
  proof (cases "rb_tail r0 = hc")
    case True
    then have "rs = []" using assms(4) frames_refl_Nil by blast
    with True show ?thesis by (simp add: drain_ring_inner_def assms(2))
  next
    case False
    then show ?thesis
      using cap(1) by (simp add: drain_ring_inner_def assms(2) loop option.case_eq_if map_option_case)
  qed
qed

section \<open>Writing a record extends the layout\<close>

lemma dvd_start_pos:
  assumes "64 dvd cap" "64 dvd p"
  shows "64 dvd start_pos cap p n" "64 dvd end_pos cap p n"
proof -
  show s: "64 dvd start_pos cap p n"
    using assms by (auto simp: start_pos_def simp del: add_diff_assoc intro!: dvd_add dvd_diff_nat dvd_mod)
  then show "64 dvd end_pos cap p n" by (simp add: end_pos_def)
qed

lemma start_pos_fits:
  assumes "0 < cap" "slots n \<le> cap"
  shows "start_pos cap p n mod cap + slots n \<le> cap"
proof (cases "wraps cap p n")
  case True
  then show ?thesis using assms by (simp add: start_pos_mod)
next
  case False
  then have "slots n \<le> cap - p mod cap" by (simp add: wraps_def)
  moreover have "p mod cap < cap" using assms by simp
  ultimately have "p mod cap + slots n \<le> cap" by linarith
  then show ?thesis using False assms by (simp add: start_pos_mod)
qed

text \<open>The filler, and then the record behind it.\<close>

lemma frames_to_start:
  assumes "0 < cap" "n \<le> 65535"
    and "wraps cap p n \<Longrightarrow>
      slice d (p mod cap) 4 = [VERSION, END_OF_BUFFER] @ u16_to_le (word_of_nat (cap - p mod cap))"
  shows "frames d cap p (start_pos cap p n) []"
proof (cases "wraps cap p n")
  case True
  then have "cap - p mod cap < 65536" using end_pos_bound(4) [OF assms(2)] by (simp add: wraps_def)
  moreover have "p mod cap < cap" using assms(1) by simp
  ultimately show ?thesis
    using True assms(3) frames_eob [of p cap d] frames_nil by (simp add: start_pos_def)
next
  case False
  then show ?thesis by (simp add: start_pos_def frames_nil)
qed

lemma frames_record:
  assumes "0 < cap" "wire_ok r" "frames d cap p (start_pos cap p (length r)) []"
    "slots (length r) \<le> cap" "slice d (start_pos cap p (length r) mod cap) (length r) = r"
  shows "frames d cap p (end_pos cap p (length r)) [r]"
proof -
  let ?s = "start_pos cap p (length r)"
  have "frames d cap ?s (?s + slots (length r)) [r]"
    using assms start_pos_fits by (intro frames_rec frames_nil) simp_all
  from frames_append [OF assms(3) this] show ?thesis by (simp add: end_pos_def)
qed

text \<open>An assembled record is one the ring carries, with its own level.\<close>

lemma wire_record_ok:
  assumes "BASE_RECORD_SIZE + length as + args_size as \<le> MAX_RECORD_SIZE"
  shows "wire_ok (wire_record l ts p as)" "record_level (wire_record l ts p as) = l"
proof -
  show "wire_ok (wire_record l ts p as)"
    using assms by (simp add: wire_ok_def record_consts)
      (simp add: wire_record_def header_fields_def record_consts u16_to_le_def le_eval)
  have "length (wire_record l ts p as) \<le> 4 \<longleftrightarrow> False" by (simp add: record_consts)
  moreover have "wire_record l ts p as ! 4 = to_u8 l"
    by (simp add: wire_record_def header_fields_def u16_to_le_def le_eval)
  ultimately show "record_level (wire_record l ts p as) = l" by (simp add: record_level_def)
qed

end
