(* ===== verification/Spsc.thy ===== *)
theory Spsc
  imports Ring_Drain
begin

text \<open>
  The producer thread and the drain thread running concurrently on one ring. The producer
  reserves (one load of the drain's tail per attempt), copies its record one byte at a time
  and publishes; the drain loads the head, handles one record per turn and publishes its tail
  at the end of the pass. The steps of the two threads interleave freely. Memory is
  sequentially consistent: the acquire and release pairs of the code order exactly the loads
  and stores of \<open>head\<close> and \<open>tail\<close> with the bytes they guard. \<open>sent\<close> and \<open>got\<close> are
  ghost histories of the published and of the delivered records.
\<close>

datatype producer_pc =
    Idle
  | Writing reservation bytes nat
  | Exited

datatype drain_pc =
    Asleep
  | Draining (loop_head: u64) (loop_tail: u64)

record spsc =
  sp_ring :: ring
  sp_prod :: producer_pc
  sp_drain :: drain_pc
  sent :: "bytes list"
  got :: "bytes list"
  dropped :: nat

definition spsc_init :: "ring \<Rightarrow> spsc" where
  "spsc_init r = \<lparr>sp_ring = r, sp_prod = Idle, sp_drain = Asleep, sent = [], got = [], dropped = 0\<rparr>"

definition poke :: "nat \<Rightarrow> u8 \<Rightarrow> ring \<Rightarrow> ring" where
  "poke i b r = r\<lparr>rb_data := (rb_data r)[i := b]\<rparr>"

inductive spsc_step :: "features \<Rightarrow> backpressure \<Rightarrow> spsc \<Rightarrow> spsc \<Rightarrow> bool" for ft policy where
  reserve_some: "sp_prod s = Idle \<Longrightarrow> wire_ok xs \<Longrightarrow>
    reserve ft [] (sp_ring s) (length xs) policy = Some (r', Some v) \<Longrightarrow>
    spsc_step ft policy s (s\<lparr>sp_ring := r', sp_prod := Writing v xs 0\<rparr>)"
| reserve_none: "sp_prod s = Idle \<Longrightarrow> wire_ok xs \<Longrightarrow>
    reserve ft [] (sp_ring s) (length xs) policy = Some (r', None) \<Longrightarrow>
    spsc_step ft policy s (s\<lparr>sp_ring := r', dropped := Suc (dropped s)\<rparr>)"
| write_byte: "sp_prod s = Writing v xs i \<Longrightarrow> i < length xs \<Longrightarrow>
    spsc_step ft policy s
      (s\<lparr>sp_ring := poke (res_ptr v + i) (xs ! i) (sp_ring s), sp_prod := Writing v xs (Suc i)\<rparr>)"
| publish_record: "sp_prod s = Writing v xs (length xs) \<Longrightarrow>
    spsc_step ft policy s
      (s\<lparr>sp_ring := publish ft v (sp_ring s), sp_prod := Idle, sent := sent s @ [xs]\<rparr>)"
| exit_thread: "sp_prod s = Idle \<Longrightarrow>
    spsc_step ft policy s (s\<lparr>sp_ring := set_dead (sp_ring s), sp_prod := Exited\<rparr>)"
| drain_enter: "sp_drain s = Asleep \<Longrightarrow> drain_begin ft (sp_ring s) = (r', hc) \<Longrightarrow>
    spsc_step ft policy s
      (s\<lparr>sp_ring := r', sp_drain := (if rb_tail r' = hc then Asleep else Draining hc (rb_tail r'))\<rparr>)"
| drain_turn: "sp_drain s = Draining hc t \<Longrightarrow> t < hc \<Longrightarrow>
    drain_iter (rb_data (sp_ring s)) (rb_capacity (sp_ring s)) hc t = Skip t' \<Longrightarrow>
    spsc_step ft policy s (s\<lparr>sp_drain := Draining hc t'\<rparr>)"
| drain_deliver: "sp_drain s = Draining hc t \<Longrightarrow> t < hc \<Longrightarrow>
    drain_iter (rb_data (sp_ring s)) (rb_capacity (sp_ring s)) hc t = Deliver rec l t' \<Longrightarrow>
    spsc_step ft policy s (s\<lparr>sp_drain := Draining hc t', got := got s @ [rec]\<rparr>)"
| drain_break: "sp_drain s = Draining hc t \<Longrightarrow> t < hc \<Longrightarrow>
    drain_iter (rb_data (sp_ring s)) (rb_capacity (sp_ring s)) hc t = Break t' \<Longrightarrow>
    spsc_step ft policy s (s\<lparr>sp_ring := drain_end t' hc (sp_ring s), sp_drain := Asleep\<rparr>)"
| drain_leave: "sp_drain s = Draining hc t \<Longrightarrow> \<not> t < hc \<Longrightarrow>
    spsc_step ft policy s (s\<lparr>sp_ring := drain_end t hc (sp_ring s), sp_drain := Asleep\<rparr>)"

definition spsc_reachable :: "features \<Rightarrow> backpressure \<Rightarrow> ring \<Rightarrow> spsc \<Rightarrow> bool" where
  "spsc_reachable ft policy r s \<longleftrightarrow> (spsc_step ft policy)\<^sup>*\<^sup>* (spsc_init r) s"

section \<open>The invariant\<close>

text \<open>The position the drain has read up to, published or not.\<close>

fun read_pos :: "spsc \<Rightarrow> nat" where
  "read_pos s = (case sp_drain s of Asleep \<Rightarrow> unat (rb_tail (sp_ring s)) | Draining hc t \<Rightarrow> unat t)"

text \<open>What the drain may assume, given the records \<open>ws\<close> it has still to read.\<close>

definition drain_view :: "features \<Rightarrow> ring \<Rightarrow> drain_pc \<Rightarrow> bytes list \<Rightarrow> bool" where
  "drain_view ft r dpc ws \<longleftrightarrow>
    (let d = rb_data r; cap = rb_capacity r; h = unat (rb_head r); p = unat (producer_head ft r) in
     case dpc of
       Asleep \<Rightarrow> \<exists>xs ys. ws = xs @ ys \<and>
         frames d cap (unat (rb_tail r)) h xs \<and> frames d cap h p ys
     | Draining hc t \<Rightarrow> rb_tail r \<le> t \<and> 64 dvd unat t \<and> (\<exists>xs ys zs. ws = xs @ ys @ zs \<and>
         frames d cap (unat t) (unat hc) xs \<and> frames d cap (unat hc) h ys \<and> frames d cap h p zs))"

definition prod_view :: "features \<Rightarrow> ring \<Rightarrow> producer_pc \<Rightarrow> bool" where
  "prod_view ft r ppc \<longleftrightarrow>
    (let d = rb_data r; cap = rb_capacity r; p = unat (producer_head ft r) in
     case ppc of
       Idle \<Rightarrow> rb_live r
     | Exited \<Rightarrow> \<not> rb_live r
     | Writing v xs i \<Rightarrow> rb_live r \<and> wire_ok xs \<and> i \<le> length xs \<and>
         res_ptr v = start_pos cap p (length xs) mod cap \<and>
         unat (res_head v) = end_pos cap p (length xs) \<and>
         end_pos cap p (length xs) < unat (rb_tail r) + cap \<and>
         frames d cap p (start_pos cap p (length xs)) [] \<and>
         slice d (res_ptr v) i = take i xs)"

definition ring_view :: "features \<Rightarrow> ring \<Rightarrow> bool" where
  "ring_view ft r \<longleftrightarrow> ring_wf r \<and> rb_tail_cache r \<le> rb_tail r \<and> rb_head_cache r = rb_tail r \<and>
     64 dvd unat (rb_tail r) \<and> 64 dvd unat (rb_head r) \<and> 64 dvd unat (producer_head ft r) \<and>
     unat (producer_head ft r) < unat (rb_tail r) + rb_capacity r"

definition spsc_inv :: "features \<Rightarrow> spsc \<Rightarrow> bool" where
  "spsc_inv ft s \<longleftrightarrow>
     ring_view ft (sp_ring s) \<and> prod_view ft (sp_ring s) (sp_prod s) \<and>
     unat (producer_head ft (sp_ring s)) \<le> 131072 * length (sent s) \<and>
     (\<exists>ws. sent s = got s @ ws \<and> drain_view ft (sp_ring s) (sp_drain s) ws)"

section \<open>Every step keeps the invariant\<close>

lemma blit_pos_other:
  fixes d :: bytes
  assumes "length d = cap" "q mod cap + length ys \<le> cap" "i < q" "q + length ys \<le> i + cap"
  shows "blit (q mod cap) ys d ! (i mod cap) = d ! (i mod cap)"
proof -
  have "i mod cap \<noteq> q mod cap + j" if j: "j < length ys" for j
  proof -
    have "(q + j) mod cap = q mod cap + j" using assms(2) j by (intro mod_add_small) simp
    moreover have "i mod cap \<noteq> (q + j) mod cap" using assms(3,4) j by (intro mod_neq) auto
    ultimately show ?thesis by simp
  qed
  then have "\<not> (q mod cap \<le> i mod cap \<and> i mod cap < q mod cap + length ys)"
    by (metis le_add_diff_inverse nat_add_left_cancel_less)
  moreover have "i mod cap < cap" using assms by (cases "cap = 0") auto
  ultimately show ?thesis using assms(1,2) by (auto simp: blit_nth)
qed

lemma drain_view_order:
  assumes "drain_view ft r dpc ws"
  shows "rb_tail r \<le> rb_head r" "unat (rb_head r) \<le> unat (producer_head ft r)"
    "dpc = Draining hc t \<Longrightarrow> unat (rb_tail r) \<le> unat t \<and> unat t \<le> unat hc \<and> hc \<le> rb_head r"
  using assms
  by (auto simp: drain_view_def Let_def word_le_nat_alt split: drain_pc.splits dest!: frames_le)

text \<open>Bytes outside the undrained range may change.\<close>

lemma drain_view_data:
  assumes v: "drain_view ft r dpc ws" "ring_view ft r" and d': "length d' = rb_capacity r"
    and same: "\<And>i. unat (rb_tail r) \<le> i \<Longrightarrow> i < unat (producer_head ft r) \<Longrightarrow>
      d' ! (i mod rb_capacity r) = rb_data r ! (i mod rb_capacity r)"
  shows "drain_view ft (r\<lparr>rb_data := d', rb_tail_cache := c\<rparr>) dpc ws"
proof -
  let ?d = "rb_data r" let ?cap = "rb_capacity r"
  have wf: "ring_wf r" and a: "64 dvd unat (rb_tail r)" "64 dvd unat (rb_head r)"
    using v(2) by (auto simp: ring_view_def)
  have mv: "frames d' ?cap a b rs"
    if "frames ?d ?cap a b rs" "64 dvd a" "unat (rb_tail r) \<le> a" "b \<le> unat (producer_head ft r)"
    for a b rs
    using that ring_wf_cap [OF wf] d' by (intro frames_cong [OF that(1)]) (auto intro!: same)
  have ph: "producer_head ft (r\<lparr>rb_data := d', rb_tail_cache := c\<rparr>) = producer_head ft r"
    by (simp add: producer_head_def)
  note o = drain_view_order [OF v(1)]
  show ?thesis
  proof (cases dpc)
    case Asleep
    then obtain xs ys where "ws = xs @ ys" "frames ?d ?cap (unat (rb_tail r)) (unat (rb_head r)) xs"
      "frames ?d ?cap (unat (rb_head r)) (unat (producer_head ft r)) ys"
      using v(1) by (auto simp: drain_view_def Let_def)
    then show ?thesis
      using Asleep o a by (auto simp: drain_view_def Let_def ph word_le_nat_alt intro!: mv)
  next
    case (Draining hc t)
    then obtain xs ys zs where w: "ws = xs @ ys @ zs" "rb_tail r \<le> t" "64 dvd unat t"
      and f: "frames ?d ?cap (unat t) (unat hc) xs" "frames ?d ?cap (unat hc) (unat (rb_head r)) ys"
        "frames ?d ?cap (unat (rb_head r)) (unat (producer_head ft r)) zs"
      using v(1) by (auto simp: drain_view_def Let_def)
    have hc: "64 dvd unat hc" using frames_dvd [OF f(1)] ring_wf_cap(2) [OF wf] w(3) by blast
    have "frames d' ?cap (unat t) (unat hc) xs" "frames d' ?cap (unat hc) (unat (rb_head r)) ys"
      "frames d' ?cap (unat (rb_head r)) (unat (producer_head ft r)) zs"
      using f o w(2,3) a hc frames_le [OF f(1)] frames_le [OF f(2)]
      by (auto intro!: mv simp: word_le_nat_alt)
    then show ?thesis using Draining w by (auto simp: drain_view_def Let_def ph)
  qed
qed

text \<open>Publishing a complete record extends what the drain has to read.\<close>

lemma drain_view_extend:
  assumes "drain_view ft r dpc ws"
    and "frames (rb_data r) (rb_capacity r) (unat (producer_head ft r)) (unat e) [x]"
    and "rb_data r' = rb_data r" "rb_capacity r' = rb_capacity r" "rb_tail r' = rb_tail r"
    and "producer_head ft r' = e" "rb_head r' = rb_head r \<or> rb_head r' = e"
  shows "drain_view ft r' dpc (ws @ [x])"
proof (cases dpc)
  case Asleep
  then obtain xs ys where ws: "ws = xs @ ys"
    and f: "frames (rb_data r) (rb_capacity r) (unat (rb_tail r)) (unat (rb_head r)) xs"
      "frames (rb_data r) (rb_capacity r) (unat (rb_head r)) (unat (producer_head ft r)) ys"
    using assms(1) by (auto simp: drain_view_def Let_def)
  note yx = frames_append [OF f(2) assms(2)]
  show ?thesis
  proof (cases "rb_head r' = e")
    case True
    have "ws @ [x] = (xs @ ys @ [x]) @ []" using ws by simp
    then show ?thesis
      using Asleep True assms(3-6) frames_append [OF f(1) yx] frames_nil
      by (simp only: drain_view_def Let_def drain_pc.case) (metis frames_nil)
  next
    case False
    then have "rb_head r' = rb_head r" using assms(7) by blast
    then show ?thesis
      using Asleep assms(3-6) f(1) yx ws by (auto simp: drain_view_def Let_def)
  qed
next
  case (Draining hc t)
  then obtain xs ys zs where w: "ws = xs @ ys @ zs" "rb_tail r \<le> t" "64 dvd unat t"
    and f: "frames (rb_data r) (rb_capacity r) (unat t) (unat hc) xs"
      "frames (rb_data r) (rb_capacity r) (unat hc) (unat (rb_head r)) ys"
      "frames (rb_data r) (rb_capacity r) (unat (rb_head r)) (unat (producer_head ft r)) zs"
    using assms(1) by (auto simp: drain_view_def Let_def)
  note zx = frames_append [OF f(3) assms(2)]
  show ?thesis
  proof (cases "rb_head r' = e")
    case True
    have "ws @ [x] = xs @ (ys @ zs @ [x]) @ []" using w by simp
    moreover have "frames (rb_data r) (rb_capacity r) (unat hc) (unat e) (ys @ zs @ [x])"
      by (rule frames_append [OF f(2) zx])
    ultimately show ?thesis
      using Draining True assms(3-6) w(2,3) f(1) frames_nil
      by (simp only: drain_view_def Let_def drain_pc.case) blast
  next
    case False
    then have "rb_head r' = rb_head r" using assms(7) by blast
    then show ?thesis
      using Draining assms(3-6) w f zx by (auto simp: drain_view_def Let_def)
  qed
qed

lemma producer_head_simps [simp]:
  "producer_head ft (r\<lparr>rb_data := d\<rparr>) = producer_head ft r"
  "producer_head ft (r\<lparr>rb_tail_cache := c\<rparr>) = producer_head ft r"
  "producer_head ft (set_dead r) = producer_head ft r"
  "producer_head ft (poke i b r) = producer_head ft r"
  "producer_head ft (drain_end t hc r) = producer_head ft r"
  "watermark_head ft \<Longrightarrow> producer_head ft (flush_watermark r) = producer_head ft r"
  by (simp_all add: producer_head_def set_dead_def poke_def drain_end_def flush_watermark_def)

lemma publish_producer_head [simp]: "producer_head ft (publish ft v r) = res_head v"
  by (simp add: producer_head_def publish_def flush_watermark_def Let_def)

lemma publish_fields [simp]:
  "rb_data (publish ft v r) = rb_data r" "rb_capacity (publish ft v r) = rb_capacity r"
  "rb_tail (publish ft v r) = rb_tail r" "rb_tail_cache (publish ft v r) = rb_tail_cache r"
  "rb_head_cache (publish ft v r) = rb_head_cache r" "rb_mask (publish ft v r) = rb_mask r"
  "rb_live (publish ft v r) = rb_live r"
  by (simp_all add: publish_def flush_watermark_def Let_def)

lemma publish_wf: "ring_wf r \<Longrightarrow> ring_wf (publish ft v r)"
  by (simp add: ring_wf_def)

lemma publish_head: "rb_head (publish ft v r) = rb_head r \<or> rb_head (publish ft v r) = res_head v"
  by (simp add: publish_def flush_watermark_def Let_def)

text \<open>Inside the space check's budget a reservation lands on bytes the drain has given up.\<close>

lemma wire_ok_size: "wire_ok xs \<Longrightarrow> length xs \<le> 65535 \<and> 0 < length xs"
  by (auto simp: wire_ok_def record_consts)

lemma reserve_keeps:
  assumes v: "ring_view ft r" and dv: "drain_view ft r dpc ws"
    and room: "unat (producer_head ft r) + 131072 < 2 ^ 64" and n: "n \<le> 65535"
    and res: "reserve ft [] r n policy = Some (r', None)"
  shows "r' = r\<lparr>rb_tail_cache := rb_tail r\<rparr>"
proof -
  have wf: "ring_wf r" and tc: "unat (rb_tail_cache r) \<le> unat (rb_tail r)"
    using v by (auto simp: ring_view_def word_le_nat_alt)
  have tl: "unat (rb_tail r) \<le> unat (producer_head ft r)"
    using drain_view_order [OF dv] by (simp add: word_le_nat_alt)
  show ?thesis
    using res unfolding reserve_spec [OF wf n refl room tc tl] by (simp split: if_splits)
qed

lemma reserve_gives:
  assumes v: "ring_view ft r" and dv: "drain_view ft r dpc ws"
    and room: "unat (producer_head ft r) + 131072 < 2 ^ 64" and n: "n \<le> 65535" "0 < n"
    and res: "reserve ft [] r n policy = Some (r', Some s)"
  defines "p \<equiv> unat (producer_head ft r)" and "cap \<equiv> rb_capacity r"
  obtains d c where "r' = r\<lparr>rb_data := d, rb_tail_cache := c\<rparr>" "c \<le> rb_tail r" "length d = cap"
    "res_ptr s = start_pos cap p n mod cap" "unat (res_head s) = end_pos cap p n"
    "end_pos cap p n < unat (rb_tail r) + cap" "frames d cap p (start_pos cap p n) []"
    "\<And>i. unat (rb_tail r) \<le> i \<Longrightarrow> i < p \<Longrightarrow> d ! (i mod cap) = rb_data r ! (i mod cap)"
proof -
  have wf: "ring_wf r" and tc: "unat (rb_tail_cache r) \<le> unat (rb_tail r)"
    using v by (auto simp: ring_view_def word_le_nat_alt)
  note cap = ring_wf_cap [OF wf, folded cap_def]
  have tl: "unat (rb_tail r) \<le> p"
    using drain_view_order [OF dv] by (simp add: word_le_nat_alt p_def)
  define e where "e = end_pos cap p n"
  define d where "d = (if wraps cap p n
      then write_eob (p mod cap) (word_of_nat (cap - p mod cap)) (rb_data r) else rb_data r)"
  define c where "c = rb_tail_cache r'"
  have eq: "reserve ft [] r n policy =
    (if e - unat (rb_tail_cache r) < cap \<and> fast_tail_cache ft
       then Some (r\<lparr>rb_data := d\<rparr>, Some \<lparr>res_ptr = start_pos cap p n mod cap, res_head = word_of_nat e\<rparr>)
     else if e - unat (rb_tail r) < cap
       then Some (r\<lparr>rb_tail_cache := rb_tail r, rb_data := d\<rparr>,
                  Some \<lparr>res_ptr = start_pos cap p n mod cap, res_head = word_of_nat e\<rparr>)
     else if policy = Block \<and> rb_live r then None
     else Some (r\<lparr>rb_tail_cache := rb_tail r\<rparr>, None))"
    unfolding e_def d_def cap_def p_def
    by (rule reserve_spec [OF wf n(1) refl room tc tl [unfolded p_def]])
  have e64: "e < 2 ^ 64"
    using end_pos_bound(1-3) [OF n(1), where p = p and cap = cap] room by (simp add: e_def p_def)
  have s: "s = \<lparr>res_ptr = start_pos cap p n mod cap, res_head = word_of_nat e\<rparr>"
    and r': "r' = r\<lparr>rb_data := d, rb_tail_cache := c\<rparr>" and ct: "c \<le> rb_tail r"
    and fit: "e - unat (rb_tail r) < cap"
    using res tc unfolding eq c_def by (auto split: if_splits simp: word_le_nat_alt)
  have pe: "p + slots n \<le> e" using end_pos_bound(1) [OF n(1), where p = p and cap = cap] by (simp add: e_def end_pos_def)
  then have fit': "e < unat (rb_tail r) + cap" using fit tl slots_pos [OF n(2)] by linarith
  have eob: "p mod cap + 4 \<le> cap" "p + (cap - p mod cap) \<le> e" if "wraps cap p n"
  proof -
    have "64 dvd cap - p mod cap" using cap(2) v by (simp add: ring_view_def p_def dvd_mod)
    moreover have "p mod cap < cap" using cap(1) by simp
    ultimately show "p mod cap + 4 \<le> cap" by (auto dest!: dvd_imp_le)
    show "p + (cap - p mod cap) \<le> e" using that by (simp add: e_def end_pos_def start_pos_def)
  qed
  have len: "length d = cap"
    using eob(1) cap(4) by (simp add: d_def write_eob_def)
  have fr: "frames d cap p (start_pos cap p n) []"
  proof (rule frames_to_start)
    assume "wraps cap p n"
    then show "slice d (p mod cap) 4 =
        [VERSION, END_OF_BUFFER] @ u16_to_le (word_of_nat (cap - p mod cap))"
      using eob(1) cap(4)
        slice_blit_same [of "p mod cap" "[VERSION, END_OF_BUFFER] @ u16_to_le (word_of_nat (cap - p mod cap))"
          "rb_data r"]
      by (simp add: d_def write_eob_def)
  qed (use cap(1) n in auto)
  have same: "d ! (i mod cap) = rb_data r ! (i mod cap)" if "unat (rb_tail r) \<le> i" "i < p" for i
    using eob that cap(4) fit' pe
    by (auto simp: d_def write_eob_def intro!: blit_pos_other)
  show thesis
    by (rule that [OF r' ct len _ _ _ fr same])
      (use s e64 fit' in \<open>simp_all add: e_def unat_of_nat\<close>)
qed

lemma ring_view_data:
  "ring_view ft r \<Longrightarrow> length d = rb_capacity r \<Longrightarrow> c \<le> rb_tail r \<Longrightarrow>
   ring_view ft (r\<lparr>rb_data := d, rb_tail_cache := c\<rparr>)"
  by (auto simp: ring_view_def ring_wf_def producer_head_def)

lemma writing_room:
  assumes "prod_view ft r (Writing v xs i)" "ring_view ft r"
    and tl: "unat (rb_tail r) \<le> unat (producer_head ft r)"
  defines "cap \<equiv> rb_capacity r"
  defines "q \<equiv> start_pos cap (unat (producer_head ft r)) (length xs)"
  shows "res_ptr v = q mod cap" "res_ptr v + length xs \<le> cap" "slots (length xs) \<le> cap"
    "unat (producer_head ft r) \<le> q" "q + length xs < unat (rb_tail r) + cap"
    "j < length xs \<Longrightarrow> (q + j) mod cap = res_ptr v + j"
proof -
  let ?p = "unat (producer_head ft r)" let ?n = "length xs"
  have wf: "ring_wf r" and ok: "wire_ok xs" and e: "end_pos cap ?p ?n < unat (rb_tail r) + cap"
    and ptr: "res_ptr v = q mod cap"
    using assms by (auto simp: ring_view_def prod_view_def Let_def)
  note cap = ring_wf_cap [OF wf, folded cap_def]
  have n: "?n \<le> 65535" "0 < ?n" using wire_ok_size [OF ok] by auto
  show pq: "?p \<le> q" using end_pos_bound(1) [OF n(1), where p = ?p and cap = cap] by (simp add: q_def)
  show "q + ?n < unat (rb_tail r) + cap"
    using e slots_ge [of ?n] by (simp add: end_pos_def q_def)
  show sl: "slots ?n \<le> cap" using e pq tl by (simp add: end_pos_def q_def)
  then have "q mod cap + slots ?n \<le> cap" unfolding q_def using cap(1) by (intro start_pos_fits) auto
  then show "res_ptr v + ?n \<le> cap" using ptr slots_ge [of ?n] by simp
  then show "(q + j) mod cap = res_ptr v + j" if "j < ?n"
    using ptr that by (simp add: mod_add_small)
  show "res_ptr v = q mod cap" by (rule ptr)
qed

lemma slice_Suc_update:
  fixes d :: bytes
  assumes "off + i < length d"
  shows "slice (d[off + i := b]) off (Suc i) = slice d off i @ [b]"
  using assms by (simp add: slice_def take_Suc_conv_app_nth drop_update_swap)

text \<open>The byte stores of the copy.\<close>

lemma poke_keeps:
  assumes pv: "prod_view ft r (Writing v xs i)" and rv: "ring_view ft r"
    and dv: "drain_view ft r dpc ws" and i: "i < length xs"
  shows "prod_view ft (poke (res_ptr v + i) (xs ! i) r) (Writing v xs (Suc i))"
    "ring_view ft (poke (res_ptr v + i) (xs ! i) r)"
    "drain_view ft (poke (res_ptr v + i) (xs ! i) r) dpc ws"
proof -
  let ?p = "unat (producer_head ft r)" let ?cap = "rb_capacity r"
  let ?q = "start_pos ?cap ?p (length xs)"
  have tl: "unat (rb_tail r) \<le> ?p" using drain_view_order [OF dv] by (simp add: word_le_nat_alt)
  note w = writing_room [OF pv rv tl]
  have wf: "ring_wf r" using rv by (simp add: ring_view_def)
  note cap = ring_wf_cap [OF wf]
  define d where "d = (rb_data r)[res_ptr v + i := xs ! i]"
  have poke: "poke (res_ptr v + i) (xs ! i) r = r\<lparr>rb_data := d, rb_tail_cache := rb_tail_cache r\<rparr>"
    by (simp add: poke_def d_def)
  have len: "length d = ?cap" by (simp add: d_def cap)
  have inb: "res_ptr v + i < ?cap" using w(2) i by simp
  have same: "d ! (k mod ?cap) = rb_data r ! (k mod ?cap)"
    if "unat (rb_tail r) \<le> k" "k < ?q + i" for k
  proof -
    have "k mod ?cap \<noteq> (?q + i) mod ?cap" using that w(5) i by (intro mod_neq) auto
    then show ?thesis using w(6) [OF i] by (simp add: d_def)
  qed
  show "ring_view ft (poke (res_ptr v + i) (xs ! i) r)"
    unfolding poke using rv len by (intro ring_view_data) (auto simp: ring_view_def)
  show "drain_view ft (poke (res_ptr v + i) (xs ! i) r) dpc ws"
    unfolding poke using dv rv len w(4) by (intro drain_view_data) (auto intro!: same)
  have fr: "frames (rb_data r) ?cap ?p ?q []" using pv by (simp add: prod_view_def Let_def)
  have "frames d ?cap ?p ?q []"
    by (rule frames_cong [OF fr cap(4) len cap(2)])
      (use rv tl in \<open>auto simp: ring_view_def intro!: same\<close>)
  moreover have "slice (rb_data r) (res_ptr v) i = take i xs"
    using pv by (auto simp: prod_view_def Let_def)
  then have "slice d (res_ptr v) (Suc i) = take (Suc i) xs"
    using i inb cap(4) by (simp add: d_def slice_Suc_update take_Suc_conv_app_nth)
  ultimately show "prod_view ft (poke (res_ptr v + i) (xs ! i) r) (Writing v xs (Suc i))"
    unfolding poke using pv i by (auto simp: prod_view_def Let_def)
qed

lemma publish_keeps:
  assumes pv: "prod_view ft r (Writing v xs (length xs))" and rv: "ring_view ft r"
    and dv: "drain_view ft r dpc ws"
  shows "prod_view ft (publish ft v r) Idle" "ring_view ft (publish ft v r)"
    "drain_view ft (publish ft v r) dpc (ws @ [xs])"
    "unat (producer_head ft (publish ft v r)) \<le> unat (producer_head ft r) + 131072"
proof -
  let ?p = "unat (producer_head ft r)" let ?cap = "rb_capacity r"
  let ?q = "start_pos ?cap ?p (length xs)"
  have tl: "unat (rb_tail r) \<le> ?p" using drain_view_order [OF dv] by (simp add: word_le_nat_alt)
  note w = writing_room [OF pv rv tl]
  have wf: "ring_wf r" using rv by (simp add: ring_view_def)
  note cap = ring_wf_cap [OF wf]
  have ok: "wire_ok xs" and e: "unat (res_head v) = end_pos ?cap ?p (length xs)"
    and elt: "end_pos ?cap ?p (length xs) < unat (rb_tail r) + ?cap"
    and fr: "frames (rb_data r) ?cap ?p ?q []" and sl: "slice (rb_data r) (res_ptr v) (length xs) = xs"
    using pv by (auto simp: prod_view_def Let_def)
  have "frames (rb_data r) ?cap ?p (unat (res_head v)) [xs]"
    unfolding e using w(1,3) ok fr sl cap(1) by (intro frames_record) auto
  then show "drain_view ft (publish ft v r) dpc (ws @ [xs])"
    using dv publish_head by (intro drain_view_extend [where e = "res_head v"]) simp_all
  show "unat (producer_head ft (publish ft v r)) \<le> ?p + 131072"
    using end_pos_bound(1-3) [of "length xs", where p = ?p and cap = ?cap] wire_ok_size [OF ok] e
    by simp
  have "64 dvd unat (res_head v)"
    unfolding e using cap(2) rv by (intro dvd_start_pos) (auto simp: ring_view_def)
  then show "ring_view ft (publish ft v r)"
    using rv elt e publish_head [of ft v r] by (auto simp: ring_view_def ring_wf_def)
  show "prod_view ft (publish ft v r) Idle" using pv by (simp add: prod_view_def Let_def)
qed

text \<open>The drain's side: entering a pass, a turn, leaving the pass.\<close>

lemma drain_begin_keeps:
  assumes pv: "prod_view ft r ppc" and rv: "ring_view ft r" and dv: "drain_view ft r Asleep ws"
    and b: "drain_begin ft r = (r', hc)"
  shows "prod_view ft r' ppc" "ring_view ft r'" "producer_head ft r' = producer_head ft r"
    "drain_view ft r' (if rb_tail r' = hc then Asleep else Draining hc (rb_tail r')) ws"
proof -
  define fl where "fl \<longleftrightarrow> watermark_head ft \<and> \<not> rb_live r"
  have r': "r' = (if fl then flush_watermark r else r)" and hc: "hc = rb_head r'"
    using b rv by (auto simp: drain_begin_def Let_def fl_def ring_view_def flush_watermark_def)
  have same: "rb_data r' = rb_data r" "rb_capacity r' = rb_capacity r" "rb_tail r' = rb_tail r"
    "rb_live r' = rb_live r" "rb_tail_cache r' = rb_tail_cache r" "rb_mask r' = rb_mask r"
    "rb_head_cache r' = rb_head_cache r"
    by (simp_all add: r' flush_watermark_def)
  show ph: "producer_head ft r' = producer_head ft r"
    by (simp add: r' fl_def)
  have hd: "rb_head r' = rb_head r \<or> rb_head r' = producer_head ft r"
    by (auto simp: r' fl_def flush_watermark_def producer_head_def)
  then show "ring_view ft r'" using rv by (auto simp: ring_view_def ring_wf_def same ph)
  show "prod_view ft r' ppc" using pv by (cases ppc) (auto simp: prod_view_def Let_def same ph)
  obtain xs ys where w: "ws = xs @ ys"
    and f: "frames (rb_data r) (rb_capacity r) (unat (rb_tail r)) (unat (rb_head r)) xs"
      "frames (rb_data r) (rb_capacity r) (unat (rb_head r)) (unat (producer_head ft r)) ys"
    using dv by (auto simp: drain_view_def Let_def)
  obtain xs' ys' where w': "ws = xs' @ ys'"
    and f': "frames (rb_data r') (rb_capacity r') (unat (rb_tail r')) (unat (rb_head r')) xs'"
      "frames (rb_data r') (rb_capacity r') (unat (rb_head r')) (unat (producer_head ft r')) ys'"
    using hd
  proof (elim disjE)
    assume "rb_head r' = rb_head r"
    then show thesis using that [of xs ys] w f by (simp add: same ph)
  next
    assume "rb_head r' = producer_head ft r"
    then show thesis
      using that [of ws "[]"] w frames_append [OF f] frames_nil by (simp add: same ph)
  qed
  have "64 dvd unat (rb_tail r')" using rv by (simp add: same ring_view_def)
  then show "drain_view ft r' (if rb_tail r' = hc then Asleep else Draining hc (rb_tail r')) ws"
    using w' f' frames_nil [of "rb_data r'" "rb_capacity r'" "unat hc"]
    by (simp add: drain_view_def Let_def hc) (metis append_Nil frames_nil)
qed

lemma drain_turn_keeps:
  assumes rv: "ring_view ft r" and dv: "drain_view ft r (Draining hc t) ws" and lt: "t < hc"
  shows "(\<exists>x ws' t'. ws = x # ws' \<and> drain_iter (rb_data r) (rb_capacity r) hc t =
            Deliver x (record_level x) t' \<and> t < t' \<and> drain_view ft r (Draining hc t') ws') \<or>
         (\<exists>t'. drain_iter (rb_data r) (rb_capacity r) hc t = Skip t' \<and> t < t' \<and>
            drain_view ft r (Draining hc t') ws)"
proof -
  have wf: "ring_wf r" using rv by (simp add: ring_view_def)
  note cap = ring_wf_cap [OF wf]
  obtain xs ys zs where w: "ws = xs @ ys @ zs" "rb_tail r \<le> t" "64 dvd unat t"
    and f: "frames (rb_data r) (rb_capacity r) (unat t) (unat hc) xs"
      "frames (rb_data r) (rb_capacity r) (unat hc) (unat (rb_head r)) ys"
      "frames (rb_data r) (rb_capacity r) (unat (rb_head r)) (unat (producer_head ft r)) zs"
    using dv by (auto simp: drain_view_def Let_def)
  have off: "unat (t AND word_of_nat (rb_capacity r - 1)) = unat t mod rb_capacity r"
    using cap(6) wf by (simp add: ring_wf_def)
  have c0: "0 < rb_capacity r" using cap(1) by simp
  have view: "drain_view ft r (Draining hc t') (xs' @ ys @ zs)"
    if "unat t < unat t'" "64 dvd unat t'" "frames (rb_data r) (rb_capacity r) (unat t') (unat hc) xs'"
    for t' xs'
  proof -
    have "rb_tail r \<le> t'" using that(1) w(2) by (simp add: word_le_nat_alt)
    then show ?thesis using that f by (auto simp: drain_view_def Let_def)
  qed
  from drain_iter_frames [OF f(1) lt off cap(4,2) w(3) c0]
  consider (r) x xs' t' where "xs = x # xs'"
      "drain_iter (rb_data r) (rb_capacity r) hc t = Deliver x (record_level x) t'"
      "unat t' = unat t + slots (length x)" "wire_ok x"
      "frames (rb_data r) (rb_capacity r) (unat t') (unat hc) xs'"
    | (e) t' where "drain_iter (rb_data r) (rb_capacity r) hc t = Skip t'" "unat t < unat t'"
      "64 dvd unat t'" "frames (rb_data r) (rb_capacity r) (unat t') (unat hc) xs"
    by auto
  then show ?thesis
  proof cases
    case r
    have "drain_view ft r (Draining hc t') (xs' @ ys @ zs)"
      using r(3,5) wire_ok_slots [OF r(4)] w(3) by (intro view) simp_all
    moreover have "t < t'" using r(3) wire_ok_slots [OF r(4)] by (simp add: word_less_nat_alt)
    ultimately show ?thesis using r(1,2) w(1) by auto
  next
    case e
    then show ?thesis using view [OF e(2-4)] w(1) by (auto simp: word_less_nat_alt)
  qed
qed

lemma drain_end_keeps:
  assumes pv: "prod_view ft r ppc" and rv: "ring_view ft r"
    and dv: "drain_view ft r (Draining hc t) ws" and lt: "\<not> t < hc"
  shows "prod_view ft (drain_end t hc r) ppc" "ring_view ft (drain_end t hc r)"
    "drain_view ft (drain_end t hc r) Asleep ws"
proof -
  have wf: "ring_wf r" using rv by (simp add: ring_view_def)
  obtain xs ys zs where w: "ws = xs @ ys @ zs" "rb_tail r \<le> t" "64 dvd unat t"
    and f: "frames (rb_data r) (rb_capacity r) (unat t) (unat hc) xs"
      "frames (rb_data r) (rb_capacity r) (unat hc) (unat (rb_head r)) ys"
      "frames (rb_data r) (rb_capacity r) (unat (rb_head r)) (unat (producer_head ft r)) zs"
    using dv by (auto simp: drain_view_def Let_def)
  have t: "t = hc" using frames_le [OF f(1)] lt by (simp add: word_less_nat_alt word_unat_eq_iff)
  then have xs: "xs = []" using f(1) frames_refl_Nil by blast
  show "drain_view ft (drain_end t hc r) Asleep ws"
    using f w(1) xs t
    by (auto simp: drain_view_def Let_def) (auto simp: drain_end_def)
  have le: "unat (rb_tail r) \<le> unat t" using w(2) by (simp add: word_le_nat_alt)
  show "ring_view ft (drain_end t hc r)"
    using rv w(2,3) le t by (auto simp: ring_view_def) (auto simp: drain_end_def ring_wf_def)
  show "prod_view ft (drain_end t hc r) ppc"
    using pv le by (auto simp: prod_view_def Let_def drain_end_def producer_head_def split: producer_pc.splits)
qed

lemma set_dead_fields [simp]:
  "rb_data (set_dead r) = rb_data r" "rb_capacity (set_dead r) = rb_capacity r"
  "rb_tail (set_dead r) = rb_tail r" "rb_head (set_dead r) = rb_head r"
  "rb_tail_cache (set_dead r) = rb_tail_cache r" "rb_head_cache (set_dead r) = rb_head_cache r"
  "rb_mask (set_dead r) = rb_mask r" "\<not> rb_live (set_dead r)"
  by (simp_all add: set_dead_def)

lemma spsc_init_inv:
  assumes "with_capacity cap = Some r" "cap < 2 ^ 64"
  shows "spsc_inv ft (spsc_init r)"
proof -
  have wf: "ring_wf r" by (rule with_capacity_wf [OF assms])
  have r: "r = from_storage (replicate cap 0) cap False"
    using assms(1) by (auto simp: with_capacity_def split: if_splits)
  have fields: "producer_head ft r = 0" "rb_head r = 0" "rb_tail r = 0" "rb_tail_cache r = 0"
    "rb_head_cache r = 0" "rb_live r"
    by (simp_all add: r producer_head_def from_storage_def)
  have "frames (rb_data r) (rb_capacity r) 0 0 []" by (rule frames_nil)
  moreover have "0 < rb_capacity r" using ring_wf_cap(1) [OF wf] by simp
  ultimately show ?thesis
    using wf
    by (simp add: spsc_inv_def ring_view_def prod_view_def drain_view_def spsc_init_def Let_def fields)
qed

lemma spsc_step_inv:
  assumes "spsc_step ft policy s s'" "spsc_inv ft s" "length (sent s) < 2 ^ 46"
  shows "spsc_inv ft s'"
proof -
  let ?r = "sp_ring s"
  obtain ws where rv: "ring_view ft ?r" and pv: "prod_view ft ?r (sp_prod s)"
    and le: "unat (producer_head ft ?r) \<le> 131072 * length (sent s)"
    and ws: "sent s = got s @ ws" and dv: "drain_view ft ?r (sp_drain s) ws"
    using assms(2) by (auto simp: spsc_inv_def)
  have room: "unat (producer_head ft ?r) + 131072 < 2 ^ 64" using le assms(3) by simp
  show ?thesis
    using assms(1)
  proof cases
    case (reserve_some xs r' v)
    have n: "length xs \<le> 65535" "0 < length xs" using wire_ok_size [OF reserve_some(3)] by auto
    from reserve_gives [OF rv dv room n reserve_some(4)] obtain d c where
      r': "r' = ?r\<lparr>rb_data := d, rb_tail_cache := c\<rparr>" and c: "c \<le> rb_tail ?r"
      and d: "length d = rb_capacity ?r"
      and v: "res_ptr v = start_pos (rb_capacity ?r) (unat (producer_head ft ?r)) (length xs) mod rb_capacity ?r"
        "unat (res_head v) = end_pos (rb_capacity ?r) (unat (producer_head ft ?r)) (length xs)"
        "end_pos (rb_capacity ?r) (unat (producer_head ft ?r)) (length xs) < unat (rb_tail ?r) + rb_capacity ?r"
        "frames d (rb_capacity ?r) (unat (producer_head ft ?r))
           (start_pos (rb_capacity ?r) (unat (producer_head ft ?r)) (length xs)) []"
      and same: "\<And>i. unat (rb_tail ?r) \<le> i \<Longrightarrow> i < unat (producer_head ft ?r) \<Longrightarrow>
        d ! (i mod rb_capacity ?r) = rb_data ?r ! (i mod rb_capacity ?r)" by blast
    have "ring_view ft r'" unfolding r' by (rule ring_view_data [OF rv d c])
    moreover have "drain_view ft r' (sp_drain s) ws" unfolding r' by (rule drain_view_data [OF dv rv d same])
    moreover have "prod_view ft r' (Writing v xs 0)"
      using pv v reserve_some(2,3) by (simp add: prod_view_def Let_def r' slice_def)
    ultimately show ?thesis
      using reserve_some(1) le ws by (auto simp: spsc_inv_def r')
  next
    case (reserve_none xs r')
    have "length xs \<le> 65535" using wire_ok_size [OF reserve_none(3)] by auto
    then have "r' = ?r\<lparr>rb_data := rb_data ?r, rb_tail_cache := rb_tail ?r\<rparr>"
      using reserve_keeps [OF rv dv room _ reserve_none(4)] by simp
    then show ?thesis
      using reserve_none(1,2) pv le ws ring_view_data [OF rv, of "rb_data ?r" "rb_tail ?r"]
        drain_view_data [OF dv rv, of "rb_data ?r" "rb_tail ?r"] rv
      by (auto simp: spsc_inv_def prod_view_def ring_view_def ring_wf_def)
  next
    case (write_byte v xs i)
    then show ?thesis
      using poke_keeps [OF pv [unfolded write_byte(2)] rv dv write_byte(3)] le ws
      by (auto simp: spsc_inv_def)
  next
    case (publish_record v xs)
    then show ?thesis
      using publish_keeps [OF pv [unfolded publish_record(2)] rv dv] le ws
      by (auto simp: spsc_inv_def)
  next
    case exit_thread
    then show ?thesis
      using rv pv dv le ws
      by (cases "sp_drain s")
        (auto simp: spsc_inv_def ring_view_def prod_view_def drain_view_def ring_wf_def Let_def)
  next
    case (drain_enter r' hc)
    then show ?thesis
      using drain_begin_keeps [OF pv rv dv [unfolded drain_enter(2)] drain_enter(3)] le ws
      by (auto simp: spsc_inv_def)
  next
    case (drain_turn hc t t')
    then show ?thesis
      using drain_turn_keeps [OF rv dv [unfolded drain_turn(2)] drain_turn(3)] rv pv le ws
      by (auto simp: spsc_inv_def)
  next
    case (drain_deliver hc t rec l t')
    then show ?thesis
      using drain_turn_keeps [OF rv dv [unfolded drain_deliver(2)] drain_deliver(3)] rv pv le ws
      by (auto simp: spsc_inv_def)
  next
    case (drain_break hc t t')
    then show ?thesis
      using drain_turn_keeps [OF rv dv [unfolded drain_break(2)] drain_break(3)] by auto
  next
    case (drain_leave hc t)
    then show ?thesis
      using drain_end_keeps [OF pv rv dv [unfolded drain_leave(2)] drain_leave(3)] le ws
      by (auto simp: spsc_inv_def)
  qed
qed

lemma spsc_step_sent: "spsc_step ft policy s s' \<Longrightarrow> length (sent s) \<le> length (sent s')"
  by (erule spsc_step.cases) auto

lemma spsc_reachable_inv:
  assumes "with_capacity cap = Some r" "cap < 2 ^ 64" "spsc_reachable ft policy r s"
    "length (sent s) < 2 ^ 46"
  shows "spsc_inv ft s"
  using assms(3,4) unfolding spsc_reachable_def
proof (induction rule: rtranclp_induct)
  case base
  show ?case by (rule spsc_init_inv [OF assms(1,2)])
next
  case (step s s')
  then show ?case using spsc_step_sent [OF step(2)] spsc_step_inv [OF step(2)] by simp
qed

section \<open>Consequences of the invariant\<close>

lemma drain_view_frames:
  assumes "drain_view ft r dpc ws"
  shows "frames (rb_data r) (rb_capacity r)
    (case dpc of Asleep \<Rightarrow> unat (rb_tail r) | Draining hc t \<Rightarrow> unat t) (unat (producer_head ft r)) ws"
  using assms by (auto simp: drain_view_def Let_def split: drain_pc.splits intro: frames_append)

text \<open>An executable scheduler: a list of actions drives both threads.\<close>

datatype act = AReserve bytes | AWrite | APublish | AExit | AEnter | ATurn

fun spsc_act :: "features \<Rightarrow> backpressure \<Rightarrow> act \<Rightarrow> spsc \<Rightarrow> spsc option" where
  "spsc_act ft policy (AReserve xs) s =
     (if sp_prod s \<noteq> Idle \<or> \<not> wire_ok xs then None
      else case reserve ft [] (sp_ring s) (length xs) policy of
        None \<Rightarrow> None
      | Some (r', None) \<Rightarrow> Some (s\<lparr>sp_ring := r', dropped := Suc (dropped s)\<rparr>)
      | Some (r', Some v) \<Rightarrow> Some (s\<lparr>sp_ring := r', sp_prod := Writing v xs 0\<rparr>))"
| "spsc_act ft policy AWrite s =
     (case sp_prod s of
        Writing v xs i \<Rightarrow>
          if i < length xs
          then Some (s\<lparr>sp_ring := poke (res_ptr v + i) (xs ! i) (sp_ring s), sp_prod := Writing v xs (Suc i)\<rparr>)
          else None
      | _ \<Rightarrow> None)"
| "spsc_act ft policy APublish s =
     (case sp_prod s of
        Writing v xs i \<Rightarrow>
          if i = length xs
          then Some (s\<lparr>sp_ring := publish ft v (sp_ring s), sp_prod := Idle, sent := sent s @ [xs]\<rparr>)
          else None
      | _ \<Rightarrow> None)"
| "spsc_act ft policy AExit s =
     (if sp_prod s = Idle then Some (s\<lparr>sp_ring := set_dead (sp_ring s), sp_prod := Exited\<rparr>) else None)"
| "spsc_act ft policy AEnter s =
     (if sp_drain s = Asleep then
        let (r', hc) = drain_begin ft (sp_ring s) in
        Some (s\<lparr>sp_ring := r',
          sp_drain := (if rb_tail r' = hc then Asleep else Draining hc (rb_tail r'))\<rparr>)
      else None)"
| "spsc_act ft policy ATurn s =
     (case sp_drain s of
        Asleep \<Rightarrow> None
      | Draining hc t \<Rightarrow>
          if t < hc then
            (case drain_iter (rb_data (sp_ring s)) (rb_capacity (sp_ring s)) hc t of
               Skip t' \<Rightarrow> Some (s\<lparr>sp_drain := Draining hc t'\<rparr>)
             | Deliver rec l t' \<Rightarrow> Some (s\<lparr>sp_drain := Draining hc t', got := got s @ [rec]\<rparr>)
             | Break t' \<Rightarrow> Some (s\<lparr>sp_ring := drain_end t' hc (sp_ring s), sp_drain := Asleep\<rparr>))
          else Some (s\<lparr>sp_ring := drain_end t hc (sp_ring s), sp_drain := Asleep\<rparr>))"

fun spsc_run :: "features \<Rightarrow> backpressure \<Rightarrow> act list \<Rightarrow> spsc \<Rightarrow> spsc option" where
  "spsc_run ft policy [] s = Some s"
| "spsc_run ft policy (a # as) s = Option.bind (spsc_act ft policy a s) (spsc_run ft policy as)"

lemma spsc_act_step:
  assumes "spsc_act ft policy a s = Some s'"
  shows "spsc_step ft policy s s'"
proof (cases a)
  case AEnter
  then obtain r' hc where "sp_drain s = Asleep" "drain_begin ft (sp_ring s) = (r', hc)"
    "s' = s\<lparr>sp_ring := r', sp_drain := (if rb_tail r' = hc then Asleep else Draining hc (rb_tail r'))\<rparr>"
    using assms by (auto split: if_splits prod.splits)
  then show ?thesis by (simp only: drain_enter)
qed (use assms in \<open>auto split: if_splits option.splits producer_pc.splits drain_pc.splits
      drain_step.splits prod.splits intro: spsc_step.intros\<close>)

lemma spsc_run_reachable:
  "spsc_run ft policy as s = Some s' \<Longrightarrow> (spsc_step ft policy)\<^sup>*\<^sup>* s s'"
  by (induction as arbitrary: s)
    (auto simp: bind_eq_Some_conv intro: converse_rtranclp_into_rtranclp spsc_act_step)

end
