(* ===== verification/Channel.thy ===== *)
theory Channel
  imports Spsc
begin

text \<open>
  What a ring promises to its clients, as an interface: a channel of wire records. The thread
  buffers put records, the drain takes all of them. \<open>holds k r rs\<close> says that \<open>r\<close> carries
  the records \<open>rs\<close> and that \<open>k\<close> more can be put before positions run out of 64 bits.
\<close>

datatype chan_op = Put bytes | Take

text \<open>Running a sequence of operations, collecting what was accepted and what was delivered.\<close>

fun chan_run ::
  "(bytes \<Rightarrow> 'r \<Rightarrow> ('r \<times> bool) option) \<Rightarrow> ('r \<Rightarrow> (bytes list \<times> 'r) option) \<Rightarrow>
   chan_op list \<Rightarrow> 'r \<Rightarrow> bytes list \<Rightarrow> bytes list \<Rightarrow> ('r \<times> bytes list \<times> bytes list) option"
where
  "chan_run put take_all [] r acc del = Some (r, acc, del)"
| "chan_run put take_all (Put x # ops) r acc del =
     (case put x r of
        None \<Rightarrow> None
      | Some (r', ok) \<Rightarrow> chan_run put take_all ops r' (if ok then acc @ [x] else acc) del)"
| "chan_run put take_all (Take # ops) r acc del =
     (case take_all r of
        None \<Rightarrow> None
      | Some (rs, r') \<Rightarrow> chan_run put take_all ops r' acc (del @ rs))"

definition puts_ok :: "chan_op list \<Rightarrow> bool" where
  "puts_ok = list_all (\<lambda>op. case op of Put x \<Rightarrow> wire_ok x | Take \<Rightarrow> True)"

lemma puts_ok_Cons [simp]:
  "puts_ok (Put x # ops) \<longleftrightarrow> wire_ok x \<and> puts_ok ops" "puts_ok (Take # ops) \<longleftrightarrow> puts_ok ops"
  by (simp_all add: puts_ok_def)

locale record_channel =
  fixes holds :: "nat \<Rightarrow> 'r \<Rightarrow> bytes list \<Rightarrow> bool"
    and put :: "bytes \<Rightarrow> 'r \<Rightarrow> ('r \<times> bool) option"
    and take_all :: "'r \<Rightarrow> (bytes list \<times> 'r) option"
  assumes put_accepts:
      "holds (Suc k) r rs \<Longrightarrow> wire_ok x \<Longrightarrow> put x r = Some (r', True) \<Longrightarrow> holds k r' (rs @ [x])"
    and put_refuses:
      "holds (Suc k) r rs \<Longrightarrow> wire_ok x \<Longrightarrow> put x r = Some (r', False) \<Longrightarrow> holds (Suc k) r' rs"
    and take_returns: "holds k r rs \<Longrightarrow> \<exists>r'. take_all r = Some (rs, r') \<and> holds k r' []"
    and holds_mono: "holds (Suc k) r rs \<Longrightarrow> holds k r rs"
begin

lemma run_fifo:
  "chan_run put take_all ops r acc del = Some (r', acc', del') \<Longrightarrow> holds (length ops) r rs \<Longrightarrow> acc = del @ rs \<Longrightarrow>
   puts_ok ops \<Longrightarrow>
   \<exists>rs'. acc' = del' @ rs' \<and> holds 0 r' rs'"
proof (induction ops arbitrary: r acc del rs)
  case (Cons op ops)
  show ?case
  proof (cases op)
    case (Put x)
    then obtain r1 ok where p: "put x r = Some (r1, ok)"
      and run: "chan_run put take_all ops r1 (if ok then acc @ [x] else acc) del = Some (r', acc', del')"
      using Cons.prems(1) by (auto split: option.splits)
    have h: "holds (Suc (length ops)) r rs" and x: "wire_ok x" using Cons.prems Put by auto
    show ?thesis
    proof (cases ok)
      case True
      with h x p have "holds (length ops) r1 (rs @ [x])" by (auto intro: put_accepts)
      then show ?thesis using Cons.IH [of r1 "acc @ [x]" del "rs @ [x]"] run True Cons.prems Put by simp
    next
      case False
      with h x p have "holds (length ops) r1 rs" by (auto intro: put_refuses holds_mono)
      then show ?thesis using Cons.IH [of r1 acc del rs] run False Cons.prems Put by simp
    qed
  next
    case Take
    have "holds (length ops) r rs" using Cons.prems(2) by (auto intro: holds_mono)
    then obtain r1 where t: "take_all r = Some (rs, r1)" "holds (length ops) r1 []"
      using take_returns by blast
    then have "chan_run put take_all ops r1 acc (del @ rs) = Some (r', acc', del')" using Cons.prems(1) Take by simp
    then show ?thesis using Cons.IH [of r1 acc "del @ rs" "[]"] t(2) Cons.prems Take by simp
  qed
qed auto

text \<open>From an empty channel: what was delivered is a prefix of what was accepted, and the next
  \<open>take_all\<close> delivers the rest.\<close>

lemma run_delivers:
  assumes "holds (length ops) r []" "puts_ok ops" "chan_run put take_all ops r [] [] = Some (r', acc, del)"
  shows "\<exists>rs. acc = del @ rs \<and> map_option fst (take_all r') = Some rs"
proof -
  obtain rs where rs: "acc = del @ rs" "holds 0 r' rs" using run_fifo [OF assms(3,1) _ assms(2)] by auto
  with take_returns [OF rs(2)] show ?thesis by auto
qed

end

section \<open>The custom ring is such a channel\<close>

definition ring_put :: "features \<Rightarrow> backpressure \<Rightarrow> bytes \<Rightarrow> ring \<Rightarrow> (ring \<times> bool) option" where
  "ring_put ft policy x r =
     (case reserve ft [] r (length x) policy of
        None \<Rightarrow> None
      | Some (r', None) \<Rightarrow> Some (r', False)
      | Some (r', Some v) \<Rightarrow> Some (publish ft v (store_record v x r'), True))"

definition ring_take :: "features \<Rightarrow> ring \<Rightarrow> (bytes list \<times> ring) option" where
  "ring_take ft r =
     (case drain_ring_inner ft (\<lambda>x l k. Some (k @ [x])) r [] of
        None \<Rightarrow> None
      | Some (had_work, r', rs) \<Rightarrow> Some (rs, r'))"

definition ring_holds :: "features \<Rightarrow> nat \<Rightarrow> ring \<Rightarrow> bytes list \<Rightarrow> bool" where
  "ring_holds ft k r rs \<longleftrightarrow> \<not> watermark_head ft \<and> rb_live r \<and> ring_view ft r \<and>
     drain_view ft r Asleep rs \<and> unat (producer_head ft r) + 131072 * k + 131072 \<le> 2 ^ 64"

lemma store_keeps:
  assumes pv: "prod_view ft r (Writing v xs 0)" and rv: "ring_view ft r" and dv: "drain_view ft r dpc ws"
  shows "prod_view ft (store_record v xs r) (Writing v xs (length xs))"
    "ring_view ft (store_record v xs r)" "drain_view ft (store_record v xs r) dpc ws"
proof -
  let ?p = "unat (producer_head ft r)" let ?cap = "rb_capacity r"
  let ?q = "start_pos ?cap ?p (length xs)"
  have tl: "unat (rb_tail r) \<le> ?p" using drain_view_order [OF dv] by (simp add: word_le_nat_alt)
  note w = writing_room [OF pv rv tl]
  have wf: "ring_wf r" using rv by (simp add: ring_view_def)
  note cap = ring_wf_cap [OF wf]
  define d where "d = blit (res_ptr v) xs (rb_data r)"
  have st: "store_record v xs r = r\<lparr>rb_data := d, rb_tail_cache := rb_tail_cache r\<rparr>"
    by (simp add: store_record_def d_def)
  have len: "length d = ?cap" using w(2) cap(4) by (simp add: d_def)
  have same: "d ! (k mod ?cap) = rb_data r ! (k mod ?cap)" if "unat (rb_tail r) \<le> k" "k < ?q" for k
    unfolding d_def w(1) using that w(1,2,5) cap(4) by (intro blit_pos_other) auto
  show "ring_view ft (store_record v xs r)"
    unfolding st using rv len by (intro ring_view_data) (auto simp: ring_view_def)
  show "drain_view ft (store_record v xs r) dpc ws"
    unfolding st using dv rv len w(4) by (intro drain_view_data) (auto intro!: same)
  have fr: "frames (rb_data r) ?cap ?p ?q []" using pv by (simp add: prod_view_def Let_def)
  have "frames d ?cap ?p ?q []"
    by (rule frames_cong [OF fr cap(4) len cap(2)])
      (use rv tl in \<open>auto simp: ring_view_def intro!: same\<close>)
  moreover have "slice d (res_ptr v) (length xs) = xs" using w(2) cap(4) by (simp add: d_def)
  ultimately show "prod_view ft (store_record v xs r) (Writing v xs (length xs))"
    unfolding st using pv by (auto simp: prod_view_def Let_def)
qed

lemma reserve_opens:
  assumes h: "ring_holds ft (Suc k) r rs" and x: "wire_ok x"
    and res: "reserve ft [] r (length x) policy = Some (r1, Some v)"
  shows "prod_view ft r1 (Writing v x 0)" "ring_view ft r1" "drain_view ft r1 Asleep rs" "rb_live r1"
    "producer_head ft r1 = producer_head ft r"
proof -
  have rv: "ring_view ft r" and dv: "drain_view ft r Asleep rs"
    and lv: "rb_live r" and room: "unat (producer_head ft r) + 131072 < 2 ^ 64"
    using h by (auto simp: ring_holds_def)
  have n: "length x \<le> 65535" "0 < length x" using wire_ok_size [OF x] by auto
  from reserve_gives [OF rv dv room n res] obtain d c where
    r1: "r1 = r\<lparr>rb_data := d, rb_tail_cache := c\<rparr>" and c: "c \<le> rb_tail r" and d: "length d = rb_capacity r"
    and v: "res_ptr v = start_pos (rb_capacity r) (unat (producer_head ft r)) (length x) mod rb_capacity r"
      "unat (res_head v) = end_pos (rb_capacity r) (unat (producer_head ft r)) (length x)"
      "end_pos (rb_capacity r) (unat (producer_head ft r)) (length x) < unat (rb_tail r) + rb_capacity r"
      "frames d (rb_capacity r) (unat (producer_head ft r))
         (start_pos (rb_capacity r) (unat (producer_head ft r)) (length x)) []"
    and same: "\<And>i. unat (rb_tail r) \<le> i \<Longrightarrow> i < unat (producer_head ft r) \<Longrightarrow>
      d ! (i mod rb_capacity r) = rb_data r ! (i mod rb_capacity r)" by blast
  show "ring_view ft r1" unfolding r1 by (rule ring_view_data [OF rv d c])
  show "drain_view ft r1 Asleep rs" unfolding r1 by (rule drain_view_data [OF dv rv d same])
  show "prod_view ft r1 (Writing v x 0)"
    using v lv x by (simp add: prod_view_def Let_def r1 slice_def)
  show "rb_live r1" "producer_head ft r1 = producer_head ft r" using lv by (simp_all add: r1)
qed

text \<open>The reserved slot lies inside the storage.\<close>

lemma reserve_slot_inside:
  assumes "ring_holds ft (Suc k) r rs" "wire_ok x"
    "reserve ft [] r (length x) policy = Some (r1, Some v)"
  shows "res_ptr v + length x \<le> length (rb_data r1)"
proof -
  note o = reserve_opens [OF assms]
  have "unat (rb_tail r1) \<le> unat (producer_head ft r1)"
    using drain_view_order [OF o(3)] by (simp add: word_le_nat_alt)
  from writing_room(2) [OF o(1,2) this] show ?thesis
    using o(2) ring_wf_cap(4) by (simp add: ring_view_def)
qed

lemma ring_put_accepts:
  assumes h: "ring_holds ft (Suc k) r rs" and x: "wire_ok x" and p: "ring_put ft policy x r = Some (r', True)"
  shows "ring_holds ft k r' (rs @ [x])"
proof -
  have wm: "\<not> watermark_head ft" and room: "unat (producer_head ft r) + 131072 * Suc k + 131072 \<le> 2 ^ 64"
    using h by (auto simp: ring_holds_def)
  obtain r1 v where res: "reserve ft [] r (length x) policy = Some (r1, Some v)"
    and r': "r' = publish ft v (store_record v x r1)"
    using p by (auto simp: ring_put_def split: option.splits)
  note o = reserve_opens [OF h x res]
  note pk = publish_keeps [OF store_keeps [OF o(1-3)]]
  have "producer_head ft (store_record v x r1) = producer_head ft r"
    using o(5) wm by (simp add: store_record_def producer_head_def)
  then have "unat (producer_head ft r') + 131072 * k + 131072 \<le> 2 ^ 64"
    using pk(4) room by (simp add: r')
  then show ?thesis
    using pk wm o(4) by (simp add: ring_holds_def r' store_record_def)
qed

lemma ring_put_refuses:
  assumes h: "ring_holds ft (Suc k) r rs" and x: "wire_ok x" and p: "ring_put ft policy x r = Some (r', False)"
  shows "ring_holds ft (Suc k) r' rs"
proof -
  have rv: "ring_view ft r" and dv: "drain_view ft r Asleep rs"
    and room: "unat (producer_head ft r) + 131072 * Suc k + 131072 \<le> 2 ^ 64"
    using h by (auto simp: ring_holds_def)
  have res: "reserve ft [] r (length x) policy = Some (r', None)"
    using p by (auto simp: ring_put_def split: option.splits)
  have "unat (producer_head ft r) + 131072 < 2 ^ 64" "length x \<le> 65535"
    using room wire_ok_size [OF x] by simp_all
  from reserve_keeps [OF rv dv this res]
  have "r' = r\<lparr>rb_data := rb_data r, rb_tail_cache := rb_tail r\<rparr>" by simp
  then show ?thesis
    using h ring_view_data [OF rv, of "rb_data r" "rb_tail r"] drain_view_data [OF dv rv, of "rb_data r" "rb_tail r"] rv
    by (auto simp: ring_holds_def ring_view_def ring_wf_def)
qed

lemma ring_take_returns:
  assumes "ring_holds ft k r rs"
  shows "\<exists>r'. ring_take ft r = Some (rs, r') \<and> ring_holds ft k r' []"
proof -
  have wm: "\<not> watermark_head ft" and rv: "ring_view ft r" and dv: "drain_view ft r Asleep rs"
    and room: "unat (producer_head ft r) + 131072 * k + 131072 \<le> 2 ^ 64" and lv: "rb_live r"
    using assms by (auto simp: ring_holds_def)
  have b: "drain_begin ft r = (r, rb_head r)"
    using rv wm by (simp add: drain_begin_def ring_view_def Let_def)
  have ph: "producer_head ft r = rb_head r" using wm by (simp add: producer_head_def)
  have f: "frames (rb_data r) (rb_capacity r) (unat (rb_tail r)) (unat (rb_head r)) rs"
    using drain_view_frames [OF dv] by (simp add: ph)
  have wf: "ring_wf r" and al: "64 dvd unat (rb_tail r)" using rv by (auto simp: ring_view_def)
  have del: "deliver_all (\<lambda>x l k. Some (k @ [x])) ws k = Some (k @ ws)" for ws k
    by (induction ws arbitrary: k) auto
  define r' where "r' = (if rb_tail r = rb_head r then r else drain_end (rb_head r) (rb_head r) r)"
  have t: "ring_take ft r = Some (rs, r')"
    using drain_ring_inner_frames [OF wf b al f, of "\<lambda>x l k. Some (k @ [x])" "[]"]
    by (simp add: ring_take_def del r'_def)
  have fields: "rb_head r' = rb_head r" "rb_tail r' = rb_head r" "rb_head_cache r' = rb_head r"
    "rb_data r' = rb_data r" "rb_capacity r' = rb_capacity r" "rb_mask r' = rb_mask r" "rb_live r'"
    "rb_tail_cache r' = rb_tail_cache r" "producer_head ft r' = producer_head ft r"
    using rv lv by (auto simp: r'_def drain_end_def ring_view_def producer_head_def)
  have "rb_tail r \<le> rb_head r" using drain_view_order [OF dv] by blast
  then have "ring_view ft r'"
    using rv fields ph ring_wf_cap(1) [OF wf] by (auto simp: ring_view_def ring_wf_def)
  moreover have "drain_view ft r' Asleep []"
    by (simp add: drain_view_def Let_def fields ph frames_nil)
  ultimately show ?thesis using t wm room fields by (auto simp: ring_holds_def)
qed

lemma ring_holds_fresh:
  assumes "with_capacity cap = Some r" "cap < 2 ^ 64" "\<not> watermark_head ft" "k < 2 ^ 46"
  shows "ring_holds ft k r []"
proof -
  have "spsc_inv ft (spsc_init r)" using assms(1,2) by (rule spsc_init_inv)
  moreover have "rb_live r" "producer_head ft r = 0"
    using assms(1) by (auto simp: with_capacity_def from_storage_def producer_head_def split: if_splits)
  ultimately show ?thesis
    using assms(3,4) by (auto simp: ring_holds_def spsc_inv_def spsc_init_def)
qed

interpretation ring: record_channel "ring_holds ft" "ring_put ft policy" "ring_take ft" for ft policy
proof unfold_locales
qed (erule ring_put_accepts ring_put_refuses ring_take_returns; assumption |
     simp add: ring_holds_def)+

end
