(* ===== verification/Runtime.thy ===== *)
theory Runtime
  imports Sink Channel
begin

text \<open>
  The process-wide state behind the logging macros (\<open>src/src/thread_buf.rs\<close>): ring objects
  shared through \<open>Arc\<close> live in a heap and are named by their address, the registry is a list of
  addresses, and the segment pool of the segmented policies hangs off it. \<open>None\<close> as a result is
  a panic (\<open>expect\<close>, \<open>assert!\<close>) or a call that does not return on its own.
\<close>

section \<open>The heap of rings\<close>

record heap =
  h_cell :: "nat \<Rightarrow> ring"
  h_next :: nat

definition on_ring :: "nat \<Rightarrow> (ring \<Rightarrow> ring) \<Rightarrow> heap \<Rightarrow> heap" where
  "on_ring a f h = h\<lparr>h_cell := (h_cell h)(a := f (h_cell h a))\<rparr>"

definition new_ring :: "ring \<Rightarrow> heap \<Rightarrow> nat \<times> heap" where
  "new_ring r h = (h_next h, h\<lparr>h_cell := (h_cell h)(h_next h := r), h_next := Suc (h_next h)\<rparr>)"

lemma on_ring_cell [simp]:
  "h_cell (on_ring a f h) b = (if b = a then f (h_cell h a) else h_cell h b)"
  "h_next (on_ring a f h) = h_next h"
  by (simp_all add: on_ring_def)

lemma new_ring_cell [simp]:
  "fst (new_ring r h) = h_next h"
  "h_cell (snd (new_ring r h)) b = (if b = h_next h then r else h_cell h b)"
  "h_next (snd (new_ring r h)) = Suc (h_next h)"
  by (simp_all add: new_ring_def)

section \<open>Global state\<close>

record segments =
  sg_policy :: backpressure
  sg_capacity :: nat
  sg_spares :: "nat list"
  sg_lines :: "(bytes \<times> level) list"
  sg_offset :: "32 word"
  sg_calib :: calibration
  sg_pattern :: "segment list"
  sg_raw :: bool

record globals =
  g_heap :: heap
  g_registry :: "nat list option"
  g_serial :: u64
  g_capacity :: "nat option"
  g_policy :: "backpressure option"
  g_segments :: "segments option"

abbreviation ring_at :: "globals \<Rightarrow> nat \<Rightarrow> ring" where
  "ring_at g a \<equiv> h_cell (g_heap g) a"

definition update_ring :: "nat \<Rightarrow> (ring \<Rightarrow> ring) \<Rightarrow> globals \<Rightarrow> globals" where
  "update_ring a f g = g\<lparr>g_heap := on_ring a f (g_heap g)\<rparr>"

lemma update_ring_simps [simp]:
  "ring_at (update_ring a f g) b = (if b = a then f (ring_at g a) else ring_at g b)"
  "g_registry (update_ring a f g) = g_registry g" "g_serial (update_ring a f g) = g_serial g"
  "g_capacity (update_ring a f g) = g_capacity g" "g_policy (update_ring a f g) = g_policy g"
  "g_segments (update_ring a f g) = g_segments g" "h_next (g_heap (update_ring a f g)) = h_next (g_heap g)"
  by (simp_all add: update_ring_def)

text \<open>\<open>register_ring\<close>: a fresh serial, and at most one entry per ring object.\<close>

definition register_ring :: "nat \<Rightarrow> globals \<Rightarrow> globals option" where
  "register_ring a g =
     (case g_registry g of
        None \<Rightarrow> None
      | Some rings \<Rightarrow>
          Some ((update_ring a (set_serial (g_serial g)) g)\<lparr>g_serial := g_serial g + 1,
            g_registry := Some (if a \<in> set rings then rings else rings @ [a])\<rparr>))"

section \<open>Thread identity\<close>

record os_thread =
  os_id :: bytes
  os_name :: "bytes option"

text \<open>\<open>str::parse::<u64>\<close>: an optional plus sign, at least one digit, no overflow.\<close>

definition parse_u64 :: "bytes \<Rightarrow> u64 option" where
  "parse_u64 s =
    (let ds = (if starts PLUS s then tl s else s); n = read_radix 10 ds in
     if ds \<noteq> [] \<and> list_all is_digit ds \<and> n < 2 ^ 64 then Some (word_of_nat n) else None)"

definition strip_prefix :: "bytes \<Rightarrow> bytes \<Rightarrow> bytes option" where
  "strip_prefix p s = (if take (length p) s = p then Some (drop (length p) s) else None)"

definition strip_suffix :: "bytes \<Rightarrow> bytes \<Rightarrow> bytes option" where
  "strip_suffix p s = map_option rev (strip_prefix (rev p) (rev s))"

definition get_stable_thread_id :: "os_thread \<Rightarrow> u64" where
  "get_stable_thread_id os =
     (case Option.bind (strip_prefix (bs ''ThreadId('') (os_id os))
             (\<lambda>s. Option.bind (strip_suffix (bs '')'') s) parse_u64) of
        Some n \<Rightarrow> n
      | None \<Rightarrow> 0)"

definition MAX_THREAD_NAME_LEN :: nat where "MAX_THREAD_NAME_LEN = 256"

fun boundary_before :: "bytes \<Rightarrow> nat \<Rightarrow> nat" where
  "boundary_before s 0 = 0"
| "boundary_before s (Suc k) = (if Suc k < length s \<and> is_cont (s ! Suc k) then boundary_before s k else Suc k)"

definition thread_display_name :: "os_thread \<Rightarrow> bytes" where
  "thread_display_name os =
    (let nm = (case os_name os of Some n \<Rightarrow> n | None \<Rightarrow> bs ''<unnamed>'') in
     if MAX_THREAD_NAME_LEN < length nm then take (boundary_before nm MAX_THREAD_NAME_LEN) nm else nm)"

section \<open>Identity facts\<close>

lemma list_all_upt: "list_all P [m..<n] \<Longrightarrow> m \<le> i \<Longrightarrow> i < n \<Longrightarrow> P i"
  by (simp add: list_all_iff)

lemma cont_table: "list_all (\<lambda>n. is_cont (word_of_nat n)) [0x80..<0xC0]"
  by code_simp

lemma cont_range: "0x80 \<le> b \<Longrightarrow> b \<le> 0xBF \<Longrightarrow> is_cont b"
  using list_all_upt [OF cont_table, of "unat b"] by (simp add: word_le_nat_alt)

lemma no_cont_table:
  "list_all (\<lambda>n. \<not> is_cont (word_of_nat n)) [0..<0x80]"
  "list_all (\<lambda>n. \<not> is_cont (word_of_nat n)) [0xC0..<0x100]"
  by code_simp+

lemma cont_no_char:
  assumes "is_cont b"
  shows "char_width b = 0"
proof -
  have "\<not> unat b < 0x80" "\<not> 0xC0 \<le> unat b"
    using assms list_all_upt [OF no_cont_table(1), of "unat b"]
      list_all_upt [OF no_cont_table(2), of "unat b"] unat_u8_less [of b] by auto
  then show ?thesis by (simp add: char_width_def word_le_nat_alt word_less_nat_alt)
qed

lemma second_ok_cont: "second_ok a b \<Longrightarrow> is_cont b"
  by (auto simp: second_ok_def word_le_nat_alt split: if_splits intro!: cont_range)

text \<open>Inside a character every byte but the first is a continuation byte.\<close>

lemma utf8_step_inner:
  assumes "utf8_step s = (n, True)" "0 < k" "k < n"
  shows "is_cont (at s k)"
proof -
  have "n \<le> 4" "1 < n \<Longrightarrow> is_cont (at s 1)" "2 < n \<Longrightarrow> is_cont (at s 2)" "3 < n \<Longrightarrow> is_cont (at s 3)"
    using assms(1) second_ok_cont by (auto simp: utf8_step_def Let_def split: if_splits)
  moreover have "k = 1 \<or> k = 2 \<or> k = 3" using \<open>n \<le> 4\<close> assms(2,3) by linarith
  ultimately show ?thesis using assms(3) by auto
qed

lemma utf8_valid_take:
  "utf8_valid s \<Longrightarrow> k < length s \<longrightarrow> \<not> is_cont (s ! k) \<Longrightarrow> utf8_valid (take k s)"
proof (induction s arbitrary: k rule: utf8_valid.induct)
  case (1 s)
  show ?case
  proof (cases "s = [] \<or> k = 0")
    case False
    obtain n ok where st: "utf8_step s = (n, ok)" by fastforce
    have ok: "ok" and rest: "utf8_valid (drop n s)"
      using 1(2) False st by (auto simp: utf8_valid.simps [of s])
    have n: "n \<le> length s" "0 < n" "utf8_step (take n s) = (n, True)"
      using utf8_step_ok(1) [of s n] utf8_step_ok(2) [of s n "[]"] utf8_step_pos [of s] st ok False by simp_all
    have "n \<le> k"
    proof (rule ccontr)
      assume "\<not> n \<le> k"
      then have "is_cont (at s k)" "k < length s" using utf8_step_inner [of s n k] st ok False n by simp_all
      then show False using 1(3) by (simp add: at_def)
    qed
    moreover have "k - n < length (drop n s) \<longrightarrow> \<not> is_cont (drop n s ! (k - n))"
      using 1(3) \<open>n \<le> k\<close> n by auto
    then have "utf8_valid (take (k - n) (drop n s))"
      using 1(1) st False rest ok by auto
    moreover have "take n s \<noteq> []" using n False by auto
    ultimately show ?thesis
      using utf8_valid_append_char [of "take n s" "take (k - n) (drop n s)"] n
      by (simp add: min_def take_add [symmetric])
  qed auto
qed

lemma boundary_before_le: "boundary_before s k \<le> k"
  by (induction k) auto

lemma boundary_before_boundary:
  "s \<noteq> [] \<longrightarrow> \<not> is_cont (s ! 0) \<Longrightarrow>
   boundary_before s k < length s \<longrightarrow> \<not> is_cont (s ! boundary_before s k)"
  by (induction k) auto

lemma utf8_valid_hd: "utf8_valid s \<Longrightarrow> s \<noteq> [] \<Longrightarrow> \<not> is_cont (s ! 0)"
proof
  assume v: "utf8_valid s" "s \<noteq> []" and c: "is_cont (s ! 0)"
  have "snd (utf8_step s)" using v by (auto simp: utf8_valid.simps [of s] split: prod.splits)
  then have "char_width (s ! 0) \<noteq> 0" using v(2) by (auto simp: utf8_step_def Let_def at_def split: if_splits)
  then show False using cont_no_char [OF c] by simp
qed

end
