(* ===== verification/Segments.thy ===== *)
theory Segments
  imports Runtime
begin

text \<open>
  The segmented policies (\<open>src/src/segments.rs\<close>): a bounded pool of preallocated segments under
  NanoLog, fresh segments under Quill, and the queue of lines that blocked producers format for
  the drain. The arena behind the storage is memory and has no model of its own.
\<close>

definition NANOLOG_POOL_BUDGET :: nat where "NANOLOG_POOL_BUDGET = 8 * 1024 * 1024"

section \<open>The pool\<close>

definition alloc_fresh :: "segments \<Rightarrow> heap \<Rightarrow> (nat \<times> heap) option" where
  "alloc_fresh sg h = map_option (\<lambda>r. new_ring r h) (with_capacity_arena (sg_capacity sg) False)"

fun alloc_pool :: "nat \<Rightarrow> nat \<Rightarrow> heap \<Rightarrow> (nat list \<times> heap) option" where
  "alloc_pool 0 capacity h = Some ([], h)"
| "alloc_pool (Suc n) capacity h =
     (case with_capacity_arena capacity True of
        None \<Rightarrow> None
      | Some r \<Rightarrow>
          (case new_ring r h of (a, h1) \<Rightarrow>
             map_option (\<lambda>(as, h2). (a # as, h2)) (alloc_pool n capacity h1)))"

definition init_with_pool_size ::
  "backpressure \<Rightarrow> nat \<Rightarrow> nat \<Rightarrow> 32 word \<Rightarrow> calibration \<Rightarrow> segment list \<Rightarrow> bool \<Rightarrow> heap \<Rightarrow> (segments \<times> heap) option"
where
  "init_with_pool_size policy ring_capacity pool_size tz calib pat raw h =
    (let mk = (\<lambda>spares. \<lparr>sg_policy = policy, sg_capacity = ring_capacity, sg_spares = spares, sg_lines = [],
                         sg_offset = tz, sg_calib = calib, sg_pattern = pat, sg_raw = raw\<rparr>)
     in case policy of
          NanoLog \<Rightarrow> map_option (\<lambda>(spares, h'). (mk spares, h')) (alloc_pool pool_size ring_capacity h)
        | Quill \<Rightarrow> Some (mk [], h)
        | Drop \<Rightarrow> None
        | Block \<Rightarrow> None)"

definition segments_init ::
  "backpressure \<Rightarrow> nat \<Rightarrow> 32 word \<Rightarrow> calibration \<Rightarrow> segment list \<Rightarrow> bool \<Rightarrow> heap \<Rightarrow> (segments \<times> heap) option"
where
  "segments_init policy ring_capacity tz calib pat raw h =
     init_with_pool_size policy ring_capacity (max (NANOLOG_POOL_BUDGET div ring_capacity) 1) tz calib pat raw h"

text \<open>\<open>Vec::pop\<close> takes the segment recycled last.\<close>

definition try_take_spare :: "segments \<Rightarrow> heap \<Rightarrow> nat option \<times> segments \<times> heap" where
  "try_take_spare sg h =
     (if sg_spares sg = [] then (None, sg, h)
      else let a = last (sg_spares sg) in
        (Some a, sg\<lparr>sg_spares := butlast (sg_spares sg)\<rparr>, on_ring a reset_for_reuse h))"

definition recycle :: "nat \<Rightarrow> segments \<Rightarrow> segments" where
  "recycle a sg = sg\<lparr>sg_spares := sg_spares sg @ [a]\<rparr>"

definition initial_ring :: "segments \<Rightarrow> heap \<Rightarrow> (nat \<times> segments \<times> heap) option" where
  "initial_ring sg h =
     (case try_take_spare sg h of
        (Some a, sg', h') \<Rightarrow> Some (a, sg', h')
      | (None, sg', h') \<Rightarrow> map_option (\<lambda>(a, h''). (a, sg', h'')) (alloc_fresh sg' h'))"

definition push_lines :: "(bytes \<times> level) list \<Rightarrow> segments \<Rightarrow> segments" where
  "push_lines ls sg = sg\<lparr>sg_lines := sg_lines sg @ ls\<rparr>"

definition take_lines :: "segments \<Rightarrow> (bytes \<times> level) list \<times> segments" where
  "take_lines sg = (sg_lines sg, sg\<lparr>sg_lines := []\<rparr>)"

definition drain_recycle :: "nat \<Rightarrow> segments \<Rightarrow> heap \<Rightarrow> bool \<times> segments \<times> heap" where
  "drain_recycle a sg h =
     (if rb_recyclable (h_cell h a) then
        case mark_recycled (h_cell h a) of (won, r') \<Rightarrow>
          (won, if won then recycle a sg else sg, on_ring a (\<lambda>_. r') h)
      else (False, sg, h))"

section \<open>A producer formatting its own segment\<close>

text \<open>What a pass that collects owned payloads does with a record.\<close>

definition collect ::
  "env \<Rightarrow> bool \<Rightarrow> 32 word \<Rightarrow> calibration \<Rightarrow> segment list \<Rightarrow> ring \<Rightarrow> bytes \<Rightarrow> level
   \<Rightarrow> (bytes \<times> level) list \<Rightarrow> (bytes \<times> level) list option"
where
  "collect e raw tz calib pat r rec l ls =
     (if raw then Some (ls @ [(rec, l)])
      else map_option (\<lambda>line. ls @ [(line, l)])
             (decode_and_format e rec tz calib pat (rb_thread_id r) (rb_thread_name r) []))"

text \<open>\<open>None\<close> while the drain's \<open>draining\<close> flag is up: the producer spins on it.\<close>

definition format_segment ::
  "features \<Rightarrow> env \<Rightarrow> nat \<Rightarrow> bool \<Rightarrow> 32 word \<Rightarrow> calibration \<Rightarrow> segment list \<Rightarrow> heap
   \<Rightarrow> ((bytes \<times> level) list \<times> heap) option"
where
  "format_segment ft e a raw tz calib pat h =
     (if rb_draining (h_cell h a) then None
      else case drain_ring_inner ft (collect e raw tz calib pat (h_cell h a)) (h_cell h a) [] of
             None \<Rightarrow> None
           | Some (had_work, r', ls) \<Rightarrow> Some (ls, on_ring a (\<lambda>_. r') h))"

definition format_helper_segment ::
  "features \<Rightarrow> env \<Rightarrow> nat \<Rightarrow> segments \<Rightarrow> heap \<Rightarrow> (segments \<times> heap) option"
where
  "format_helper_segment ft e a sg h =
     (case format_segment ft e a (sg_raw sg) (sg_offset sg) (sg_calib sg) (sg_pattern sg) h of
        None \<Rightarrow> None
      | Some (ls, h') \<Rightarrow> Some (recycle a (push_lines ls sg), on_ring a reset_for_reuse h'))"

text \<open>
  \<open>take_pooled\<close>, one turn: format the helper segment, then take a spare; with no spare, give up
  when the caller's ring is dead. \<open>None\<close> otherwise: the thread sleeps on the condition variable
  until another thread recycles a segment.
\<close>

definition take_pooled ::
  "features \<Rightarrow> env \<Rightarrow> nat option \<Rightarrow> bool option \<Rightarrow> segments \<Rightarrow> heap \<Rightarrow> (nat option \<times> segments \<times> heap) option"
where
  "take_pooled ft e helper live sg h =
     (case (case helper of None \<Rightarrow> Some (sg, h) | Some a \<Rightarrow> format_helper_segment ft e a sg h) of
        None \<Rightarrow> None
      | Some (sg1, h1) \<Rightarrow>
          (case try_take_spare sg1 h1 of
             (Some a, sg2, h2) \<Rightarrow> Some (Some a, sg2, h2)
           | (None, sg2, h2) \<Rightarrow> if live = Some False then Some (None, sg2, h2) else None))"

definition first_ring ::
  "features \<Rightarrow> env \<Rightarrow> nat option \<Rightarrow> bool option \<Rightarrow> segments \<Rightarrow> heap \<Rightarrow> (nat option \<times> segments \<times> heap) option"
where
  "first_ring ft e helper live sg h =
     (case sg_policy sg of
        NanoLog \<Rightarrow> take_pooled ft e helper live sg h
      | Quill \<Rightarrow> map_option (\<lambda>(a, h'). (Some a, sg, h')) (alloc_fresh sg h)
      | _ \<Rightarrow> None)"

section \<open>Facts about the pool\<close>

lemma take_recycled:
  "try_take_spare (recycle a sg) h = (Some a, sg, on_ring a reset_for_reuse h)"
  by (simp add: try_take_spare_def recycle_def)

text \<open>A helper that has formatted its own segment gets that segment back at once.\<close>

lemma take_pooled_helper:
  assumes "format_segment ft e a (sg_raw sg) (sg_offset sg) (sg_calib sg) (sg_pattern sg) h = Some (ls, h')"
  shows "take_pooled ft e (Some a) live sg h =
    Some (Some a, push_lines ls sg, on_ring a reset_for_reuse (on_ring a reset_for_reuse h'))"
  using assms by (simp add: take_pooled_def format_helper_segment_def take_recycled)

lemma drain_recycle_once:
  assumes "drain_recycle a sg h = (won, sg1, h1)" "drain_recycle a sg1 h1 = (won', sg2, h2)"
  shows "\<not> won' \<and> sg2 = sg1"
  using assms by (auto simp: drain_recycle_def mark_recycled_def split: if_splits)

end
