(* ===== verification/Log_Call.thy ===== *)
theory Log_Call
  imports Segments
begin

text \<open>
  A logging call on the crate's own ring: the thread-local buffer (\<open>src/src/thread_buf.rs\<close>), the
  \<open>dispatch\<close> function and the logging macro (\<open>src/src/macros.rs\<close>). The observations \<open>obs\<close> are
  what a blocking reservation reads of the drain's progress while it waits.
\<close>

record thread_buf =
  tb_ring :: nat
  tb_helper :: "nat option"
  tb_thread_id :: u64
  tb_thread_name :: bytes

record thread_slot =
  ts_active :: bool
  ts_buf :: "thread_buf option"

section \<open>Reserving under the policies\<close>

text \<open>The segment a full one is replaced by; \<open>Some (None, \<dots>)\<close> is the early return on teardown.\<close>

definition next_segment ::
  "features \<Rightarrow> env \<Rightarrow> backpressure \<Rightarrow> segments \<Rightarrow> thread_buf \<Rightarrow> globals \<Rightarrow> (nat option \<times> thread_buf \<times> globals) option"
where
  "next_segment ft e policy sg tb g =
     (if policy = NanoLog then
        case try_take_spare sg (g_heap g) of
          (Some a, sg1, h1) \<Rightarrow> Some (Some a, tb, g\<lparr>g_heap := h1, g_segments := Some sg1\<rparr>)
        | (None, sg1, h1) \<Rightarrow>
            let h2 = on_ring (tb_ring tb) reserve_for_helper h1 in
            (case first_ring ft e (Some (tb_ring tb)) (Some (rb_live (h_cell h2 (tb_ring tb)))) sg1 h2 of
               None \<Rightarrow> None
             | Some (found, sg2, h3) \<Rightarrow>
                 Some (found, tb\<lparr>tb_helper := None\<rparr>, g\<lparr>g_heap := h3, g_segments := Some sg2\<rparr>))
      else map_option (\<lambda>(a, h1). (Some a, tb, g\<lparr>g_heap := h1\<rparr>)) (alloc_fresh sg (g_heap g)))"

partial_function (option) handoff_loop ::
  "features \<Rightarrow> env \<Rightarrow> nat \<Rightarrow> backpressure \<Rightarrow> thread_buf \<Rightarrow> globals
   \<Rightarrow> (reservation option \<times> thread_buf \<times> globals) option"
where
  "handoff_loop ft e total_size policy tb g =
     (case g_segments g of
        None \<Rightarrow> None
      | Some sg \<Rightarrow>
          (case reserve ft [] (ring_at g (tb_ring tb)) total_size policy of
             None \<Rightarrow> None
           | Some (r1, Some slot) \<Rightarrow> Some (Some slot, tb, update_ring (tb_ring tb) (\<lambda>_. r1) g)
           | Some (r1, None) \<Rightarrow>
               let r2 = mark_handed_off (if watermark_head ft then flush_watermark r1 else r1);
                   g1 = update_ring (tb_ring tb) (\<lambda>_. r2) g
               in (case next_segment ft e policy sg tb g1 of
                     None \<Rightarrow> None
                   | Some (None, tb1, g2) \<Rightarrow> Some (None, tb1, g2)
                   | Some (Some a, tb1, g2) \<Rightarrow>
                       (case register_ring a
                               (update_ring a (set_thread_info (tb_thread_id tb) (tb_thread_name tb)) g2) of
                          None \<Rightarrow> None
                        | Some g3 \<Rightarrow> handoff_loop ft e total_size policy (tb1\<lparr>tb_ring := a\<rparr>) g3))))"

declare handoff_loop.simps [code]

definition reserve_with_policy ::
  "features \<Rightarrow> env \<Rightarrow> (u64 \<times> bool) list \<Rightarrow> thread_buf \<Rightarrow> nat \<Rightarrow> backpressure \<Rightarrow> globals
   \<Rightarrow> (reservation option \<times> thread_buf \<times> globals) option"
where
  "reserve_with_policy ft e obs tb total_size policy g =
     (if policy \<in> {NanoLog, Quill} \<and> g_segments g \<noteq> None then handoff_loop ft e total_size policy tb g
      else map_option (\<lambda>(r, slot). (slot, tb, update_ring (tb_ring tb) (\<lambda>_. r) g))
             (reserve ft obs (ring_at g (tb_ring tb)) total_size policy))"

section \<open>The thread-local buffer\<close>

text \<open>First use: a ring of the configured capacity, or a segment of the pool.\<close>

definition init_thread_buf :: "os_thread \<Rightarrow> globals \<Rightarrow> (thread_buf \<times> globals) option" where
  "init_thread_buf os g =
    (let capacity = (case g_capacity g of Some c \<Rightarrow> c | None \<Rightarrow> DEFAULT_RING_SIZE);
         tid = get_stable_thread_id os; nm = thread_display_name os
     in case (case g_segments g of
                Some sg \<Rightarrow> map_option (\<lambda>(a, sg', h). (a, g\<lparr>g_segments := Some sg', g_heap := h\<rparr>)) (initial_ring sg (g_heap g))
              | None \<Rightarrow> map_option (\<lambda>r. case new_ring r (g_heap g) of (a, h) \<Rightarrow> (a, g\<lparr>g_heap := h\<rparr>)) (with_capacity capacity)) of
          None \<Rightarrow> None
        | Some (a, g1) \<Rightarrow>
            map_option (\<lambda>g2. (\<lparr>tb_ring = a, tb_helper = None, tb_thread_id = tid, tb_thread_name = nm\<rparr>, g2))
              (register_ring a (update_ring a (set_thread_info tid nm) g1)))"

text \<open>\<open>with_thread_buf\<close>: a nested call finds the flag up and does nothing.\<close>

definition with_thread_buf ::
  "os_thread \<Rightarrow> (thread_buf \<Rightarrow> globals \<Rightarrow> (thread_buf \<times> globals) option) \<Rightarrow> thread_slot \<Rightarrow> globals
   \<Rightarrow> (bool \<times> thread_slot \<times> globals) option"
where
  "with_thread_buf os f slot g =
     (if ts_active slot then Some (False, slot, g)
      else case (case ts_buf slot of Some tb \<Rightarrow> Some (tb, g) | None \<Rightarrow> init_thread_buf os g) of
             None \<Rightarrow> None
           | Some (tb, g1) \<Rightarrow>
               map_option (\<lambda>(tb', g2). (True, slot\<lparr>ts_active := False, ts_buf := Some tb'\<rparr>, g2)) (f tb g1))"

definition warm_up :: "os_thread \<Rightarrow> thread_slot \<Rightarrow> globals \<Rightarrow> (bool \<times> thread_slot \<times> globals) option" where
  "warm_up os slot g =
     (if g_registry g = None then Some (False, slot, g)
      else map_option (\<lambda>(ran, s', g'). (True, s', g')) (with_thread_buf os (\<lambda>tb g. Some (tb, g)) slot g))"

text \<open>\<open>ThreadBuf::drop\<close>, at thread exit.\<close>

definition thread_buf_drop :: "thread_buf \<Rightarrow> globals \<Rightarrow> globals" where
  "thread_buf_drop tb g =
     update_ring (tb_ring tb) set_dead
       (case tb_helper tb of
          None \<Rightarrow> g
        | Some a \<Rightarrow> update_ring a (\<lambda>r. set_dead (clear_helper_reservation r)) g)"

section \<open>The call\<close>

text \<open>Assembling into the reserved slot and publishing it.\<close>

definition write_slot ::
  "features \<Rightarrow> level \<Rightarrow> u64 \<Rightarrow> u64 \<Rightarrow> u8 \<Rightarrow> nat \<Rightarrow> (bytes \<Rightarrow> bytes option) \<Rightarrow> reservation \<Rightarrow> ring \<Rightarrow> ring option"
where
  "write_slot ft level timestamp site n_args total_size write slot r =
     map_option (\<lambda>rec. publish ft slot (store_record slot rec r))
       (assemble (slice (rb_data r) (res_ptr slot) total_size) level timestamp FLAG_SITE site n_args total_size write)"

definition dispatch ::
  "features \<Rightarrow> env \<Rightarrow> (u64 \<times> bool) list \<Rightarrow> os_thread \<Rightarrow> u64 \<Rightarrow> level \<Rightarrow> u64 \<Rightarrow> u8 \<Rightarrow> nat \<Rightarrow> backpressure
   \<Rightarrow> (bytes \<Rightarrow> bytes option) \<Rightarrow> thread_slot \<Rightarrow> globals \<Rightarrow> (bool \<times> thread_slot \<times> globals) option"
where
  "dispatch ft e obs os timestamp level site n_args args_total policy write slot g =
     with_thread_buf os (\<lambda>tb g.
       if MAX_RECORD_SIZE < args_total then Some (tb, g)
       else case reserve_with_policy ft e obs tb args_total policy g of
              None \<Rightarrow> None
            | Some (None, tb', g') \<Rightarrow> Some (tb', g')
            | Some (Some v, tb', g') \<Rightarrow>
                map_option (\<lambda>r. (tb', update_ring (tb_ring tb') (\<lambda>_. r) g'))
                  (write_slot ft level timestamp site n_args args_total write v (ring_at g' (tb_ring tb'))))
       slot g"

text \<open>The macro: \<open>__N_ARGS\<close> is the argument count cast to \<open>u8\<close>, sizes add with wrap-around.\<close>

definition n_args_u8 :: "arg list \<Rightarrow> u8" where
  "n_args_u8 args = word_of_nat (length args)"

definition call_size :: "arg list \<Rightarrow> nat" where
  "call_size args = (BASE_RECORD_SIZE + unat (n_args_u8 args) + args_encoded_size args) mod 2 ^ 64"

definition log_call ::
  "features \<Rightarrow> env \<Rightarrow> (u64 \<times> bool) list \<Rightarrow> os_thread \<Rightarrow> u64 \<Rightarrow> level \<Rightarrow> backpressure \<Rightarrow> level \<Rightarrow> u64 \<Rightarrow> arg list
   \<Rightarrow> thread_slot \<Rightarrow> globals \<Rightarrow> (bool \<times> thread_slot \<times> globals) option"
where
  "log_call ft e obs os timestamp ceiling policy level site args slot g =
     (if level \<le> ceiling then
        if args = [] then dispatch ft e obs os timestamp level site 0 BASE_RECORD_SIZE policy Some slot g
        else dispatch ft e obs os timestamp level site (n_args_u8 args) (call_size args) policy
               (\<lambda>buf. map_option fst (write_args args buf 0 (unat (n_args_u8 args)))) slot g
      else Some (False, slot, g))"

end
