(* ===== verification/Drain_Thread.thy ===== *)
theory Drain_Thread
  imports Log_Call
begin

text \<open>
  The drain thread (\<open>src/src/drain.rs\<close>, \<open>impl Drain\<close>): reconciling its private ring list with
  the registry, polling every ring, retiring handed-off segments, and the run loop. A pass is one
  step here: what other threads do to the shared state happens between passes (inside a pass over
  one ring every interleaving is covered by the ring's own model).
\<close>

unbundle bit_operations_syntax

definition SPIN_MIN :: "32 word" where "SPIN_MIN = 8"
definition SPIN_CAP :: "32 word" where "SPIN_CAP = 256"
definition SYNC_EVERY :: "32 word" where "SYNC_EVERY = 1024"

record drain_state =
  dr_sink :: sink
  dr_offset :: "32 word"
  dr_rings :: "(nat \<times> u64) list"
  dr_calib :: calibration
  dr_pattern :: "segment list"
  dr_segmented :: bool

definition drain_new :: "sink \<Rightarrow> 32 word \<Rightarrow> calibration \<Rightarrow> segment list \<Rightarrow> bool \<Rightarrow> drain_state" where
  "drain_new s tz calib pat segmented =
     \<lparr>dr_sink = s, dr_offset = tz, dr_rings = [], dr_calib = calib, dr_pattern = pat, dr_segmented = segmented\<rparr>"

section \<open>Delivering to the sink\<close>

text \<open>What a pass does with one record; a sink error goes to stderr and the pass goes on.\<close>

definition to_sink ::
  "'w io_ops \<Rightarrow> env \<Rightarrow> bool \<Rightarrow> 32 word \<Rightarrow> calibration \<Rightarrow> segment list \<Rightarrow> ring \<Rightarrow> bytes \<Rightarrow> level
   \<Rightarrow> sink \<times> 'w \<Rightarrow> (sink \<times> 'w) option"
where
  "to_sink io e raw tz calib pat r rec l sw =
     (case sw of (s, w) \<Rightarrow>
        if raw then map_option (\<lambda>(s', err). (s', w)) (accept_raw rec l s)
        else case decode_and_format e rec tz calib pat (rb_thread_id r) (rb_thread_name r) [] of
               None \<Rightarrow> None
             | Some line \<Rightarrow> (case accept io line l s w of (s', w', err) \<Rightarrow> Some (s', w')))"

text \<open>\<open>drain_ring\<close> on the ring at an address, with the drain's own formatting inputs.\<close>

definition drain_at ::
  "features \<Rightarrow> 'w io_ops \<Rightarrow> env \<Rightarrow> nat \<Rightarrow> drain_state \<Rightarrow> globals \<Rightarrow> 'w
   \<Rightarrow> (bool \<times> drain_state \<times> globals \<times> 'w) option"
where
  "drain_at ft io e a d g w =
     (case drain_ring ft
             (to_sink io e (raw_sink (dr_sink d)) (dr_offset d) (dr_calib d) (dr_pattern d) (ring_at g a))
             (ring_at g a) (dr_sink d, w) of
        None \<Rightarrow> None
      | Some (had_work, r', s', w') \<Rightarrow>
          Some (had_work, d\<lparr>dr_sink := s'\<rparr>, update_ring a (\<lambda>_. r') g, w'))"

definition flush_sink :: "'w io_ops \<Rightarrow> drain_state \<Rightarrow> 'w \<Rightarrow> drain_state \<times> 'w" where
  "flush_sink io d w = (case sink_flush io (dr_sink d) w of (s', w', err) \<Rightarrow> (d\<lparr>dr_sink := s'\<rparr>, w'))"

definition return_segment :: "nat \<Rightarrow> globals \<Rightarrow> globals" where
  "return_segment a g =
     (case g_segments g of
        None \<Rightarrow> g
      | Some sg \<Rightarrow>
          (case drain_recycle a sg (g_heap g) of (won, sg', h') \<Rightarrow> g\<lparr>g_segments := Some sg', g_heap := h'\<rparr>))"

section \<open>Syncing with the registry\<close>

text \<open>\<open>Vec::swap_remove\<close>: the last element takes the place of the removed one.\<close>

definition swap_remove :: "nat \<Rightarrow> 'a list \<Rightarrow> 'a list" where
  "swap_remove i xs = (if Suc i = length xs then butlast xs else (butlast xs)[i := last xs])"

lemma length_swap_remove [simp]: "length (swap_remove i xs) = length xs - 1"
  by (simp add: swap_remove_def)

definition keep_ring :: "globals \<Rightarrow> nat \<Rightarrow> bool" where
  "keep_ring g a \<longleftrightarrow> rb_live (ring_at g a) \<or> rb_helper_reserved (ring_at g a)"

function reconcile :: "globals \<Rightarrow> nat list \<Rightarrow> nat \<Rightarrow> (nat \<times> u64) list \<Rightarrow> (nat \<times> u64) list" where
  "reconcile g regs i rings =
     (if i < length rings then
        let (a, serial) = rings ! i in
        if a \<in> set regs \<and> keep_ring g a then
          reconcile g regs (Suc i)
            (if rb_serial (ring_at g a) \<noteq> serial then rings[i := (a, rb_serial (ring_at g a))] else rings)
        else reconcile g regs i (swap_remove i rings)
      else rings)"
  by pat_completeness auto
termination by (relation "measure (\<lambda>(g, regs, i, rings). length rings - i)") auto

declare reconcile.simps [simp del]

fun add_registered :: "globals \<Rightarrow> nat list \<Rightarrow> (nat \<times> u64) list \<Rightarrow> (nat \<times> u64) list" where
  "add_registered g [] rings = rings"
| "add_registered g (a # regs) rings =
     add_registered g regs
       (if keep_ring g a \<and> a \<notin> fst ` set rings then rings @ [(a, rb_serial (ring_at g a))] else rings)"

definition finalize_list :: "globals \<Rightarrow> nat list \<Rightarrow> (nat \<times> u64) list \<Rightarrow> nat list" where
  "finalize_list g regs rings =
     filter (\<lambda>a. \<not> keep_ring g a) regs @
     filter (\<lambda>a. \<not> keep_ring g a \<and> a \<notin> set regs) (map fst rings)"

fun finalize_rings ::
  "features \<Rightarrow> 'w io_ops \<Rightarrow> env \<Rightarrow> nat list \<Rightarrow> drain_state \<Rightarrow> globals \<Rightarrow> 'w
   \<Rightarrow> (drain_state \<times> globals \<times> 'w) option"
where
  "finalize_rings ft io e [] d g w = Some (d, g, w)"
| "finalize_rings ft io e (a # as) d g w =
     (case drain_at ft io e a d g w of
        None \<Rightarrow> None
      | Some (had_work, d', g', w') \<Rightarrow> finalize_rings ft io e as d' (return_segment a g') w')"

definition sync_rings ::
  "features \<Rightarrow> 'w io_ops \<Rightarrow> env \<Rightarrow> drain_state \<Rightarrow> globals \<Rightarrow> 'w \<Rightarrow> (drain_state \<times> globals \<times> 'w) option"
where
  "sync_rings ft io e d g w =
     (case g_registry g of
        None \<Rightarrow> None
      | Some regs \<Rightarrow>
          let finalize = finalize_list g regs (dr_rings d);
              rings = add_registered g regs (reconcile g regs 0 (dr_rings d))
          in finalize_rings ft io e finalize (d\<lparr>dr_rings := rings\<rparr>)
               (g\<lparr>g_registry := Some (filter (keep_ring g) regs)\<rparr>) w)"

section \<open>Polling\<close>

text \<open>The re-check of the serial under the lock reads what the first check read: a pass is atomic here.\<close>

definition maybe_retire ::
  "nat \<Rightarrow> nat \<Rightarrow> u64 \<Rightarrow> drain_state \<Rightarrow> globals \<Rightarrow> (bool \<times> drain_state \<times> globals) option"
where
  "maybe_retire i a serial d g =
    (let r = ring_at g a in
     if \<not> rb_handed_off r \<or> rb_helper_reserved r \<or> rb_serial r \<noteq> serial then Some (False, d, g)
     else if rb_head r \<noteq> rb_tail r then Some (False, d, g)
     else case g_registry g of
            None \<Rightarrow> None
          | Some regs \<Rightarrow>
              if rb_serial r \<noteq> serial then Some (False, d, g)
              else if a \<notin> set regs then Some (False, d, g)
              else Some (True, d\<lparr>dr_rings := swap_remove i (dr_rings d)\<rparr>,
                     return_segment a (g\<lparr>g_registry := Some (filter (\<lambda>b. b \<noteq> a) regs)\<rparr>)))"

lemma drain_at_rings: "drain_at ft io e a d g w = Some (hw, d', g', w') \<Longrightarrow> dr_rings d' = dr_rings d"
  by (auto simp: drain_at_def split: option.splits)

lemma maybe_retire_rings:
  "maybe_retire i a s d g = Some (b, d', g') \<Longrightarrow>
   dr_rings d' = (if b then swap_remove i (dr_rings d) else dr_rings d)"
  by (auto simp: maybe_retire_def Let_def split: option.splits if_splits)

function poll_rings ::
  "features \<Rightarrow> 'w io_ops \<Rightarrow> env \<Rightarrow> nat \<Rightarrow> bool \<Rightarrow> drain_state \<Rightarrow> globals \<Rightarrow> 'w
   \<Rightarrow> (bool \<times> drain_state \<times> globals \<times> 'w) option"
where
  "poll_rings ft io e i had_work d g w =
     (if i < length (dr_rings d) then
        let (a, serial) = dr_rings d ! i in
        if rb_serial (ring_at g a) \<noteq> serial then poll_rings ft io e (Suc i) had_work d g w
        else if rb_helper_reserved (ring_at g a) then poll_rings ft io e (Suc i) had_work d g w
        else case drain_at ft io e a d g w of
               None \<Rightarrow> None
             | Some (work, d1, g1, w1) \<Rightarrow>
                 (case maybe_retire i a serial d1 g1 of
                    None \<Rightarrow> None
                  | Some (retired, d2, g2) \<Rightarrow>
                      poll_rings ft io e (if retired then i else Suc i) (had_work \<or> work) d2 g2 w1)
      else Some (had_work, d, g, w))"
  by pat_completeness auto
termination
  by (relation "measure (\<lambda>(ft, io, e, i, had_work, d, g, w). length (dr_rings d) - i)")
    (auto dest!: drain_at_rings maybe_retire_rings split: if_splits)

declare poll_rings.simps [simp del]

text \<open>The payloads of producers that formatted their own segment.\<close>

fun deliver_payloads ::
  "'w io_ops \<Rightarrow> bool \<Rightarrow> (bytes \<times> level) list \<Rightarrow> sink \<Rightarrow> 'w \<Rightarrow> (sink \<times> 'w) option"
where
  "deliver_payloads io raw [] s w = Some (s, w)"
| "deliver_payloads io raw ((p, l) # ps) s w =
     (if raw then
        (case accept_raw p l s of
           None \<Rightarrow> None
         | Some (s', err) \<Rightarrow> deliver_payloads io raw ps s' w)
      else case accept io p l s w of (s', w', err) \<Rightarrow> deliver_payloads io raw ps s' w')"

definition poll_once ::
  "features \<Rightarrow> 'w io_ops \<Rightarrow> env \<Rightarrow> drain_state \<Rightarrow> globals \<Rightarrow> 'w
   \<Rightarrow> (bool \<times> drain_state \<times> globals \<times> 'w) option"
where
  "poll_once ft io e d g w =
     (case poll_rings ft io e 0 False d g w of
        None \<Rightarrow> None
      | Some (had_work, d1, g1, w1) \<Rightarrow>
          (case g_segments g1 of
             Some sg \<Rightarrow>
               if dr_segmented d1 then
                 (case take_lines sg of (ps, sg') \<Rightarrow>
                    map_option (\<lambda>(s', w'). (had_work \<or> ps \<noteq> [], d1\<lparr>dr_sink := s'\<rparr>, g1\<lparr>g_segments := Some sg'\<rparr>, w'))
                      (deliver_payloads io (raw_sink (dr_sink d1)) ps (dr_sink d1) w1))
               else Some (had_work, d1, g1, w1)
           | None \<Rightarrow> Some (had_work, d1, g1, w1)))"

section \<open>The run loop\<close>

definition final_pass ::
  "features \<Rightarrow> 'w io_ops \<Rightarrow> env \<Rightarrow> drain_state \<Rightarrow> globals \<Rightarrow> 'w \<Rightarrow> (drain_state \<times> globals \<times> 'w) option"
where
  "final_pass ft io e d g w =
     (case sync_rings ft io e d g w of
        None \<Rightarrow> None
      | Some (d1, g1, w1) \<Rightarrow>
          (case poll_once ft io e d1 g1 w1 of
             None \<Rightarrow> None
           | Some (had_work, d2, g2, w2) \<Rightarrow>
               (case flush_sink io d2 w2 of (d3, w3) \<Rightarrow> Some (d3, g2, w3))))"

text \<open>One turn of the loop, shutdown not signalled: the new \<open>spin\<close>, \<open>since_sync\<close> and \<open>dirty\<close> come
  first. The spinning itself is a pause.\<close>

definition drain_turn ::
  "features \<Rightarrow> 'w io_ops \<Rightarrow> env \<Rightarrow> 32 word \<Rightarrow> 32 word \<Rightarrow> bool \<Rightarrow> drain_state \<Rightarrow> globals \<Rightarrow> 'w
   \<Rightarrow> (32 word \<times> 32 word \<times> bool \<times> drain_state \<times> globals \<times> 'w) option"
where
  "drain_turn ft io e spin since_sync dirty d g w =
    (let sync_mask = (if dr_segmented d then 1 else SYNC_EVERY) - 1 in
     case (if since_sync AND sync_mask = 0 then sync_rings ft io e d g w else Some (d, g, w)) of
       None \<Rightarrow> None
     | Some (d1, g1, w1) \<Rightarrow>
         (case poll_once ft io e d1 g1 w1 of
            None \<Rightarrow> None
          | Some (True, d2, g2, w2) \<Rightarrow> Some (SPIN_MIN, since_sync + 1, True, d2, g2, w2)
          | Some (False, d2, g2, w2) \<Rightarrow>
              (case (if dirty then flush_sink io d2 w2 else (d2, w2)) of (d3, w3) \<Rightarrow>
                 Some (min (push_bit 1 spin) SPIN_CAP, since_sync + 1, False, d3, g2, w3))))"

text \<open>
  Each turn starts with what other threads did since the last one and with the value read from the
  shutdown flag. \<open>None\<close> at the end of the list: the loop is still running.
\<close>

fun drain_run ::
  "features \<Rightarrow> 'w io_ops \<Rightarrow> env \<Rightarrow> ((globals \<Rightarrow> globals) \<times> bool) list \<Rightarrow> 32 word \<Rightarrow> 32 word \<Rightarrow> bool
   \<Rightarrow> drain_state \<Rightarrow> globals \<Rightarrow> 'w \<Rightarrow> (drain_state \<times> globals \<times> 'w) option"
where
  "drain_run ft io e [] spin since_sync dirty d g w = None"
| "drain_run ft io e ((others, shutdown) # turns) spin since_sync dirty d g w =
     (if shutdown then final_pass ft io e d (others g) w
      else case drain_turn ft io e spin since_sync dirty d (others g) w of
             None \<Rightarrow> None
           | Some (spin', since', dirty', d', g', w') \<Rightarrow>
               drain_run ft io e turns spin' since' dirty' d' g' w')"

definition drain_start ::
  "features \<Rightarrow> 'w io_ops \<Rightarrow> env \<Rightarrow> ((globals \<Rightarrow> globals) \<times> bool) list \<Rightarrow> drain_state \<Rightarrow> globals \<Rightarrow> 'w
   \<Rightarrow> (drain_state \<times> globals \<times> 'w) option"
where
  "drain_start ft io e turns d g w = drain_run ft io e turns SPIN_MIN 0 False d g w"

end
