(* ===== verification/Config.thy ===== *)
theory Config
  imports Drain_Thread
begin

text \<open>
  Starting and stopping the logger: the errors (\<open>src/src/error.rs\<close>), the \<open>configure!\<close> keys and
  \<open>__configure_rt\<close> (\<open>src/src/builder.rs\<close>), and the guard (\<open>src/src/guard.rs\<close>). What the platform
  supplies is in the record \<open>boot\<close>: the counter frequency, the wall clock, the counter, and whether
  the drain thread can be spawned.
\<close>

section \<open>Errors\<close>

datatype ticklog_error =
    NotInitialized
  | AlreadyInitialized
  | DrainSpawnFailed io_error
  | SinkWriteFailed io_error
  | InvalidTimezoneOffset "32 word"
  | InvalidFormatPattern fmt_error
  | InvalidRingCapacity nat

definition QUOTE :: bytes where "QUOTE = [0x27]"

fun fmt_error_text :: "fmt_error \<Rightarrow> bytes" where
  "fmt_error_text Unclosed = bs ''unclosed '' @ QUOTE @ bs ''{'' @ QUOTE @ bs '': missing '' @ QUOTE @ bs ''}'' @ QUOTE"
| "fmt_error_text Positional = bs ''positional params not supported''"
| "fmt_error_text Unnamed = bs ''unnamed placeholders are not allowed in pattern''"
| "fmt_error_text UnknownField = bs ''unknown field name in placeholder''"
| "fmt_error_text DuplicateMessage = bs ''duplicate `{message}` in pattern''"
| "fmt_error_text SpecOnMessage = bs ''format specs are not accepted on `{message}`''"
| "fmt_error_text SpecOnTimestamp = bs ''format specs are not accepted on `{timestamp}`''"
| "fmt_error_text UnmatchedBrace =
     bs ''unmatched '' @ QUOTE @ bs ''}'' @ QUOTE @ bs '': use '' @ QUOTE @ bs ''}}'' @ QUOTE @ bs '' to escape a literal brace''"
| "fmt_error_text InvalidFill = bs ''invalid fill character''"
| "fmt_error_text ExpectedDigits = bs ''expected digits after '' @ QUOTE @ bs ''.'' @ QUOTE"
| "fmt_error_text SignFlag = bs ''sign flags not supported''"
| "fmt_error_text UnsupportedType = bs ''unsupported type character in format spec''"
| "fmt_error_text Trailing = bs ''trailing characters after format spec''"

fun error_fmt :: "ticklog_error \<Rightarrow> bytes" where
  "error_fmt NotInitialized = bs ''ticklog has not been initialized''"
| "error_fmt AlreadyInitialized = bs ''ticklog has already been initialized''"
| "error_fmt (DrainSpawnFailed e) = bs ''failed to spawn drain thread: '' @ e"
| "error_fmt (SinkWriteFailed e) = bs ''sink write failed: '' @ e"
| "error_fmt (InvalidTimezoneOffset secs) =
     bs ''invalid timezone offset: '' @ signed_decimal (sint secs) @ bs '' seconds is outside [-43200, 50400]''"
| "error_fmt (InvalidFormatPattern msg) = bs ''invalid format pattern: '' @ fmt_error_text msg"
| "error_fmt (InvalidRingCapacity cap) =
     bs ''invalid ring capacity: '' @ decimal cap @ bs '' bytes is not a power of two >= '' @ decimal SLOT_SIZE"

fun error_source :: "ticklog_error \<Rightarrow> io_error option" where
  "error_source (DrainSpawnFailed e) = Some e"
| "error_source (SinkWriteFailed e) = Some e"
| "error_source _ = None"

section \<open>The keys of configure!\<close>

text \<open>The keys in the order given; the first occurrence of a key counts.\<close>

datatype config_item =
    SinkKey sink
  | MaxLevelKey level
  | BackpressureKey backpressure
  | TimezoneKey "32 word"
  | AffinityKey "nat list option"
  | CapacityKey nat
  | FormatKey bytes

fun pick_max_level :: "config_item list \<Rightarrow> level" where
  "pick_max_level (MaxLevelKey v # rest) = v"
| "pick_max_level (_ # rest) = pick_max_level rest"
| "pick_max_level [] = Info"

fun pick_backpressure :: "config_item list \<Rightarrow> backpressure" where
  "pick_backpressure (BackpressureKey v # rest) = v"
| "pick_backpressure (_ # rest) = pick_backpressure rest"
| "pick_backpressure [] = Drop"

fun pick_sink :: "'w io_ops \<Rightarrow> config_item list \<Rightarrow> sink" where
  "pick_sink io (SinkKey v # rest) = v"
| "pick_sink io (_ # rest) = pick_sink io rest"
| "pick_sink io [] = ConsoleSink (with_stream io Stderr)"

fun pick_timezone_offset :: "config_item list \<Rightarrow> 32 word" where
  "pick_timezone_offset (TimezoneKey v # rest) = v"
| "pick_timezone_offset (_ # rest) = pick_timezone_offset rest"
| "pick_timezone_offset [] = 0"

fun pick_drain_affinity :: "config_item list \<Rightarrow> nat list option" where
  "pick_drain_affinity (AffinityKey v # rest) = v"
| "pick_drain_affinity (_ # rest) = pick_drain_affinity rest"
| "pick_drain_affinity [] = None"

fun pick_ring_capacity :: "config_item list \<Rightarrow> nat" where
  "pick_ring_capacity (CapacityKey v # rest) = v"
| "pick_ring_capacity (_ # rest) = pick_ring_capacity rest"
| "pick_ring_capacity [] = DEFAULT_RING_SIZE"

fun pick_format :: "config_item list \<Rightarrow> bytes" where
  "pick_format (FormatKey v # rest) = v"
| "pick_format (_ # rest) = pick_format rest"
| "pick_format [] = []"

section \<open>Initialisation\<close>

definition MIN_TZ_OFFSET :: "32 word" where "MIN_TZ_OFFSET = - 43200"
definition MAX_TZ_OFFSET :: "32 word" where "MAX_TZ_OFFSET = 50400"
definition DEFAULT_LINE_PATTERN :: bytes where
  "DEFAULT_LINE_PATTERN = bs ''{timestamp} {level} {file}:{line} {message}''"

record boot =
  bt_freq :: u64
  bt_wall :: int
  bt_counter :: u64
  bt_spawn :: "io_error option"

text \<open>\<open>OnceLock::set\<close> keeps the first value.\<close>

definition set_once :: "'a \<Rightarrow> 'a option \<Rightarrow> 'a option" where
  "set_once x old = (case old of None \<Rightarrow> Some x | Some y \<Rightarrow> Some y)"

text \<open>Building and installing the segment pool; a second pool is refused.\<close>

definition install_segments ::
  "backpressure \<Rightarrow> nat \<Rightarrow> 32 word \<Rightarrow> calibration \<Rightarrow> segment list \<Rightarrow> bool \<Rightarrow> globals \<Rightarrow> (bool \<times> globals) option"
where
  "install_segments policy cap tz calib pat raw g =
     (case segments_init policy cap tz calib pat raw (g_heap g) of
        None \<Rightarrow> None
      | Some (sg, h) \<Rightarrow>
          Some (g_segments g = None, g\<lparr>g_heap := h, g_segments := set_once sg (g_segments g)\<rparr>))"

text \<open>The result is the drain the new thread runs, or an error; \<open>None\<close> is a panic.\<close>

definition configure_rt ::
  "bool \<Rightarrow> boot \<Rightarrow> sink \<Rightarrow> 32 word \<Rightarrow> nat \<Rightarrow> bytes \<Rightarrow> backpressure \<Rightarrow> globals
   \<Rightarrow> ((ticklog_error + drain_state) \<times> globals) option"
where
  "configure_rt fifo bt sink timezone_offset ring_capacity fmt backpressure g =
    (if \<not> (sint MIN_TZ_OFFSET \<le> sint timezone_offset \<and> sint timezone_offset \<le> sint MAX_TZ_OFFSET) then
       Some (Inl (InvalidTimezoneOffset timezone_offset), g)
     else if \<not> is_power_of_two ring_capacity \<or> ring_capacity < SLOT_SIZE then
       Some (Inl (InvalidRingCapacity ring_capacity), g)
     else case template_parse (if fmt = [] then DEFAULT_LINE_PATTERN else fmt) of
       Inl msg \<Rightarrow> Some (Inl (InvalidFormatPattern msg), g)
     | Inr line_pattern \<Rightarrow>
         let segmented = backpressure \<in> {NanoLog, Quill};
             policy = (if segmented \<and> fifo then Block else backpressure);
             g1 = g\<lparr>g_policy := set_once policy (g_policy g)\<rparr>
         in if g_registry g1 \<noteq> None then Some (Inl AlreadyInitialized, g1)
            else
              let g2 = g1\<lparr>g_registry := Some []\<rparr> in
              case calibrate (bt_freq bt) (bt_wall bt) (bt_counter bt) of
                None \<Rightarrow> None
              | Some calib \<Rightarrow>
                  (case (if segmented \<and> \<not> fifo
                         then install_segments policy ring_capacity timezone_offset calib line_pattern (raw_sink sink) g2
                         else Some (True, g2)) of
                     None \<Rightarrow> None
                   | Some (False, g3) \<Rightarrow> Some (Inl AlreadyInitialized, g3)
                   | Some (True, g3) \<Rightarrow>
                       let drain = drain_new sink timezone_offset calib line_pattern (segmented \<and> \<not> fifo);
                           g4 = g3\<lparr>g_capacity := set_once ring_capacity (g_capacity g3)\<rparr>
                       in case bt_spawn bt of
                            Some err \<Rightarrow> Some (Inl (DrainSpawnFailed err), g4)
                          | None \<Rightarrow> Some (Inr drain, g4)))"

definition configure ::
  "bool \<Rightarrow> 'w io_ops \<Rightarrow> boot \<Rightarrow> config_item list \<Rightarrow> globals \<Rightarrow> ((ticklog_error + drain_state) \<times> globals) option"
where
  "configure fifo io bt keys g =
     configure_rt fifo bt (pick_sink io keys) (pick_timezone_offset keys) (pick_ring_capacity keys)
       (pick_format keys) (pick_backpressure keys) g"

section \<open>The guard\<close>

text \<open>\<open>Guard::drop\<close> before it raises the shutdown flag: every registered ring is marked dead.\<close>

definition guard_drop :: "globals \<Rightarrow> globals" where
  "guard_drop g =
     (case g_registry g of None \<Rightarrow> g | Some rings \<Rightarrow> fold (\<lambda>a. update_ring a set_dead) rings g)"

section \<open>Facts\<close>

lemma set_once_simps [simp]: "set_once x None = Some x" "set_once x (Some y) = Some y"
  by (simp_all add: set_once_def)

lemma alloc_pool_ok:
  assumes "is_power_of_two cap" "SLOT_SIZE \<le> cap"
  shows "\<exists>as h'. alloc_pool n cap h = Some (as, h')"
proof (induction n arbitrary: h)
  case (Suc n)
  then show ?case using assms by (fastforce simp: with_capacity_arena_def split: prod.splits)
qed simp

lemma segments_init_ok:
  assumes "is_power_of_two cap" "SLOT_SIZE \<le> cap" "policy \<in> {NanoLog, Quill}"
  shows "\<exists>sg h'. segments_init policy cap tz calib pat raw h = Some (sg, h')"
  using assms(3) alloc_pool_ok [OF assms(1,2)]
  by (auto simp: segments_init_def init_with_pool_size_def Let_def) (metis (no_types, lifting) case_prod_conv option.map(2))

lemma fold_dead:
  "ring_at (fold (\<lambda>a. update_ring a set_dead) as g) b = (if b \<in> set as then set_dead (ring_at g b) else ring_at g b)"
  "g_registry (fold (\<lambda>a. update_ring a set_dead) as g) = g_registry g"
  "g_segments (fold (\<lambda>a. update_ring a set_dead) as g) = g_segments g"
  by (induction as arbitrary: g) (auto simp: set_dead_def)

lemma guard_drop_simps:
  "g_registry g = Some rings \<Longrightarrow> ring_at (guard_drop g) b = (if b \<in> set rings then set_dead (ring_at g b) else ring_at g b)"
  "g_registry (guard_drop g) = g_registry g" "g_segments (guard_drop g) = g_segments g"
  by (auto simp: guard_drop_def fold_dead split: option.splits)

end
