(* ===== verification/Drain_Laws.thy ===== *)
theory Drain_Laws
  imports Drain_Thread "HOL-Library.Multiset"
begin

text \<open>
  Laws of the drain thread: what a pass over a ring delivers and leaves behind, in which order a
  poll visits the rings, and what a sync makes of the ring list. They are proved for every sink
  that takes whatever it is given; the unbounded in-memory sink is one.
\<close>

section \<open>Rings ready to be drained\<close>

text \<open>The head a pass reads: a dead ring's producer has left its private position behind.\<close>

definition visible_head :: "features \<Rightarrow> ring \<Rightarrow> u64" where
  "visible_head ft r = (if watermark_head ft \<and> \<not> rb_live r then rb_local_head r else rb_head r)"

definition ring_ready :: "features \<Rightarrow> ring \<Rightarrow> bytes list \<Rightarrow> bool" where
  "ring_ready ft r rs \<longleftrightarrow> ring_wf r \<and> 64 dvd unat (rb_tail r) \<and> rb_head_cache r = rb_tail r \<and>
     frames (rb_data r) (rb_capacity r) (unat (rb_tail r)) (unat (visible_head ft r)) rs"

lemma frames_wire: "frames d cap p q rs \<Longrightarrow> list_all wire_ok rs"
  by (induction rule: frames.induct) auto

lemma ready_wire: "ring_ready ft r rs \<Longrightarrow> list_all wire_ok rs"
  by (auto simp: ring_ready_def intro: frames_wire)

lemma holds_ready: "ring_holds ft k r rs \<Longrightarrow> ring_ready ft r rs"
  using drain_view_frames [of ft r Asleep rs]
  by (auto simp: ring_holds_def ring_ready_def ring_view_def visible_head_def producer_head_def)

lemma dead_ready: "\<not> watermark_head ft \<Longrightarrow> ring_ready ft (set_dead r) rs = ring_ready ft r rs"
  by (simp add: ring_ready_def set_dead_def visible_head_def ring_wf_def)

text \<open>What a pass and a recycling leave of a ring.\<close>

definition same_ring :: "ring \<Rightarrow> ring \<Rightarrow> bool" where
  "same_ring r r' \<longleftrightarrow> rb_live r' = rb_live r \<and> rb_serial r' = rb_serial r \<and> rb_handed_off r' = rb_handed_off r \<and>
     rb_helper_reserved r' = rb_helper_reserved r \<and> rb_thread_id r' = rb_thread_id r \<and>
     rb_thread_name r' = rb_thread_name r \<and> rb_capacity r' = rb_capacity r \<and> rb_recyclable r' = rb_recyclable r"

lemma same_ring_refl [simp]: "same_ring r r"
  by (simp add: same_ring_def)

lemma same_ring_trans: "same_ring r r' \<Longrightarrow> same_ring r' r'' \<Longrightarrow> same_ring r r''"
  by (simp add: same_ring_def)

lemma ready_drain:
  assumes "ring_ready ft r rs" "deliver_all step rs k = Some k'"
  shows "\<exists>r'. drain_ring ft step r k = Some (rs \<noteq> [], r', k') \<and> ring_ready ft r' [] \<and> same_ring r r' \<and>
    rb_head r' = rb_tail r'"
proof -
  define r0 where "r0 = (mark_draining r)\<lparr>rb_head := visible_head ft r\<rparr>"
  have fl: "watermark_head ft \<Longrightarrow> \<not> rb_live r \<Longrightarrow> flush_watermark (mark_draining r) = r0\<lparr>rb_since_watermark := 0\<rparr> \<or> flush_watermark (mark_draining r) = r0"
    by (auto simp: flush_watermark_def r0_def mark_draining_def visible_head_def)
  obtain r1 where b: "drain_begin ft (mark_draining r) = (r1, visible_head ft r)"
    and r1: "r1 = r0 \<or> r1 = r0\<lparr>rb_since_watermark := 0\<rparr>"
    using assms(1) fl by (auto simp: drain_begin_def ring_ready_def Let_def visible_head_def r0_def mark_draining_def split: if_splits)
  have wf: "ring_wf (mark_draining r)" "64 dvd unat (rb_tail r1)"
    and fr: "frames (rb_data r1) (rb_capacity r1) (unat (rb_tail r1)) (unat (visible_head ft r)) rs"
    using assms(1) r1 by (auto simp: ring_ready_def mark_draining_def ring_wf_def r0_def)
  define r' where "r' = clear_draining (if rb_tail r1 = visible_head ft r then r1
    else drain_end (visible_head ft r) (visible_head ft r) r1)"
  have "drain_ring ft step r k = Some (rs \<noteq> [], r', k')"
    using drain_ring_inner_frames [OF wf(1) b wf(2) fr, of step k] assms(2)
    by (simp add: drain_ring_def r'_def)
  moreover have "ring_wf r1" using assms(1) r1 by (auto simp: ring_ready_def ring_wf_def r0_def mark_draining_def)
  moreover have "64 dvd unat (visible_head ft r)"
    using frames_dvd [OF fr _ wf(2)] ring_wf_cap(2) [OF \<open>ring_wf r1\<close>] by blast
  ultimately show ?thesis
    using r1 assms(1)
    by (auto simp: r'_def r0_def ring_ready_def clear_draining_def drain_end_def mark_draining_def same_ring_def
        ring_wf_def visible_head_def intro!: frames_nil)
qed

section \<open>Reconciling the ring list\<close>

lemma swap_remove_append:
  "swap_remove (length ys) (ys @ x # zs) = ys @ (if zs = [] then [] else last zs # butlast zs)"
  by (auto simp: swap_remove_def butlast_append list_update_append)

lemma mset_last_butlast: "zs \<noteq> [] \<Longrightarrow> mset (last zs # butlast zs) = mset zs"
proof -
  assume "zs \<noteq> []"
  then have "mset zs = mset (butlast zs @ [last zs])" by simp
  then show ?thesis by simp
qed

definition current :: "globals \<Rightarrow> nat \<Rightarrow> nat \<times> u64" where
  "current g a = (a, rb_serial (ring_at g a))"

lemma reconcile_append:
  "distinct (map fst (ys @ zs)) \<Longrightarrow>
   \<exists>zs'. reconcile g regs (length ys) (ys @ zs) = ys @ zs' \<and> distinct (map fst (ys @ zs')) \<and>
     set zs' = current g ` {a \<in> fst ` set zs. a \<in> set regs \<and> keep_ring g a}"
proof (induction "length zs" arbitrary: ys zs)
  case (Suc n)
  obtain a s zs0 where zs: "zs = (a, s) # zs0" using Suc(2) by (cases zs) auto
  show ?case
  proof (cases "a \<in> set regs \<and> keep_ring g a")
    case True
    have "distinct (map fst ((ys @ [current g a]) @ zs0))" using Suc(3) by (simp add: zs current_def)
    from Suc(1) [OF _ this] obtain zs' where
      IH: "reconcile g regs (length (ys @ [current g a])) ((ys @ [current g a]) @ zs0) = (ys @ [current g a]) @ zs'"
        "distinct (map fst ((ys @ [current g a]) @ zs'))"
        "set zs' = current g ` {b \<in> fst ` set zs0. b \<in> set regs \<and> keep_ring g b}"
      using Suc(2) zs by auto
    have "reconcile g regs (length ys) (ys @ zs) = ys @ (current g a # zs')"
      using IH(1) True by (subst reconcile.simps) (auto simp: zs nth_append current_def list_update_append)
    moreover have "set (current g a # zs') = current g ` {b \<in> fst ` set zs. b \<in> set regs \<and> keep_ring g b}"
      using IH(3) True by (auto simp: zs)
    ultimately show ?thesis using IH(2) by (intro exI [of _ "current g a # zs'"]) simp
  next
    case False
    define zs1 where "zs1 = (if zs0 = [] then [] else last zs0 # butlast zs0)"
    have m: "mset zs1 = mset zs0" using mset_last_butlast [of zs0] by (simp add: zs1_def)
    have "mset (map fst (ys @ zs1)) = mset (map fst (ys @ zs0))" using m by simp
    moreover have "distinct (map fst (ys @ zs0))" using Suc(3) by (simp add: zs)
    ultimately have "distinct (map fst (ys @ zs1))" using mset_eq_imp_distinct_iff by blast
    moreover have "n = length zs1" using Suc(2) mset_eq_length [OF m] by (simp add: zs)
    ultimately obtain zs' where IH: "reconcile g regs (length ys) (ys @ zs1) = ys @ zs'"
        "distinct (map fst (ys @ zs'))"
        "set zs' = current g ` {b \<in> fst ` set zs1. b \<in> set regs \<and> keep_ring g b}"
      using Suc(1) by blast
    have "reconcile g regs (length ys) (ys @ zs) = ys @ zs'"
      using False IH(1) by (subst reconcile.simps) (auto simp: zs swap_remove_append zs1_def)
    moreover have "set zs1 = set zs0" using mset_eq_setD [OF m] .
    then have "{b \<in> fst ` set zs1. b \<in> set regs \<and> keep_ring g b} = {b \<in> fst ` set zs. b \<in> set regs \<and> keep_ring g b}"
      using False by (auto simp: zs)
    ultimately show ?thesis using IH(2,3) by (metis (lifting))
  qed
qed (auto simp: reconcile.simps)

lemma add_registered_set:
  "distinct (map fst rings) \<Longrightarrow>
   distinct (map fst (add_registered g regs rings)) \<and>
   set (add_registered g regs rings) =
     set rings \<union> current g ` {a \<in> set regs. keep_ring g a \<and> a \<notin> fst ` set rings}"
  by (induction regs arbitrary: rings) (auto simp: current_def image_iff)

text \<open>After a sync the list holds exactly the registered rings that stay, under their serials.\<close>

definition synced :: "globals \<Rightarrow> nat list \<Rightarrow> (nat \<times> u64) list \<Rightarrow> (nat \<times> u64) list" where
  "synced g regs rings = add_registered g regs (reconcile g regs 0 rings)"

lemma synced_set:
  assumes "distinct (map fst rings)"
  shows "distinct (map fst (synced g regs rings))"
    "set (synced g regs rings) = current g ` {a \<in> set regs. keep_ring g a}"
proof -
  obtain zs where z: "reconcile g regs 0 rings = zs" "distinct (map fst zs)"
    "set zs = current g ` {a \<in> fst ` set rings. a \<in> set regs \<and> keep_ring g a}"
    using reconcile_append [of "[]" rings g regs] assms by auto
  note a = add_registered_set [OF z(2), of g regs]
  show "distinct (map fst (synced g regs rings))" using a z(1) by (simp add: synced_def)
  have "fst ` set zs \<subseteq> {a \<in> set regs. keep_ring g a}" using z(3) by (auto simp: current_def)
  then show "set (synced g regs rings) = current g ` {a \<in> set regs. keep_ring g a}"
    using a z by (auto simp: synced_def current_def image_iff)
qed

lemma finalize_list_set:
  assumes "distinct regs" "distinct (map fst rings)"
  shows "distinct (finalize_list g regs rings)"
    "set (finalize_list g regs rings) = {a \<in> set regs \<union> fst ` set rings. \<not> keep_ring g a}"
  using assms by (auto simp: finalize_list_def)

section \<open>Segments going back to the pool\<close>

definition helper_lines :: "globals \<Rightarrow> (bytes \<times> level) list" where
  "helper_lines g = (case g_segments g of None \<Rightarrow> [] | Some sg \<Rightarrow> sg_lines sg)"

lemma return_segment_frame [simp]:
  "g_registry (return_segment a g) = g_registry g"
  "b \<noteq> a \<Longrightarrow> ring_at (return_segment a g) b = ring_at g b"
  "helper_lines (return_segment a g) = helper_lines g"
  "g_segments (return_segment a g) = None \<longleftrightarrow> g_segments g = None"
  by (auto simp: return_segment_def drain_recycle_def recycle_def helper_lines_def mark_recycled_def
      split: option.splits prod.splits)

lemma return_segment_ready [simp]:
  "ring_ready ft (ring_at (return_segment a g) b) rs \<longleftrightarrow> ring_ready ft (ring_at g b) rs"
  by (cases "b = a") (auto simp: return_segment_def drain_recycle_def mark_recycled_def ring_ready_def ring_wf_def
      visible_head_def split: option.splits prod.splits)

lemma helper_lines_frame [simp]:
  "helper_lines (update_ring a f g) = helper_lines g" "helper_lines (g\<lparr>g_registry := x\<rparr>) = helper_lines g"
  "ring_at (g\<lparr>g_registry := x\<rparr>) b = ring_at g b" "keep_ring (g\<lparr>g_registry := x\<rparr>) b = keep_ring g b"
  by (simp_all add: helper_lines_def keep_ring_def update_ring_def)

text \<open>The order in which a poll visits the remaining list: removing a retired entry moves the last
  one into its place.\<close>

function visit_order :: "(nat \<Rightarrow> bool) \<Rightarrow> nat list \<Rightarrow> nat list" where
  "visit_order gone [] = []"
| "visit_order gone (a # as) =
     a # visit_order gone (if gone a \<and> as \<noteq> [] then last as # butlast as else as)"
  by pat_completeness auto
termination by (relation "measure (length \<circ> snd)") auto

lemma visit_order_mset: "mset (visit_order gone as) = mset as"
proof (induction gone as rule: visit_order.induct)
  case (2 gone a as)
  then show ?case using mset_last_butlast [of as] by (auto split: if_splits)
qed simp

lemma visit_order_cong: "(\<And>a. a \<in> set as \<Longrightarrow> gone a = gone' a) \<Longrightarrow> visit_order gone as = visit_order gone' as"
proof (induction gone as rule: visit_order.induct)
  case (2 gone a as)
  let ?bs = "if gone a \<and> as \<noteq> [] then last as # butlast as else as"
  have "set ?bs = set as" using mset_eq_setD [OF mset_last_butlast [of as]] by simp
  then have "visit_order gone ?bs = visit_order gone' ?bs" using 2 by (metis list.set_intros(2))
  then show ?case using 2(2) [of a] by simp
qed simp

definition retires :: "globals \<Rightarrow> nat \<Rightarrow> bool" where
  "retires g a \<longleftrightarrow> rb_handed_off (ring_at g a) \<and> a \<in> set (the (g_registry g))"

lemma maybe_retire_drained:
  assumes "\<not> rb_helper_reserved (ring_at g a)" "rb_head (ring_at g a) = rb_tail (ring_at g a)" "g_registry g = Some regs"
  shows "maybe_retire i a (rb_serial (ring_at g a)) d g =
    Some (if retires g a then (True, d\<lparr>dr_rings := swap_remove i (dr_rings d)\<rparr>,
            return_segment a (g\<lparr>g_registry := Some (filter (\<lambda>b. b \<noteq> a) regs)\<rparr>))
          else (False, d, g))"
  using assms by (auto simp: maybe_retire_def retires_def Let_def)

section \<open>Sinks that take everything\<close>

text \<open>
  The interface a pass relies on: on a good sink every valid record is accepted and adds its
  rendering to what the sink has seen; so do the payloads of helpers, and a flush settles it all.
\<close>

locale lossless_sink =
  fixes io :: "'w io_ops" and e :: env and tz :: "32 word" and calib :: calibration and pat :: "segment list"
    and good :: "sink \<times> 'w \<Rightarrow> bool" and seen :: "sink \<times> 'w \<Rightarrow> 'o list"
    and valid :: "ring \<Rightarrow> bytes \<Rightarrow> bool" and shown :: "ring \<Rightarrow> bytes \<Rightarrow> 'o list"
    and shown_payload :: "bytes \<times> level \<Rightarrow> 'o list" and settled :: "sink \<times> 'w \<Rightarrow> 'o list"
  assumes takes: "good (s, w) \<Longrightarrow> wire_ok x \<Longrightarrow> valid r x \<Longrightarrow>
      \<exists>s' w'. to_sink io e (raw_sink s) tz calib pat r x (record_level x) (s, w) = Some (s', w') \<and>
        good (s', w') \<and> raw_sink s' = raw_sink s \<and> seen (s', w') = seen (s, w) @ shown r x"
    and takes_payload: "good (s, w) \<Longrightarrow>
      \<exists>s' w'. deliver_payloads io (raw_sink s) ps s w = Some (s', w') \<and> good (s', w') \<and>
        seen (s', w') = seen (s, w) @ concat (map shown_payload ps)"
    and flushes: "good (s, w) \<Longrightarrow> sink_flush io s w = (s', w', r') \<Longrightarrow> good (s', w') \<and> settled (s', w') = seen (s, w)"
begin

definition inputs :: "drain_state \<Rightarrow> bool" where
  "inputs d \<longleftrightarrow> dr_offset d = tz \<and> dr_calib d = calib \<and> dr_pattern d = pat"

definition out :: "globals \<Rightarrow> (nat \<Rightarrow> bytes list) \<Rightarrow> nat \<Rightarrow> 'o list" where
  "out g recs a = concat (map (shown (ring_at g a)) (recs a))"

definition waiting :: "features \<Rightarrow> globals \<Rightarrow> (nat \<Rightarrow> bytes list) \<Rightarrow> nat \<Rightarrow> bool" where
  "waiting ft g recs a \<longleftrightarrow> ring_ready ft (ring_at g a) (recs a) \<and> list_all (valid (ring_at g a)) (recs a)"

lemma deliver_all_takes:
  assumes "good (s, w)" "list_all wire_ok rs" "list_all (valid r) rs"
  shows "\<exists>s' w'. deliver_all (to_sink io e (raw_sink s) tz calib pat r) rs (s, w) = Some (s', w') \<and>
    good (s', w') \<and> seen (s', w') = seen (s, w) @ concat (map (shown r) rs)"
  using assms
proof (induction rs arbitrary: s w)
  case (Cons x rs)
  obtain s1 w1 where 1: "to_sink io e (raw_sink s) tz calib pat r x (record_level x) (s, w) = Some (s1, w1)"
    "good (s1, w1)" "raw_sink s1 = raw_sink s" "seen (s1, w1) = seen (s, w) @ shown r x"
    using takes [of s w x r] Cons.prems by auto
  from Cons.IH [OF 1(2)] 1 Cons.prems show ?case by auto
qed simp

lemma drain_at_takes:
  assumes "inputs d" "good (dr_sink d, w)" "waiting ft g recs a"
  shows "\<exists>s' w' r'. drain_at ft io e a d g w = Some (recs a \<noteq> [], d\<lparr>dr_sink := s'\<rparr>, update_ring a (\<lambda>_. r') g, w') \<and>
    good (s', w') \<and> seen (s', w') = seen (dr_sink d, w) @ out g recs a \<and>
    ring_ready ft r' [] \<and> same_ring (ring_at g a) r' \<and> rb_head r' = rb_tail r'"
proof -
  have r: "ring_ready ft (ring_at g a) (recs a)" and v: "list_all (valid (ring_at g a)) (recs a)"
    using assms(3) by (simp_all add: waiting_def)
  obtain s' w' where d: "deliver_all (to_sink io e (raw_sink (dr_sink d)) tz calib pat (ring_at g a)) (recs a) (dr_sink d, w) =
      Some (s', w')" "good (s', w')" "seen (s', w') = seen (dr_sink d, w) @ out g recs a"
    using deliver_all_takes [OF assms(2) ready_wire [OF r] v] by (auto simp: out_def)
  from ready_drain [OF r d(1)] obtain r' where r': "drain_ring ft (to_sink io e (raw_sink (dr_sink d)) tz calib pat (ring_at g a))
      (ring_at g a) (dr_sink d, w) = Some (recs a \<noteq> [], r', s', w')"
    "ring_ready ft r' []" "same_ring (ring_at g a) r'" "rb_head r' = rb_tail r'" by blast
  then have "drain_at ft io e a d g w = Some (recs a \<noteq> [], d\<lparr>dr_sink := s'\<rparr>, update_ring a (\<lambda>_. r') g, w')"
    using assms(1) by (simp add: drain_at_def inputs_def)
  then show ?thesis using d(2,3) r' by blast
qed

lemma finalize_takes:
  assumes "inputs d" "good (dr_sink d, w)" "distinct as" "\<forall>a\<in>set as. waiting ft g recs a"
  shows "\<exists>s' g' w'. finalize_rings ft io e as d g w = Some (d\<lparr>dr_sink := s'\<rparr>, g', w') \<and> good (s', w') \<and>
    seen (s', w') = seen (dr_sink d, w) @ concat (map (out g recs) as) \<and>
    (\<forall>a\<in>set as. ring_ready ft (ring_at g' a) []) \<and> (\<forall>a. a \<notin> set as \<longrightarrow> ring_at g' a = ring_at g a) \<and>
    g_registry g' = g_registry g \<and> helper_lines g' = helper_lines g \<and> (g_segments g' = None \<longleftrightarrow> g_segments g = None)"
  using assms
proof (induction as arbitrary: d g w)
  case Nil
  show ?case using Nil by (intro exI [of _ "dr_sink d"] exI [of _ g] exI [of _ w]) simp
next
  case (Cons a as)
  obtain s1 w1 r1 where 1: "drain_at ft io e a d g w = Some (recs a \<noteq> [], d\<lparr>dr_sink := s1\<rparr>, update_ring a (\<lambda>_. r1) g, w1)"
    "good (s1, w1)" "seen (s1, w1) = seen (dr_sink d, w) @ out g recs a" "ring_ready ft r1 []"
    using drain_at_takes [OF Cons.prems(1,2), of ft g recs a] Cons.prems(4) by auto
  let ?g1 = "return_segment a (update_ring a (\<lambda>_. r1) g)"
  have same: "ring_at ?g1 b = ring_at g b" if "b \<noteq> a" for b using that by simp
  have w: "\<forall>b\<in>set as. waiting ft ?g1 recs b"
    using Cons.prems(3,4) same by (metis distinct.simps(2) list.set_intros(2) waiting_def)
  have out: "map (out ?g1 recs) as = map (out g recs) as"
    using Cons.prems(3) same by (intro map_cong refl) (metis out_def distinct.simps(2))
  have sg: "g_segments ?g1 = None \<longleftrightarrow> g_segments g = None" by simp
  from Cons.IH [of "d\<lparr>dr_sink := s1\<rparr>" w1 ?g1] w 1(2) Cons.prems(1,3) obtain s2 g2 w2 where
    2: "finalize_rings ft io e as (d\<lparr>dr_sink := s1\<rparr>) ?g1 w1 = Some (d\<lparr>dr_sink := s2\<rparr>, g2, w2)" "good (s2, w2)"
      "seen (s2, w2) = seen (s1, w1) @ concat (map (out ?g1 recs) as)" "\<forall>b\<in>set as. ring_ready ft (ring_at g2 b) []"
      "\<forall>b. b \<notin> set as \<longrightarrow> ring_at g2 b = ring_at ?g1 b" "g_registry g2 = g_registry ?g1"
      "helper_lines g2 = helper_lines ?g1" "g_segments g2 = None \<longleftrightarrow> g_segments ?g1 = None"
    by (auto simp: inputs_def)
  have "ring_ready ft (ring_at g2 a) []" using 2(5) Cons.prems(3) 1(4) by simp
  then show ?case
    using 1 2 out sg same Cons.prems(3)
    by (intro exI [of _ s2] exI [of _ g2] exI [of _ w2]) auto
qed

lemma poll_takes:
  assumes "inputs d" "good (dr_sink d, w)" "dr_rings d = ys @ zs" "distinct (map fst zs)" "g_registry g \<noteq> None"
    "\<forall>a\<in>fst ` set zs. current g a \<in> set zs \<and> \<not> rb_helper_reserved (ring_at g a) \<and> waiting ft g recs a"
  shows "\<exists>hw' d' g' w'. poll_rings ft io e (length ys) hw d g w = Some (hw', d', g', w') \<and> inputs d' \<and>
    dr_segmented d' = dr_segmented d \<and> good (dr_sink d', w') \<and>
    seen (dr_sink d', w') = seen (dr_sink d, w) @ concat (map (out g recs) (visit_order (retires g) (map fst zs))) \<and>
    (\<forall>a\<in>fst ` set zs. ring_ready ft (ring_at g' a) []) \<and> (\<forall>a. a \<notin> fst ` set zs \<longrightarrow> ring_at g' a = ring_at g a) \<and>
    helper_lines g' = helper_lines g \<and> (g_segments g' = None \<longleftrightarrow> g_segments g = None)"
  using assms
proof (induction "length zs" arbitrary: hw d g w ys zs)
  case 0
  then show ?case by (subst poll_rings.simps) auto
next
  case (Suc n)
  obtain a s zs0 where zs: "zs = (a, s) # zs0" using Suc(2) by (cases zs) auto
  obtain regs where regs: "g_registry g = Some regs" using Suc.prems(5) by auto
  have a: "rb_serial (ring_at g a) = s" "\<not> rb_helper_reserved (ring_at g a)" "waiting ft g recs a"
    using Suc.prems(4,6) by (auto simp: zs current_def dest: image_eqI [of a fst, rotated])
  obtain s1 w1 r1 where 1: "drain_at ft io e a d g w = Some (recs a \<noteq> [], d\<lparr>dr_sink := s1\<rparr>, update_ring a (\<lambda>_. r1) g, w1)"
    "good (s1, w1)" "seen (s1, w1) = seen (dr_sink d, w) @ out g recs a" "ring_ready ft r1 []"
    "same_ring (ring_at g a) r1" "rb_head r1 = rb_tail r1"
    using drain_at_takes [OF Suc.prems(1,2) a(3)] by auto
  define g1 where "g1 = update_ring a (\<lambda>_. r1) g"
  define zs1 where "zs1 = (if retires g a \<and> zs0 \<noteq> [] then last zs0 # butlast zs0 else zs0)"
  define ys1 where "ys1 = (if retires g a then ys else ys @ [(a, s)])"
  define d1 where "d1 = d\<lparr>dr_sink := s1, dr_rings := ys1 @ zs1\<rparr>"
  define g2 where "g2 = (if retires g a then return_segment a (g1\<lparr>g_registry := Some (filter (\<lambda>b. b \<noteq> a) regs)\<rparr>) else g1)"
  have rt: "retires g1 a = retires g a" using 1(5) by (simp add: retires_def g1_def same_ring_def)
  have mr: "maybe_retire (length ys) a s (d\<lparr>dr_sink := s1\<rparr>) g1 = Some (retires g a, d1, g2)"
    using maybe_retire_drained [of g1 a regs "length ys" "d\<lparr>dr_sink := s1\<rparr>"] 1(5,6) a(1,2) regs rt Suc.prems(3)
    by (auto simp: same_ring_def g1_def [symmetric] g2_def d1_def zs1_def ys1_def swap_remove_append zs)
      (simp_all add: g1_def)
  have poll: "poll_rings ft io e (length ys) hw d g w =
      poll_rings ft io e (length ys1) (hw \<or> recs a \<noteq> []) d1 g2 w1"
    using 1(1) mr a(1,2) Suc.prems(3) by (subst poll_rings.simps) (simp add: zs g1_def [symmetric] ys1_def)
  have m: "mset zs1 = mset zs0" using mset_last_butlast [of zs0] by (simp add: zs1_def)
  have sz: "set zs1 = set zs0" and mf: "mset (map fst zs1) = mset (map fst zs0)"
    using mset_eq_setD [OF m] m by simp_all
  have other: "ring_at g2 b = ring_at g b" "retires g2 b = retires g b" "current g2 b = current g b" if "b \<noteq> a" for b
    using that regs by (auto simp: g2_def g1_def retires_def current_def)
  have na: "b \<noteq> a" if "b \<in> fst ` set zs0" for b using that Suc.prems(4) by (auto simp: zs)
  have pre: "inputs d1" "good (dr_sink d1, w1)" "dr_rings d1 = ys1 @ zs1" "distinct (map fst zs1)" "g_registry g2 \<noteq> None"
    "\<forall>b\<in>fst ` set zs1. current g2 b \<in> set zs1 \<and> \<not> rb_helper_reserved (ring_at g2 b) \<and> waiting ft g2 recs b"
  proof -
    show "inputs d1" "good (dr_sink d1, w1)" "dr_rings d1 = ys1 @ zs1" "g_registry g2 \<noteq> None"
      using Suc.prems(1) 1(2) regs by (simp_all add: inputs_def d1_def g2_def g1_def)
    show "distinct (map fst zs1)" using mset_eq_imp_distinct_iff [OF mf] Suc.prems(4) by (simp add: zs)
    show "\<forall>b\<in>fst ` set zs1. current g2 b \<in> set zs1 \<and> \<not> rb_helper_reserved (ring_at g2 b) \<and> waiting ft g2 recs b"
    proof
      fix b assume "b \<in> fst ` set zs1"
      then have b: "b \<in> fst ` set zs0" "b \<noteq> a" using sz na by auto
      then have "current g b \<in> set zs" "\<not> rb_helper_reserved (ring_at g b)" "waiting ft g recs b"
        using Suc.prems(6) by (auto simp: zs)
      then show "current g2 b \<in> set zs1 \<and> \<not> rb_helper_reserved (ring_at g2 b) \<and> waiting ft g2 recs b"
        using b(2) other [OF b(2)] sz by (auto simp: zs current_def waiting_def)
    qed
  qed
  have "n = length zs1" using Suc(2) mset_eq_length [OF m] by (simp add: zs)
  from Suc.hyps(1) [OF this pre, of "hw \<or> recs a \<noteq> []"] obtain hw' d' g' w' where
    2: "poll_rings ft io e (length ys1) (hw \<or> recs a \<noteq> []) d1 g2 w1 = Some (hw', d', g', w')" "inputs d'"
      "dr_segmented d' = dr_segmented d1" "good (dr_sink d', w')"
      "seen (dr_sink d', w') = seen (dr_sink d1, w1) @ concat (map (out g2 recs) (visit_order (retires g2) (map fst zs1)))"
      "\<forall>b\<in>fst ` set zs1. ring_ready ft (ring_at g' b) []" "\<forall>b. b \<notin> fst ` set zs1 \<longrightarrow> ring_at g' b = ring_at g2 b"
      "helper_lines g' = helper_lines g2" "g_segments g' = None \<longleftrightarrow> g_segments g2 = None"
    by (elim exE conjE) (rule that)
  have vo: "map (out g2 recs) (visit_order (retires g2) (map fst zs1)) = map (out g recs) (visit_order (retires g) (map fst zs1))"
  proof -
    have "visit_order (retires g2) (map fst zs1) = visit_order (retires g) (map fst zs1)"
      using na other sz by (intro visit_order_cong) auto
    moreover have "set (visit_order (retires g) (map fst zs1)) = fst ` set zs0"
      using mset_eq_setD [OF visit_order_mset] sz by auto
    ultimately show ?thesis using na other by (auto simp: out_def)
  qed
  have "map fst zs1 = (if retires g a \<and> map fst zs0 \<noteq> [] then last (map fst zs0) # butlast (map fst zs0) else map fst zs0)"
    by (simp add: zs1_def last_map map_butlast)
  then have "visit_order (retires g) (map fst zs) = a # visit_order (retires g) (map fst zs1)" by (simp add: zs)
  moreover have "ring_at g' a = ring_at g2 a" using 2(7) sz na [of a] by auto
  then have "ring_ready ft (ring_at g' a) []" using 1(4) by (simp add: g2_def g1_def)
  ultimately show ?case
    using 2 vo poll sz 1(3) other
    by (intro exI [of _ hw'] exI [of _ d'] exI [of _ g'] exI [of _ w']) (auto simp: zs d1_def g2_def g1_def)
qed

lemma sync_takes:
  assumes "inputs d" "good (dr_sink d, w)" "g_registry g = Some regs" "distinct regs" "distinct (map fst (dr_rings d))"
    "\<forall>a\<in>set (finalize_list g regs (dr_rings d)). waiting ft g recs a"
  shows "\<exists>s' g' w'. sync_rings ft io e d g w = Some (d\<lparr>dr_rings := synced g regs (dr_rings d), dr_sink := s'\<rparr>, g', w') \<and>
    good (s', w') \<and>
    seen (s', w') = seen (dr_sink d, w) @ concat (map (out g recs) (finalize_list g regs (dr_rings d))) \<and>
    (\<forall>a\<in>set (finalize_list g regs (dr_rings d)). ring_ready ft (ring_at g' a) []) \<and>
    (\<forall>a. a \<notin> set (finalize_list g regs (dr_rings d)) \<longrightarrow> ring_at g' a = ring_at g a) \<and>
    g_registry g' = Some (filter (keep_ring g) regs) \<and> helper_lines g' = helper_lines g \<and>
    (g_segments g' = None \<longleftrightarrow> g_segments g = None)"
proof -
  let ?g = "g\<lparr>g_registry := Some (filter (keep_ring g) regs)\<rparr>"
  have "waiting ft ?g = waiting ft g" "out ?g = out g" by (auto simp: waiting_def out_def fun_eq_iff)
  then show ?thesis
    using finalize_takes [of "d\<lparr>dr_rings := synced g regs (dr_rings d)\<rparr>" w "finalize_list g regs (dr_rings d)" ft ?g recs]
      assms finalize_list_set(1) [OF assms(4,5), of g]
    by (simp add: sync_rings_def synced_def inputs_def)
qed

lemma poll_once_takes:
  assumes "inputs d" "good (dr_sink d, w)" "distinct (map fst (dr_rings d))" "g_registry g \<noteq> None"
    "\<forall>a\<in>fst ` set (dr_rings d). current g a \<in> set (dr_rings d) \<and> \<not> rb_helper_reserved (ring_at g a) \<and> waiting ft g recs a"
    "dr_segmented d \<longleftrightarrow> g_segments g \<noteq> None"
  shows "\<exists>hw' d' g' w'. poll_once ft io e d g w = Some (hw', d', g', w') \<and> good (dr_sink d', w') \<and>
    seen (dr_sink d', w') = seen (dr_sink d, w) @
      concat (map (out g recs) (visit_order (retires g) (map fst (dr_rings d)))) @
      concat (map shown_payload (helper_lines g)) \<and>
    (\<forall>a\<in>fst ` set (dr_rings d). ring_ready ft (ring_at g' a) []) \<and>
    (\<forall>a. a \<notin> fst ` set (dr_rings d) \<longrightarrow> ring_at g' a = ring_at g a) \<and> helper_lines g' = []"
proof -
  obtain hw d1 g1 w1 where 1: "poll_rings ft io e 0 False d g w = Some (hw, d1, g1, w1)" "inputs d1"
    "dr_segmented d1 = dr_segmented d" "good (dr_sink d1, w1)"
    "seen (dr_sink d1, w1) = seen (dr_sink d, w) @ concat (map (out g recs) (visit_order (retires g) (map fst (dr_rings d))))"
    "\<forall>a\<in>fst ` set (dr_rings d). ring_ready ft (ring_at g1 a) []" "\<forall>a. a \<notin> fst ` set (dr_rings d) \<longrightarrow> ring_at g1 a = ring_at g a"
    "helper_lines g1 = helper_lines g" "g_segments g1 = None \<longleftrightarrow> g_segments g = None"
    using poll_takes [OF assms(1,2) append_Nil [symmetric] assms(3-5), of False, unfolded list.size] by (elim exE conjE) (rule that)
  show ?thesis
  proof (cases "g_segments g1")
    case None
    then have "helper_lines g = []" using 1(8) by (simp add: helper_lines_def)
    then show ?thesis using 1 None by (auto simp: poll_once_def)
  next
    case (Some sg)
    from takes_payload [OF 1(4), of "sg_lines sg"] obtain s' w' where
      p: "deliver_payloads io (raw_sink (dr_sink d1)) (sg_lines sg) (dr_sink d1) w1 = Some (s', w')" "good (s', w')"
        "seen (s', w') = seen (dr_sink d1, w1) @ concat (map shown_payload (sg_lines sg))" by blast
    have "dr_segmented d1" "sg_lines sg = helper_lines g" using Some 1 assms(6) by (auto simp: helper_lines_def)
    then show ?thesis using 1 p Some by (simp add: poll_once_def take_lines_def helper_lines_def)
  qed
qed

text \<open>The last pass before the drain exits: first the dead rings, then the list, then the helpers.\<close>

lemma final_pass_takes:
  assumes "inputs d" "good (dr_sink d, w)" "g_registry g = Some regs" "distinct regs" "distinct (map fst (dr_rings d))"
    "\<forall>a\<in>set regs \<union> fst ` set (dr_rings d). \<not> rb_helper_reserved (ring_at g a) \<and> waiting ft g recs a"
    "dr_segmented d \<longleftrightarrow> g_segments g \<noteq> None"
  shows "\<exists>d' g' w'. final_pass ft io e d g w = Some (d', g', w') \<and> good (dr_sink d', w') \<and>
    settled (dr_sink d', w') = seen (dr_sink d, w) @
      concat (map (out g recs) (finalize_list g regs (dr_rings d) @
        visit_order (retires g) (map fst (synced g regs (dr_rings d))))) @
      concat (map shown_payload (helper_lines g)) \<and>
    (\<forall>a\<in>set regs. ring_ready ft (ring_at g' a) []) \<and> helper_lines g' = []"
proof -
  let ?F = "finalize_list g regs (dr_rings d)" let ?L = "synced g regs (dr_rings d)"
  note F = finalize_list_set [OF assms(4,5), of g] and L = synced_set [OF assms(5), of g regs]
  have wF: "\<forall>a\<in>set ?F. waiting ft g recs a" using assms(6) F(2) by auto
  obtain s1 g1 w1 where 1: "sync_rings ft io e d g w = Some (d\<lparr>dr_rings := ?L, dr_sink := s1\<rparr>, g1, w1)" "good (s1, w1)"
    "seen (s1, w1) = seen (dr_sink d, w) @ concat (map (out g recs) ?F)" "\<forall>a\<in>set ?F. ring_ready ft (ring_at g1 a) []"
    "\<forall>a. a \<notin> set ?F \<longrightarrow> ring_at g1 a = ring_at g a" "g_registry g1 = Some (filter (keep_ring g) regs)"
    "helper_lines g1 = helper_lines g" "g_segments g1 = None \<longleftrightarrow> g_segments g = None"
    using sync_takes [OF assms(1-5) wF] by (elim exE conjE) (rule that)
  have fL: "fst ` set ?L = {a \<in> set regs. keep_ring g a}" using L(2) by (auto simp: current_def image_iff)
  have same: "ring_at g1 a = ring_at g a" if "a \<in> fst ` set ?L" for a using that 1(5) F(2) fL by auto
  let ?d = "d\<lparr>dr_rings := ?L, dr_sink := s1\<rparr>"
  have pre: "\<forall>a\<in>fst ` set (dr_rings ?d). current g1 a \<in> set (dr_rings ?d) \<and> \<not> rb_helper_reserved (ring_at g1 a) \<and> waiting ft g1 recs a"
  proof
    fix a assume a: "a \<in> fst ` set (dr_rings ?d)"
    then have "a \<in> {a \<in> set regs. keep_ring g a}" "ring_at g1 a = ring_at g a" using fL same by simp_all
    then show "current g1 a \<in> set (dr_rings ?d) \<and> \<not> rb_helper_reserved (ring_at g1 a) \<and> waiting ft g1 recs a"
      using assms(6) L(2) by (auto simp: current_def waiting_def)
  qed
  obtain hw d2 g2 w2 where 2: "poll_once ft io e ?d g1 w1 = Some (hw, d2, g2, w2)" "good (dr_sink d2, w2)"
    "seen (dr_sink d2, w2) = seen (s1, w1) @ concat (map (out g1 recs) (visit_order (retires g1) (map fst ?L))) @
       concat (map shown_payload (helper_lines g1))"
    "\<forall>a\<in>fst ` set ?L. ring_ready ft (ring_at g2 a) []" "\<forall>a. a \<notin> fst ` set ?L \<longrightarrow> ring_at g2 a = ring_at g1 a"
    "helper_lines g2 = []"
    using poll_once_takes [of ?d w1 g1 ft recs] pre 1(2,6,8) L(1) assms(1,7) by (simp add: inputs_def) blast
  have "retires g1 a = retires g a" if "a \<in> fst ` set ?L" for a
    using that same [OF that] fL 1(6) assms(3) by (auto simp: retires_def)
  then have "visit_order (retires g1) (map fst ?L) = visit_order (retires g) (map fst ?L)"
    by (intro visit_order_cong) simp
  moreover have "set (visit_order (retires g) (map fst ?L)) = fst ` set ?L"
    using mset_eq_setD [OF visit_order_mset] by auto
  ultimately have vo: "map (out g1 recs) (visit_order (retires g1) (map fst ?L)) = map (out g recs) (visit_order (retires g) (map fst ?L))"
    using same by (auto simp: out_def)
  have "\<forall>a\<in>set regs. ring_ready ft (ring_at g2 a) []"
    using 1(4) 2(4,5) F(2) fL by (metis (no_types, lifting) UnI1 mem_Collect_eq)
  then show ?thesis
    using 1 2 vo flushes [OF 2(2)]
    by (cases "sink_flush io (dr_sink d2) w2") (simp add: final_pass_def flush_sink_def)
qed

end

end
