(* ===== verification/Drain_Sinks.thy ===== *)
theory Drain_Sinks
  imports Drain_Laws
begin

text \<open>Two kinds of sink that take everything: the unbounded in-memory sink, and the sinks that write
  lines when their writer does not fail.\<close>

text \<open>The unbounded in-memory sink keeps every wire record.\<close>

definition mem_good :: "sink \<times> 'w \<Rightarrow> bool" where
  "mem_good sw = (case fst sw of InMemorySink st \<Rightarrow> ms_overflow st = Unbounded | _ \<Rightarrow> False)"

definition mem_seen :: "sink \<times> 'w \<Rightarrow> captured_record list" where
  "mem_seen sw = (case fst sw of InMemorySink st \<Rightarrow> ms_records st | _ \<Rightarrow> [])"

definition captured :: "bytes \<times> level \<Rightarrow> captured_record" where
  "captured p = \<lparr>cr_level = snd p, cr_bytes = fst p\<rparr>"

lemma mem_takes:
  assumes "mem_good (s, w)"
  shows "\<exists>s'. accept_raw x l s = Some (s', None) \<and> mem_good (s', w) \<and> raw_sink s' = raw_sink s \<and> raw_sink s \<and>
    mem_seen (s', w) = mem_seen (s, w) @ [captured (x, l)]"
  using assms by (cases s) (auto simp: mem_good_def mem_seen_def push_record_def captured_def)

interpretation mem: lossless_sink io e tz calib pat mem_good mem_seen "\<lambda>r x. True"
  "\<lambda>r x. [captured (x, record_level x)]" "\<lambda>p. [captured p]" mem_seen
  for io :: "'w io_ops" and e tz calib pat
proof
  fix s :: sink and w :: 'w and x r
  assume "mem_good (s, w)"
  then show "\<exists>s' w'. to_sink io e (raw_sink s) tz calib pat r x (record_level x) (s, w) = Some (s', w') \<and>
      mem_good (s', w') \<and> raw_sink s' = raw_sink s \<and> mem_seen (s', w') = mem_seen (s, w) @ [captured (x, record_level x)]"
    using mem_takes [of s w x "record_level x"] by (auto simp: to_sink_def)
next
  fix s :: sink and w :: 'w and ps
  assume "mem_good (s, w)"
  then show "\<exists>s' w'. deliver_payloads io (raw_sink s) ps s w = Some (s', w') \<and> mem_good (s', w') \<and>
      mem_seen (s', w') = mem_seen (s, w) @ concat (map (\<lambda>p. [captured p]) ps)"
  proof (induction ps arbitrary: s)
    case (Cons p ps)
    obtain x l where p: "p = (x, l)" by (cases p)
    obtain s' where s': "accept_raw x l s = Some (s', None)" "mem_good (s', w)" "raw_sink s' = raw_sink s" "raw_sink s"
      "mem_seen (s', w) = mem_seen (s, w) @ [captured (x, l)]" using mem_takes [OF Cons.prems] by blast
    from Cons.IH [OF s'(2)] s' show ?case by (auto simp: p)
  qed simp
next
  fix s s' :: sink and w w' :: 'w and r'
  show "mem_good (s, w) \<Longrightarrow> sink_flush io s w = (s', w', r') \<Longrightarrow>
      mem_good (s', w') \<and> mem_seen (s', w') = mem_seen (s, w)"
    by (cases s) (auto simp: mem_good_def mem_seen_def)
qed

text \<open>The sinks that write lines, on a writer that does not fail.\<close>

locale steady_io = append_io io content for io :: "'w io_ops" and content :: "target \<Rightarrow> 'w \<Rightarrow> bytes" +
  assumes write_ok: "\<exists>w'. io_write io t s w = (w', None)"
    and flush_ok: "\<exists>w'. io_flush io t w = (w', None)"
begin

lemma write_line_ok: "\<exists>w'. write_line io t line w = (w', None)"
  using write_ok [of t line w] write_ok [of t "[NL]"] by (auto simp: write_line_def) (metis case_prod_conv option.map(1))

lemma buf_flush_ok: "\<exists>buf' w'. buf_flush io t buf w = (buf', w', None)"
  using write_ok [of t buf w] by (auto simp: buf_flush_def)

lemma buf_write_all_ok: "\<exists>buf' w'. buf_write_all io t cap s buf w = (buf', w', None)"
proof -
  obtain b1 w1 where f: "buf_flush io t buf w = (b1, w1, None)" using buf_flush_ok by blast
  obtain w2 where 2: "io_write io t s w1 = (w2, None)" using write_ok by blast
  obtain w3 where 3: "io_write io t s w = (w3, None)" using write_ok by blast
  show ?thesis by (auto simp: buf_write_all_def f 2 3)
qed

lemma accept_ok: "writes_to t s \<Longrightarrow> \<exists>s' w'. accept io line l s w = (s', w', None)"
proof (cases s)
  case (WriterSink u)
  then show ?thesis using write_line_ok [of u line w] by auto
next
  case (FileSink u buf)
  obtain b1 w1 where 1: "buf_write_all io u FILE_BUF_CAPACITY line buf w = (b1, w1, None)"
    using buf_write_all_ok by blast
  obtain b2 w2 where 2: "buf_write_all io u FILE_BUF_CAPACITY [NL] b1 w1 = (b2, w2, None)"
    using buf_write_all_ok by blast
  show ?thesis using FileSink by (simp add: buf_line_def 1 2)
next
  case (ConsoleSink c)
  then show ?thesis using write_ok [of "Stream (co_stream c)" "render line l (co_use_color c)" w]
    by (auto simp: console_accept_def Let_def)
qed auto

lemma flush_settles: "writes_to t s \<Longrightarrow> sink_flush io s w = (s', w', r') \<Longrightarrow> r' = None"
  using buf_flush_ok flush_ok
  by (cases s) (auto simp: file_flush_def split: prod.splits option.splits; metis prod.inject option.distinct(1))+

end

sublocale steady_io < lines: lossless_sink io e tz calib pat "\<lambda>(s, w). writes_to t s"
  "\<lambda>(s, w). content t w @ pending s"
  "\<lambda>r x. decode_and_format e x tz calib pat (rb_thread_id r) (rb_thread_name r) [] \<noteq> None"
  "\<lambda>r x. the (decode_and_format e x tz calib pat (rb_thread_id r) (rb_thread_name r) []) @ [NL]"
  "\<lambda>(line, l). line @ [NL]" "\<lambda>(s, w). content t w"
  for e tz calib pat t
proof
  fix s :: sink and w :: 'w and x and r :: ring
  assume g: "case (s, w) of (s, w) \<Rightarrow> writes_to t s"
    and v: "decode_and_format e x tz calib pat (rb_thread_id r) (rb_thread_name r) [] \<noteq> None"
  obtain line where line: "decode_and_format e x tz calib pat (rb_thread_id r) (rb_thread_name r) [] = Some line"
    using v by blast
  obtain s' w' where a: "accept io line (record_level x) s w = (s', w', None)" using accept_ok g by blast
  have nr: "\<not> raw_sink s" "writes_to t s' \<Longrightarrow> \<not> raw_sink s'" using g by (cases s; cases s'; simp)+
  show "\<exists>s' w'. to_sink io e (raw_sink s) tz calib pat r x (record_level x) (s, w) = Some (s', w') \<and>
      (case (s', w') of (s, w) \<Rightarrow> writes_to t s) \<and> raw_sink s' = raw_sink s \<and>
      (case (s', w') of (s, w) \<Rightarrow> content t w @ pending s) = (case (s, w) of (s, w) \<Rightarrow> content t w @ pending s) @
        the (decode_and_format e x tz calib pat (rb_thread_id r) (rb_thread_name r) []) @ [NL]"
    using accept_appends [of t s line "record_level x" w s' w'] a g line nr
    by (intro exI [of _ s'] exI [of _ w']) (simp add: to_sink_def)
next
  fix s :: sink and w :: 'w and ps
  assume "case (s, w) of (s, w) \<Rightarrow> writes_to t s"
  then show "\<exists>s' w'. deliver_payloads io (raw_sink s) ps s w = Some (s', w') \<and> (case (s', w') of (s, w) \<Rightarrow> writes_to t s) \<and>
      (case (s', w') of (s, w) \<Rightarrow> content t w @ pending s) =
      (case (s, w) of (s, w) \<Rightarrow> content t w @ pending s) @ concat (map (\<lambda>(line, l). line @ [NL]) ps)"
  proof (induction ps arbitrary: s w)
    case (Cons p ps)
    obtain line l where p: "p = (line, l)" by (cases p)
    obtain s1 w1 where a: "accept io line l s w = (s1, w1, None)" using accept_ok Cons.prems by blast
    have g: "writes_to t s" "writes_to t s1" "content t w1 @ pending s1 = content t w @ pending s @ line @ [NL]"
      using accept_appends [OF _ a] Cons.prems by auto
    have nr: "\<not> raw_sink s" "\<not> raw_sink s1" using g(1,2) by (cases s; cases s1; simp)+
    from Cons.IH [of s1 w1] a g nr show ?case by (auto simp: p)
  qed simp
next
  fix s s' :: sink and w w' :: 'w and r'
  assume "case (s, w) of (s, w) \<Rightarrow> writes_to t s" "sink_flush io s w = (s', w', r')"
  moreover from this have "writes_to t s'" by (cases s) (auto split: prod.splits)
  ultimately show "(case (s', w') of (s, w) \<Rightarrow> writes_to t s) \<and>
      (case (s', w') of (s, w) \<Rightarrow> content t w) = (case (s, w) of (s, w) \<Rightarrow> content t w @ pending s)"
    using flush_settles flush_appends by simp
qed

context steady_io
begin

lemma lines_final_pass:
  assumes "writes_to t (dr_sink d)" "g_registry g = Some regs" "distinct regs" "distinct (map fst (dr_rings d))"
    "dr_segmented d \<longleftrightarrow> g_segments g \<noteq> None"
    "\<forall>a\<in>set regs \<union> fst ` set (dr_rings d). \<not> rb_helper_reserved (ring_at g a) \<and> ring_ready ft (ring_at g a) (recs a) \<and>
      list_all (\<lambda>x. decode_and_format e x (dr_offset d) (dr_calib d) (dr_pattern d) (rb_thread_id (ring_at g a))
        (rb_thread_name (ring_at g a)) [] \<noteq> None) (recs a)"
  shows "\<exists>d' g' w'. final_pass ft io e d g w = Some (d', g', w') \<and>
    content t w' = content t w @ pending (dr_sink d) @
      concat (map (\<lambda>a. concat (map (\<lambda>x. the (decode_and_format e x (dr_offset d) (dr_calib d) (dr_pattern d)
        (rb_thread_id (ring_at g a)) (rb_thread_name (ring_at g a)) []) @ [NL]) (recs a)))
        (finalize_list g regs (dr_rings d) @ visit_order (retires g) (map fst (synced g regs (dr_rings d))))) @
      concat (map (\<lambda>(line, l). line @ [NL]) (helper_lines g))"
proof -
  have i: "lines.inputs (dr_offset d) (dr_calib d) (dr_pattern d) d" by (simp add: lines.inputs_def)
  have g: "case (dr_sink d, w) of (s, w) \<Rightarrow> writes_to t s" using assms(1) by simp
  have wt: "\<forall>a\<in>set regs \<union> fst ` set (dr_rings d). \<not> rb_helper_reserved (ring_at g a) \<and>
      lines.waiting e (dr_offset d) (dr_calib d) (dr_pattern d) ft g recs a"
    using assms(6) unfolding lines.waiting_def by blast
  from lines.final_pass_takes [OF i g assms(2-4) wt assms(5)] show ?thesis
    by (auto simp: lines.out_def [abs_def])
qed

end

text \<open>\<open>Write for Vec<u8>\<close>: appending to memory does not fail.\<close>

definition vec_io :: "(target \<Rightarrow> bytes) io_ops" where
  "vec_io = \<lparr>io_write = (\<lambda>t s w. (w(t := w t @ s), None)), io_flush = (\<lambda>t w. (w, None)), io_is_terminal = (\<lambda>st. False)\<rparr>"

interpretation vec: steady_io vec_io "\<lambda>t w. w t"
  by unfold_locales (auto simp: vec_io_def)

end
