(* ===== verification/Spsc_Properties.thy ===== *)
theory Spsc_Properties
  imports Spsc
begin

text \<open>What the concurrent ring guarantees, with a concrete run that instantiates each statement.\<close>

section \<open>A concrete run\<close>

definition demo_record :: "u8 \<Rightarrow> bytes" where
  "demo_record x = [2, 1, 16, 0] @ replicate 12 x"

definition demo_ring :: ring where
  "demo_ring = from_storage (replicate 256 0) 256 False"

definition demo_send :: "act list" where
  "demo_send = AReserve (demo_record 7) # replicate 16 AWrite @ [APublish]"

definition demo_overlap :: "act list" where
  "demo_overlap = demo_send @ [AEnter, AReserve (demo_record 8), AWrite]"

lemma demo_ring_ok: "with_capacity 256 = Some demo_ring"
  by code_simp

lemma demo_send_eval:
  "case spsc_run default_features Block demo_send (spsc_init demo_ring) of None \<Rightarrow> False
   | Some s \<Rightarrow> sent s = [demo_record 7] \<and> got s = [] \<and> sp_drain s = Asleep \<and> sp_prod s = Idle"
  by code_simp

lemma demo_overlap_eval:
  "case spsc_run default_features Block demo_overlap (spsc_init demo_ring) of None \<Rightarrow> False
   | Some s \<Rightarrow> sent s = [demo_record 7] \<and> got s = [] \<and> sp_drain s = Draining 64 0 \<and>
       sp_prod s = Writing \<lparr>res_ptr = 64, res_head = 128\<rparr> (demo_record 8) 1 \<and>
       rb_tail (sp_ring s) = 0 \<and> rb_head (sp_ring s) = 64 \<and> rb_capacity (sp_ring s) = 256"
  by code_simp

lemma demo_send_state:
  obtains s where "spsc_reachable default_features Block demo_ring s" "sent s = [demo_record 7]"
    "got s = []" "sp_drain s = Asleep" "sp_prod s = Idle"
  using demo_send_eval
  by (auto simp: spsc_reachable_def split: option.splits dest: spsc_run_reachable)

lemma demo_overlap_state:
  obtains s where "spsc_reachable default_features Block demo_ring s" "sent s = [demo_record 7]"
    "got s = []" "sp_drain s = Draining 64 0"
    "sp_prod s = Writing \<lparr>res_ptr = 64, res_head = 128\<rparr> (demo_record 8) 1"
    "rb_tail (sp_ring s) = 0" "rb_head (sp_ring s) = 64" "rb_capacity (sp_ring s) = 256"
  using demo_overlap_eval
  by (auto simp: spsc_reachable_def split: option.splits dest: spsc_run_reachable)

section \<open>Waiting for space\<close>

lemma ensure_loop_mono:
  "ensure_loop obs msk head needed policy = Some y \<Longrightarrow>
   ensure_loop (obs @ obs') msk head needed policy = Some y"
  by (induction obs) (auto split: if_splits backpressure.splits)

lemma reserve_mono:
  assumes "reserve ft obs r n policy = Some y"
  shows "reserve ft (obs @ obs') r n policy = Some y"
proof -
  have "try_ensure_capacity ft (obs @ obs') r h m policy = Some z"
    if z: "try_ensure_capacity ft obs r h m policy = Some z" for h m z
  proof (cases "h + m - rb_tail_cache r \<le> rb_mask r")
    case False
    then obtain y where y: "ensure_loop ((rb_tail r, rb_live r) # obs) (rb_mask r) h m policy = Some y"
      using z by (auto simp: try_ensure_capacity_def simp del: ensure_loop.simps split: option.splits)
    with False z ensure_loop_mono [OF y, of obs'] show ?thesis
      by (simp add: try_ensure_capacity_def del: ensure_loop.simps)
  qed (use z in \<open>simp add: try_ensure_capacity_def\<close>)
  note mono = this
  define al where "al = align_up (word_of_nat n) (word_of_nat SLOT_SIZE)"
  define rm where "rm = (word_of_nat (rb_capacity r - unat (producer_head ft r AND rb_mask r)) :: u64)"
  let ?t = "\<lambda>obs. try_ensure_capacity ft obs r (producer_head ft r) (if rm < al then al + rm else al) policy"
  show ?thesis
  proof (cases "?t obs")
    case None
    then show ?thesis using assms unfolding reserve_def Let_def al_def rm_def
      by (simp only: option.case option.distinct)
  next
    case (Some z)
    from assms Some mono [OF Some] show ?thesis
      unfolding reserve_def Let_def al_def rm_def
      by (simp only: option.case option.distinct)
  qed
qed

section \<open>Properties\<close>

text \<open>C7: Exactly-once, in-order delivery. Whatever the interleaving, the back-pressure policy
  and the ring features, the delivered records are a prefix of the published ones, and the
  published records not yet delivered are all still intact between the drain's position and
  the producer's. The bound keeps 64-bit positions from wrapping.\<close>

theorem spsc_exactly_once:
  assumes "with_capacity cap = Some r" "cap < 2 ^ 64" "spsc_reachable ft policy r s"
    "length (sent s) < 2 ^ 46"
  shows "\<exists>ws. sent s = got s @ ws \<and>
    frames (rb_data (sp_ring s)) (rb_capacity (sp_ring s)) (read_pos s)
      (unat (producer_head ft (sp_ring s))) ws"
  using spsc_reachable_inv [OF assms] drain_view_frames by (auto simp: spsc_inv_def)

theorem spsc_exactly_once_witness:
  "\<exists>s ws. spsc_reachable default_features Block demo_ring s \<and> sent s = got s @ ws \<and>
     ws = [demo_record 7] \<and>
     frames (rb_data (sp_ring s)) (rb_capacity (sp_ring s)) (read_pos s)
       (unat (producer_head default_features (sp_ring s))) ws"
proof (rule demo_overlap_state)
  fix s assume s: "spsc_reachable default_features Block demo_ring s" "sent s = [demo_record 7]" "got s = []"
  then show ?thesis
    using spsc_exactly_once [OF demo_ring_ok _ s(1)] by auto
qed

text \<open>C12: A producer that is copying its record never stores to a byte the drain may still
  read: every store is inside the storage and outside the offsets of the published,
  undrained range.\<close>

theorem spsc_no_overwrite:
  assumes "with_capacity cap = Some r" "cap < 2 ^ 64" "spsc_reachable ft policy r s"
    "length (sent s) < 2 ^ 46" "sp_prod s = Writing v xs i" "i < length xs"
  shows "res_ptr v + i < length (rb_data (sp_ring s)) \<and>
    (\<forall>j. unat (rb_tail (sp_ring s)) \<le> j \<and> j < unat (producer_head ft (sp_ring s)) \<longrightarrow>
      res_ptr v + i \<noteq> j mod rb_capacity (sp_ring s))"
proof -
  let ?r = "sp_ring s"
  obtain ws where rv: "ring_view ft ?r" and pv: "prod_view ft ?r (Writing v xs i)"
    and dv: "drain_view ft ?r (sp_drain s) ws"
    using spsc_reachable_inv [OF assms(1-4)] assms(5) by (auto simp: spsc_inv_def)
  have tl: "unat (rb_tail ?r) \<le> unat (producer_head ft ?r)"
    using drain_view_order [OF dv] by (simp add: word_le_nat_alt)
  note w = writing_room [OF pv rv tl]
  have wf: "ring_wf ?r" using rv by (simp add: ring_view_def)
  have "j mod rb_capacity ?r \<noteq> res_ptr v + i"
    if "unat (rb_tail ?r) \<le> j" "j < unat (producer_head ft ?r)" for j
    unfolding w(6) [OF assms(6), symmetric] using w(4,5) assms(6) that by (intro mod_neq) auto
  then show ?thesis
    using w(2) assms(6) ring_wf_cap(4) [OF wf] by fastforce
qed

theorem spsc_no_overwrite_witness:
  "\<exists>s. spsc_reachable default_features Block demo_ring s \<and> rb_tail (sp_ring s) = 0 \<and>
     rb_head (sp_ring s) = 64 \<and> 65 < length (rb_data (sp_ring s)) \<and>
     (\<forall>j < 64. 65 \<noteq> j mod rb_capacity (sp_ring s))"
proof (rule demo_overlap_state)
  fix s assume s: "spsc_reachable default_features Block demo_ring s" "sent s = [demo_record 7]"
    "sp_prod s = Writing \<lparr>res_ptr = 64, res_head = 128\<rparr> (demo_record 8) 1"
    and r: "rb_tail (sp_ring s) = 0" "rb_head (sp_ring s) = 64"
  have "1 < length (demo_record 8)" by (simp add: demo_record_def)
  moreover have "producer_head default_features (sp_ring s) = 64"
    using r by (simp add: producer_head_def default_features_def)
  ultimately show ?thesis
    using s r spsc_no_overwrite [OF demo_ring_ok _ s(1) _ s(3)] by auto
qed

text \<open>C15: A pass never meets a frame it would have to discard: inside its range every turn
  either skips a filler or delivers the next published record with its own level, and the
  position advances.\<close>

theorem spsc_never_corrupt:
  assumes "with_capacity cap = Some r" "cap < 2 ^ 64" "spsc_reachable ft policy r s"
    "length (sent s) < 2 ^ 46" "sp_drain s = Draining hc t" "t < hc"
  shows "(\<exists>t'. t < t' \<and> drain_iter (rb_data (sp_ring s)) (rb_capacity (sp_ring s)) hc t = Skip t') \<or>
    (\<exists>x t'. t < t' \<and> length (got s) < length (sent s) \<and> x = sent s ! length (got s) \<and>
      drain_iter (rb_data (sp_ring s)) (rb_capacity (sp_ring s)) hc t = Deliver x (record_level x) t')"
proof -
  obtain ws where rv: "ring_view ft (sp_ring s)" and ws: "sent s = got s @ ws"
    and dv: "drain_view ft (sp_ring s) (Draining hc t) ws"
    using spsc_reachable_inv [OF assms(1-4)] assms(5) by (auto simp: spsc_inv_def)
  show ?thesis using drain_turn_keeps [OF rv dv assms(6)] ws by (auto simp: nth_append)
qed

theorem spsc_never_corrupt_witness:
  "\<exists>s. spsc_reachable default_features Block demo_ring s \<and>
     (\<exists>t'. 0 < t' \<and> drain_iter (rb_data (sp_ring s)) (rb_capacity (sp_ring s)) 64 0 = Skip t' \<or>
      (\<exists>x. x = demo_record 7 \<and>
        drain_iter (rb_data (sp_ring s)) (rb_capacity (sp_ring s)) 64 0 = Deliver x (record_level x) t'))"
proof (rule demo_overlap_state)
  fix s assume s: "spsc_reachable default_features Block demo_ring s" "sent s = [demo_record 7]"
    "got s = []" "sp_drain s = Draining 64 0"
  then show ?thesis using spsc_never_corrupt [OF demo_ring_ok _ s(1) _ s(4)] by fastforce
qed

text \<open>C16: Completeness of a pass. When the drain runs a whole pass on a ring whose producer's
  position is published (always without watermark-head, and after the producer has exited
  with it), the pass returns, delivers exactly the published records that were not yet
  delivered, in order, and leaves the tail at the producer's position.\<close>

theorem spsc_pass_complete:
  assumes "with_capacity cap = Some r" "cap < 2 ^ 64" "spsc_reachable ft policy r s"
    "length (sent s) < 2 ^ 46" "sp_drain s = Asleep" "watermark_head ft \<Longrightarrow> sp_prod s = Exited"
  shows "\<exists>ws r'. sent s = got s @ ws \<and>
    drain_ring_inner ft (\<lambda>x l k. Some (k @ [x])) (sp_ring s) (got s) = Some (ws \<noteq> [], r', sent s) \<and>
    rb_tail r' = producer_head ft (sp_ring s)"
proof -
  obtain ws where rv: "ring_view ft (sp_ring s)" and ws: "sent s = got s @ ws"
    and pv: "prod_view ft (sp_ring s) (sp_prod s)" and dv: "drain_view ft (sp_ring s) Asleep ws"
    using spsc_reachable_inv [OF assms(1-4)] assms(5) by (auto simp: spsc_inv_def)
  obtain r0 hc where b: "drain_begin ft (sp_ring s) = (r0, hc)" by fastforce
  note k = drain_begin_keeps [OF pv rv dv b]
  have hc: "hc = producer_head ft (sp_ring s)"
    using b rv pv assms(6)
    by (auto simp: drain_begin_def Let_def ring_view_def producer_head_def flush_watermark_def prod_view_def
        split: if_splits)
  have f: "frames (rb_data r0) (rb_capacity r0) (unat (rb_tail r0)) (unat hc) ws"
    using drain_view_frames [OF k(4)] k(3) by (simp add: hc split: if_splits)
  have wf: "ring_wf (sp_ring s)" and al: "64 dvd unat (rb_tail r0)"
    using rv k(2) by (auto simp: ring_view_def)
  have "deliver_all (\<lambda>x l k. Some (k @ [x])) ws k = Some (k @ ws)" for k
    by (induction ws arbitrary: k) auto
  then show ?thesis
    using drain_ring_inner_frames [OF wf b al f, of "\<lambda>x l k. Some (k @ [x])"] ws hc
    by (auto simp: drain_end_def)
qed

theorem spsc_pass_complete_witness:
  "\<exists>s ws r'. spsc_reachable default_features Block demo_ring s \<and> ws = [demo_record 7] \<and>
     drain_ring_inner default_features (\<lambda>x l k. Some (k @ [x])) (sp_ring s) [] = Some (True, r', ws)"
proof (rule demo_send_state)
  fix s assume s: "spsc_reachable default_features Block demo_ring s" "sent s = [demo_record 7]"
    "got s = []" "sp_drain s = Asleep"
  then show ?thesis
    using spsc_pass_complete [OF demo_ring_ok _ s(1) _ s(4)] by (auto simp: default_features_def)
qed

lemma reserve_empty:
  assumes "ring_wf r" "rb_tail_cache r \<le> rb_tail r" "rb_tail r = producer_head ft r"
    "unat (rb_tail r) + 131072 < 2 ^ 64" "n \<le> MAX_RECORD_SIZE" "2 * slots n \<le> rb_capacity r"
  shows "\<exists>r' v. reserve ft [] r n policy = Some (r', Some v)"
proof -
  let ?p = "unat (producer_head ft r)" let ?cap = "rb_capacity r"
  have n: "n \<le> 65535" using assms(5) by (simp add: record_consts)
  have room: "?p + 131072 < 2 ^ 64" using assms(3,4) by simp
  have tc: "unat (rb_tail_cache r) \<le> unat (rb_tail r)" "unat (rb_tail r) \<le> ?p"
    using assms(2,3) by (simp_all add: word_le_nat_alt)
  have "end_pos ?cap ?p n - ?p < ?cap"
  proof (cases "wraps ?cap ?p n")
    case True
    then have "?cap - ?p mod ?cap + slots n < ?cap" using assms(6) unfolding wraps_def by linarith
    with True show ?thesis by (simp add: end_pos_def start_pos_def)
  next
    case False
    then have "end_pos ?cap ?p n - ?p = slots n" by (simp add: end_pos_def start_pos_def)
    then show ?thesis using assms(6) ring_wf_cap(1) [OF assms(1)] by linarith
  qed
  then have "end_pos ?cap ?p n - unat (rb_tail r) < ?cap" by (simp only: assms(3))
  then show ?thesis unfolding reserve_spec [OF assms(1) n refl room tc] by simp
qed

text \<open>Progress. Once the drain has caught up, a reservation succeeds at once under every
  policy, provided the record's slots take at most half of the ring.\<close>

theorem reserve_after_drain:
  assumes "ring_wf r" "rb_tail_cache r \<le> rb_tail r" "rb_tail r = producer_head ft r"
    "unat (rb_tail r) + 131072 < 2 ^ 64" "n \<le> MAX_RECORD_SIZE" "2 * slots n \<le> rb_capacity r"
  shows "\<exists>r' v. reserve ft obs r n policy = Some (r', Some v)"
proof -
  obtain r' v where "reserve ft [] r n policy = Some (r', Some v)" using reserve_empty [OF assms] by blast
  from reserve_mono [OF this, of obs] show ?thesis by auto
qed

theorem reserve_after_drain_witness:
  "\<exists>r' v. reserve default_features [] demo_ring 40 Drop = Some (r', Some v)"
proof (rule reserve_after_drain)
  show "ring_wf demo_ring" using with_capacity_wf [OF demo_ring_ok] by simp
qed (simp_all add: demo_ring_def from_storage_def producer_head_def default_features_def
  record_consts slots_def)

text \<open>The blocking wait. Under Block the space check keeps spinning exactly as long as
  every tail it observes leaves too little room and the ring stays live; it returns with the
  first observation that has room, and otherwise only for a dead ring.\<close>

theorem block_wait:
  "ensure_loop obs msk head needed Block =
    (case dropWhile (\<lambda>(t, live). \<not> head + needed - t \<le> msk \<and> live) obs of
       [] \<Rightarrow> None
     | (t, live) # _ \<Rightarrow> Some (head + needed - t \<le> msk, t))"
  by (induction obs) (auto split: if_splits)

text \<open>A ring without room. When the record does not fit behind any tail up to \<open>u\<close>, a reservation is
  refused under every policy but Block; under Block it waits as long as the ring is live, whatever
  tails up to \<open>u\<close> it observes, and is refused when it sees the ring dead.\<close>

lemma ensure_never:
  assumes "\<forall>t\<le>u. \<not> head + needed - t \<le> msk" "\<forall>(t, live)\<in>set seen. t \<le> u \<and> live"
  shows "ensure_loop seen msk head needed Block = None"
    "t \<le> u \<Longrightarrow> ensure_loop (seen @ (t, False) # rest) msk head needed Block = Some (False, t)"
  using assms(2) by (induction seen) (auto simp: assms(1))

lemma reserve_no_room:
  assumes "ring_wf r" "n \<le> MAX_RECORD_SIZE" "unat (producer_head ft r) + 131072 < 2 ^ 64"
    and u: "rb_tail_cache r \<le> u" "rb_tail r \<le> u" "u \<le> producer_head ft r"
    and full: "unat u + rb_capacity r \<le> unat (producer_head ft r) + slots n"
  shows "policy \<noteq> Block \<Longrightarrow> reserve ft obs r n policy = Some (r\<lparr>rb_tail_cache := rb_tail r\<rparr>, None)"
    "rb_live r \<Longrightarrow> \<forall>(t, live)\<in>set seen. t \<le> u \<and> live \<Longrightarrow> reserve ft seen r n Block = None"
    "rb_live r \<Longrightarrow> \<forall>(t, live)\<in>set seen. t \<le> u \<and> live \<Longrightarrow> t \<le> u \<Longrightarrow>
      reserve ft (seen @ (t, False) # rest) r n Block = Some (r\<lparr>rb_tail_cache := t\<rparr>, None)"
proof -
  let ?head = "producer_head ft r"
  define al where "al = align_up (word_of_nat n) (word_of_nat SLOT_SIZE)"
  define rm where "rm = (word_of_nat (rb_capacity r - unat (?head AND rb_mask r)) :: u64)"
  define needed where "needed = (if rm < al then al + rm else al)"
  have n: "n \<le> 65535" using assms(2) by (simp add: record_consts)
  note g = reserve_geometry(5) [OF assms(1) n refl assms(3), folded al_def rm_def, folded needed_def]
  note e = end_pos_bound(1-3) [OF n, where p = "unat ?head" and cap = "rb_capacity r"]
  have start: "unat ?head + slots n \<le> end_pos (rb_capacity r) (unat ?head) n" by (simp add: end_pos_def start_pos_def)
  have cap: "unat (rb_mask r) = rb_capacity r - 1" "0 < rb_capacity r" using ring_wf_cap [OF assms(1)] by auto
  have fits: "\<not> ?head + needed - t \<le> rb_mask r" if "t \<le> u" for t
  proof -
    have t: "unat t \<le> unat u" "unat u \<le> unat ?head" using that u(3) by (simp_all add: word_le_nat_alt)
    have "unat ?head + unat needed < 2 ^ 64" using g e assms(3) start by linarith
    then show ?thesis
      using fits_iff [of ?head needed t "rb_mask r"] t g start full cap by linarith
  qed
  have tec: "try_ensure_capacity ft obs r ?head needed policy =
      map_option (\<lambda>(ok, t). (ok, r\<lparr>rb_tail_cache := t\<rparr>)) (ensure_loop ((rb_tail r, rb_live r) # obs) (rb_mask r) ?head needed policy)" for obs policy
    using fits [OF u(1)] by (auto simp: try_ensure_capacity_def split: option.splits)
  have res: "try_ensure_capacity ft obs r ?head needed policy = Some (False, r') \<Longrightarrow> reserve ft obs r n policy = Some (r', None)"
    "try_ensure_capacity ft obs r ?head needed policy = None \<Longrightarrow> reserve ft obs r n policy = None" for obs policy r'
    unfolding reserve_def Let_def al_def [symmetric] rm_def [symmetric] needed_def [symmetric] by simp_all
  note never = ensure_never [of u ?head needed "rb_mask r"]
  show "reserve ft obs r n policy = Some (r\<lparr>rb_tail_cache := rb_tail r\<rparr>, None)" if "policy \<noteq> Block"
    using that fits [OF u(2)] by (intro res) (auto simp: tec split: backpressure.splits)
  show "reserve ft seen r n Block = None" if "rb_live r" "\<forall>(t, live)\<in>set seen. t \<le> u \<and> live"
    using that fits u(2) never(1) by (intro res) (simp add: tec)
  show "reserve ft (seen @ (t, False) # rest) r n Block = Some (r\<lparr>rb_tail_cache := t\<rparr>, None)"
    if "rb_live r" "\<forall>(t, live)\<in>set seen. t \<le> u \<and> live" "t \<le> u"
    using that fits u(2) never(2) by (intro res) (simp add: tec)
qed

text \<open>C28: A ring of \<open>capacity\<close> bytes never holds \<open>capacity\<close> bytes: a record whose slots fill the ring
  never fits, however much the drain has consumed. Drop refuses it at once, also on an empty ring.
  Under Block its producer waits as long as the ring is live, whatever tails it observes and
  however often it looks, so it never returns; only a ring seen dead ends the wait, with a refusal.\<close>

theorem oversized_never_fits:
  assumes "ring_wf r" "rb_tail_cache r \<le> rb_tail r" "rb_tail r \<le> producer_head ft r"
    "unat (producer_head ft r) + 131072 < 2 ^ 64" "n \<le> MAX_RECORD_SIZE" "rb_capacity r \<le> slots n"
    "rb_live r" "\<forall>(t, live)\<in>set seen. t \<le> producer_head ft r \<and> live"
  shows "reserve ft obs r n Drop = Some (r\<lparr>rb_tail_cache := rb_tail r\<rparr>, None) \<and> reserve ft seen r n Block = None \<and>
    (\<forall>t\<le>producer_head ft r. reserve ft (seen @ (t, False) # rest) r n Block = Some (r\<lparr>rb_tail_cache := t\<rparr>, None))"
proof -
  have "rb_tail_cache r \<le> producer_head ft r" "unat (producer_head ft r) + rb_capacity r \<le> unat (producer_head ft r) + slots n"
    using assms(2,3,6) by (simp_all add: word_le_nat_alt)
  note no = reserve_no_room [OF assms(1,5,4) this(1) assms(3) order_refl this(2)]
  show ?thesis using no(1) [of Drop obs] no(2) [OF assms(7,8)] no(3) [OF assms(7,8)] by simp
qed

theorem oversized_never_fits_witness:
  "\<exists>r. with_capacity 64 = Some r \<and> reserve default_features [] r 16 Drop = Some (r, None) \<and>
     (\<forall>k. reserve default_features (replicate k (0, True)) r 16 Block = None) \<and>
     (\<forall>k. reserve default_features (replicate k (0, True) @ [(0, False)]) r 16 Block = Some (r, None))"
proof (intro exI conjI allI)
  let ?r = "from_storage (replicate 64 0) 64 False"
  show w: "with_capacity 64 = Some ?r" by code_simp
  have r: "?r\<lparr>rb_tail_cache := 0\<rparr> = ?r" "rb_tail ?r = 0" by (simp_all add: from_storage_def)
  have *: "reserve default_features [] ?r 16 Drop = Some (?r\<lparr>rb_tail_cache := rb_tail ?r\<rparr>, None) \<and>
      reserve default_features (replicate k (0, True)) ?r 16 Block = None \<and>
      (\<forall>t\<le>producer_head default_features ?r. reserve default_features (replicate k (0, True) @ (t, False) # []) ?r 16 Block =
        Some (?r\<lparr>rb_tail_cache := t\<rparr>, None))" for k
    by (rule oversized_never_fits) (use with_capacity_wf [OF w] in \<open>auto simp: from_storage_def
      producer_head_def default_features_def record_consts slots_def\<close>)
  show "reserve default_features [] ?r 16 Drop = Some (?r, None)"
    "reserve default_features (replicate k (0, True)) ?r 16 Block = None"
    "reserve default_features (replicate k (0, True) @ [(0, False)]) ?r 16 Block = Some (?r, None)" for k
    using * [of k] r by simp_all
qed

text \<open>C29: With watermark-head, a live ring that fills up before its watermark is due stalls: the
  drain sees no published record and leaves the ring as it is, while the producer has no
  room: it drops the record under Drop, and under Block it waits as long as it sees that ring.\<close>

theorem watermark_stall:
  assumes "ring_wf r" "watermark_head ft" "rb_live r" "rb_head r = rb_tail r"
    "rb_head_cache r = rb_tail r" "rb_tail_cache r \<le> rb_tail r" "rb_tail r \<le> rb_local_head r"
    "unat (rb_local_head r) + 131072 < 2 ^ 64" "n \<le> MAX_RECORD_SIZE"
    "unat (rb_tail r) + rb_capacity r \<le> unat (rb_local_head r) + slots n"
  shows "drain_ring_inner ft deliver r k = Some (False, r, k) \<and>
    (\<forall>looks. reserve ft (replicate looks (rb_tail r, True)) r n Block = None) \<and>
    reserve ft [] r n Drop = Some (r\<lparr>rb_tail_cache := rb_tail r\<rparr>, None)"
proof -
  have ph: "producer_head ft r = rb_local_head r" using assms(2) by (simp add: producer_head_def)
  note no = reserve_no_room [OF assms(1,9), where ft = ft, unfolded ph, OF assms(8,6) order_refl assms(7,10)]
  have "reserve ft (replicate looks (rb_tail r, True)) r n Block = None" for looks
    using assms(3) by (intro no(2)) auto
  then show ?thesis using no(1) [of Drop "[]"] assms(3-5) by (simp add: drain_ring_inner_def drain_begin_def Let_def)
qed

theorem watermark_stall_witness:
  "\<exists>r ft. watermark_head ft \<and> rb_local_head r = 64 \<and>
     drain_ring_inner ft (\<lambda>x l k. Some (x # k)) r [] = Some (False, r, []) \<and> (\<forall>looks. reserve ft (replicate looks (0, True)) r 16 Block = None)"
proof (intro exI)
  let ?ft = "\<lparr>fast_tail_cache = False, watermark_head = True\<rparr>"
  let ?base = "from_storage (replicate 128 0) 128 False"
  have w: "with_capacity 128 = Some ?base" by code_simp
  let ?r = "publish ?ft \<lparr>res_ptr = 0, res_head = 64\<rparr> ?base"
  have "ring_wf ?base" using with_capacity_wf [OF w] by simp
  then have "ring_wf ?r" by (rule publish_wf)
  moreover have "rb_local_head ?r = 64 \<and> rb_head ?r = 0 \<and> rb_tail ?r = 0 \<and> rb_head_cache ?r = 0 \<and>
      rb_tail_cache ?r = 0 \<and> rb_live ?r \<and> rb_capacity ?r = 128"
    by code_simp
  ultimately show "watermark_head ?ft \<and> rb_local_head ?r = 64 \<and>
     drain_ring_inner ?ft (\<lambda>x l k. Some (x # k)) ?r [] = Some (False, ?r, []) \<and>
     (\<forall>looks. reserve ?ft (replicate looks (0, True)) ?r 16 Block = None)"
    using watermark_stall [of ?r ?ft 16 "\<lambda>x l k. Some (x # k)" "[]"]
    by (simp add: record_consts slots_def)
qed

end
