(* ===== verification/Drain_Properties.thy ===== *)
theory Drain_Properties
  imports Drain_Sinks Spsc_Properties
begin

text \<open>What the drain thread delivers, and in which order.\<close>

text \<open>The rings a final pass empties, in its order: the dead ones, then the list as a poll visits it.\<close>

definition final_order :: "drain_state \<Rightarrow> globals \<Rightarrow> nat list \<Rightarrow> nat list" where
  "final_order d g regs =
     finalize_list g regs (dr_rings d) @ visit_order (retires g) (map fst (synced g regs (dr_rings d)))"

lemma final_order_once:
  assumes "distinct regs" "distinct (map fst (dr_rings d))"
  shows "distinct (final_order d g regs)"
    "set (final_order d g regs) = set regs \<union> {a \<in> fst ` set (dr_rings d). \<not> keep_ring g a}"
proof -
  note F = finalize_list_set [OF assms, of g] and L = synced_set [OF assms(2), of g regs]
  let ?V = "visit_order (retires g) (map fst (synced g regs (dr_rings d)))"
  have m: "mset ?V = mset (map fst (synced g regs (dr_rings d)))" by (rule visit_order_mset)
  have V: "distinct ?V" "set ?V = {a \<in> set regs. keep_ring g a}"
    using mset_eq_imp_distinct_iff [OF m] L mset_eq_setD [OF m] by (auto simp: current_def image_iff)
  show "distinct (final_order d g regs)"
    using F V by (auto simp: final_order_def)
  show "set (final_order d g regs) = set regs \<union> {a \<in> fst ` set (dr_rings d). \<not> keep_ring g a}"
    using F V by (auto simp: final_order_def)
qed

lemma mem_out: "mem.out g recs = (\<lambda>a. map (\<lambda>x. captured (x, record_level x)) (recs a))"
  by (simp add: fun_eq_iff mem.out_def)

lemma captured_simps [simp]: "cr_bytes (captured p) = fst p" "cr_level (captured p) = snd p"
  by (simp_all add: captured_def)

lemma mem_start:
  assumes "dr_sink d = InMemorySink st" "ms_overflow st = Unbounded"
  shows "mem.inputs (dr_offset d) (dr_calib d) (dr_pattern d) d" "mem_good (dr_sink d, w)"
  using assms by (simp_all add: mem.inputs_def mem_good_def)

lemma final_pass_mem:
  assumes "dr_sink d = InMemorySink st" "ms_overflow st = Unbounded" "g_registry g = Some regs"
    "distinct regs" "distinct (map fst (dr_rings d))" "dr_segmented d \<longleftrightarrow> g_segments g \<noteq> None"
    "\<forall>a\<in>set regs \<union> fst ` set (dr_rings d). \<not> rb_helper_reserved (ring_at g a) \<and> ring_ready ft (ring_at g a) (recs a)"
  shows "\<exists>d' g' w' st'. final_pass ft io e d g w = Some (d', g', w') \<and> dr_sink d' = InMemorySink st' \<and>
    ms_records st' = ms_records st @ map captured
      (map (\<lambda>x. (x, record_level x)) (concat (map recs (final_order d g regs))) @ helper_lines g) \<and>
    (\<forall>a\<in>set regs. ring_ready ft (ring_at g' a) [])"
proof -
  let ?o = "final_order d g regs"
  have wt: "\<forall>a\<in>set regs \<union> fst ` set (dr_rings d). \<not> rb_helper_reserved (ring_at g a) \<and> mem.waiting ft g recs a"
    using assms(7) by (simp add: mem.waiting_def list_all_iff)
  obtain d' g' w' where f: "final_pass ft io e d g w = Some (d', g', w')" "mem_good (dr_sink d', w')"
    "mem_seen (dr_sink d', w') = mem_seen (dr_sink d, w) @ concat (map (mem.out g recs) ?o) @ concat (map (\<lambda>p. [captured p]) (helper_lines g))"
    "\<forall>a\<in>set regs. ring_ready ft (ring_at g' a) []"
    using mem.final_pass_takes [OF mem_start [OF assms(1,2)] assms(3-5) wt assms(6), where io = io and e = e and w = w, folded final_order_def]
    by (elim exE conjE) (rule that)
  obtain st' where "dr_sink d' = InMemorySink st'" using f(2) by (auto simp: mem_good_def split: sink.splits)
  moreover have "concat (map (mem.out g recs) ?o) = map captured (map (\<lambda>x. (x, record_level x)) (concat (map recs ?o)))"
    by (simp add: mem_out map_concat comp_def)
  ultimately show ?thesis
    using f assms(1) by (auto simp: mem_seen_def comp_def)
qed

text \<open>C10: No record is lost at shutdown. When the drain sees the shutdown flag, its final pass
  returns, visits every registered ring, dead or alive, exactly once, and an unbounded in-memory
  sink has then received, after what it already held, exactly the records those rings held, ring
  by ring, each ring's in the order they were written, followed by what helpers had formatted;
  every registered ring is empty.\<close>

theorem shutdown_delivers_all:
  assumes "dr_sink d = InMemorySink st" "ms_overflow st = Unbounded" "g_registry g = Some regs"
    "distinct regs" "distinct (map fst (dr_rings d))" "dr_segmented d \<longleftrightarrow> g_segments g \<noteq> None"
    "\<forall>a\<in>set regs \<union> fst ` set (dr_rings d). \<not> rb_helper_reserved (ring_at g a) \<and> ring_ready ft (ring_at g a) (recs a)"
  defines "order \<equiv> final_order d g regs"
  shows "distinct order \<and> set order = set regs \<union> {a \<in> fst ` set (dr_rings d). \<not> keep_ring g a} \<and>
    (\<exists>d' g' w' st'. drain_run ft io e (((\<lambda>g. g), True) # turns) spin since_sync dirty d g w = Some (d', g', w') \<and>
    dr_sink d' = InMemorySink st' \<and>
    ms_records st' = ms_records st @ map captured
      (map (\<lambda>x. (x, record_level x)) (concat (map recs order)) @ helper_lines g) \<and>
    (\<forall>a\<in>set regs. ring_ready ft (ring_at g' a) []))"
  using final_pass_mem [OF assms(1-7), of io e w] final_order_once [OF assms(4,5), of g]
  unfolding order_def by simp

text \<open>Segments with one record each.\<close>

definition demo_seg :: "u8 \<Rightarrow> ring" where
  "demo_seg x = (case ring_put default_features Quill (demo_record x) (from_storage (replicate 128 0) 128 False) of
     Some (r, ok) \<Rightarrow> r | None \<Rightarrow> from_storage [] 0 False)"

lemma demo_seg_ready: "ring_ready default_features (demo_seg 7) [demo_record 7]" "ring_ready default_features (demo_seg 8) [demo_record 8]"
  "ring_ready default_features (demo_seg 9) [demo_record 9]" "ring_ready default_features (demo_seg 0) [demo_record 0]"
proof -
  have w: "with_capacity 128 = Some (from_storage (replicate 128 0) 128 False)" by code_simp
  have f: "ring_holds default_features 1 (from_storage (replicate 128 0) 128 False) []"
    using ring_holds_fresh [OF w, of default_features 1] by (simp add: default_features_def)
  have ok: "wire_ok (demo_record 7)" "wire_ok (demo_record 8)" "wire_ok (demo_record 9)" "wire_ok (demo_record 0)" by code_simp+
  have put: "map_option snd (ring_put default_features Quill (demo_record 7) (from_storage (replicate 128 0) 128 False)) = Some True"
    "map_option snd (ring_put default_features Quill (demo_record 8) (from_storage (replicate 128 0) 128 False)) = Some True"
    "map_option snd (ring_put default_features Quill (demo_record 9) (from_storage (replicate 128 0) 128 False)) = Some True"
    "map_option snd (ring_put default_features Quill (demo_record 0) (from_storage (replicate 128 0) 128 False)) = Some True"
    by code_simp+
  have "ring_ready default_features (demo_seg x) [demo_record x]"
    if w: "wire_ok (demo_record x)" and p: "map_option snd (ring_put default_features Quill (demo_record x) (from_storage (replicate 128 0) 128 False)) = Some True"
    for x
  proof -
    obtain r where r: "ring_put default_features Quill (demo_record x) (from_storage (replicate 128 0) 128 False) = Some (r, True)"
      using p by auto
    show ?thesis using holds_ready [OF ring_put_accepts [OF _ w r, of 0 "[]"]] f r by (simp add: demo_seg_def)
  qed
  then show "ring_ready default_features (demo_seg 7) [demo_record 7]" "ring_ready default_features (demo_seg 8) [demo_record 8]"
    "ring_ready default_features (demo_seg 9) [demo_record 9]" "ring_ready default_features (demo_seg 0) [demo_record 0]" using ok put by blast+
qed

definition demo_flags :: "u64 \<Rightarrow> bool \<Rightarrow> bool \<Rightarrow> ring \<Rightarrow> ring" where
  "demo_flags serial handed live r = r\<lparr>rb_serial := serial, rb_handed_off := handed, rb_live := live, rb_helper_reserved := False\<rparr>"

lemma demo_flags_ready [simp]:
  "ring_ready default_features (demo_flags n h l r) rs \<longleftrightarrow> ring_ready default_features r rs"
  by (simp add: demo_flags_def ring_ready_def ring_wf_def visible_head_def default_features_def)

definition demo_heap :: "(nat \<Rightarrow> ring) \<Rightarrow> nat list \<Rightarrow> segments option \<Rightarrow> globals" where
  "demo_heap cells regs sg = \<lparr>g_heap = \<lparr>h_cell = cells, h_next = 3\<rparr>, g_registry = Some regs, g_serial = 3,
     g_capacity = Some 128, g_policy = Some Quill, g_segments = sg\<rparr>"

definition demo_drain :: "(nat \<times> u64) list \<Rightarrow> bool \<Rightarrow> drain_state" where
  "demo_drain rings segmented = (drain_new (InMemorySink mem_new) 0
     \<lparr>counter_to_ns = (1, 0), counter_base = 0, wall_base_ns = 0\<rparr> [] segmented)\<lparr>dr_rings := rings\<rparr>"

lemma demo_drain_simps [simp]:
  "dr_sink (demo_drain rs b) = InMemorySink mem_new" "dr_rings (demo_drain rs b) = rs" "dr_segmented (demo_drain rs b) = b"
  "ms_records mem_new = []" "ms_overflow mem_new = Unbounded"
  by (simp_all add: demo_drain_def drain_new_def mem_new_def mem_with_capacity_def)

lemma demo_heap_simps [simp]:
  "ring_at (demo_heap cells regs sg) a = cells a" "g_registry (demo_heap cells regs sg) = Some regs"
  "g_segments (demo_heap cells regs sg) = sg" "helper_lines (demo_heap cells regs None) = []"
  by (simp_all add: demo_heap_def helper_lines_def)

lemma demo_flags_simps [simp]:
  "rb_serial (demo_flags n h l r) = n" "rb_handed_off (demo_flags n h l r) = h" "rb_live (demo_flags n h l r) = l"
  "\<not> rb_helper_reserved (demo_flags n h l r)"
  by (simp_all add: demo_flags_def)

definition demo_two :: globals where
  "demo_two = demo_heap (\<lambda>a. if a = 0 then demo_flags 0 False True (demo_seg 7) else demo_flags 1 False False (demo_seg 8)) [0, 1] None"

theorem shutdown_delivers_all_witness:
  "\<forall>io :: unit io_ops. \<forall>e. \<exists>d' g' w' st'. drain_run default_features io e [((\<lambda>g. g), True)] SPIN_MIN 0 False
     (demo_drain [] False) demo_two () = Some (d', g', w') \<and> dr_sink d' = InMemorySink st' \<and>
     map cr_bytes (ms_records st') = [demo_record 8, demo_record 7]"
proof (intro allI)
  fix io :: "unit io_ops" and e
  let ?recs = "\<lambda>a. if a = (0::nat) then [demo_record 7] else [demo_record 8]"
  have k: "keep_ring demo_two 0" "\<not> keep_ring demo_two 1" by (simp_all add: keep_ring_def demo_two_def)
  have o: "final_order (demo_drain [] False) demo_two [0, 1] = [1, 0]"
    using k by (simp add: final_order_def finalize_list_def synced_def reconcile.simps)
  from shutdown_delivers_all [of "demo_drain [] False" mem_new demo_two "[0, 1]" default_features ?recs io e "[]" SPIN_MIN 0 False "()"]
  show "\<exists>d' g' w' st'. drain_run default_features io e [((\<lambda>g. g), True)] SPIN_MIN 0 False
     (demo_drain [] False) demo_two () = Some (d', g', w') \<and> dr_sink d' = InMemorySink st' \<and>
     map cr_bytes (ms_records st') = [demo_record 8, demo_record 7]"
    unfolding o using demo_seg_ready by (auto simp: demo_two_def simp del: drain_run.simps)
qed

text \<open>C20: Under a segmented policy a poll can deliver one thread's records out of order. A thread has
  handed off the segments \<open>a\<close> and \<open>b\<close>, in this order, and writes to \<open>c\<close>. Retiring \<open>a\<close> moves
  \<open>c\<close> to its place in the list, so the poll delivers the records of \<open>c\<close> before the older ones
  of \<open>b\<close>.\<close>

theorem handoff_reorders:
  assumes "dr_sink d = InMemorySink st" "ms_overflow st = Unbounded" "g_registry g = Some [a, b, c]" "distinct [a, b, c]"
    "dr_rings d = [current g a, current g b, current g c]" "dr_segmented d \<longleftrightarrow> g_segments g \<noteq> None" "helper_lines g = []"
    "rb_handed_off (ring_at g a)" "rb_handed_off (ring_at g b)" "\<not> rb_handed_off (ring_at g c)"
    "\<forall>x\<in>{a, b, c}. \<not> rb_helper_reserved (ring_at g x) \<and> ring_ready ft (ring_at g x) (recs x)"
  shows "\<exists>hw' d' g' w' st'. poll_once ft io e d g w = Some (hw', d', g', w') \<and> dr_sink d' = InMemorySink st' \<and>
    map cr_bytes (ms_records st') = map cr_bytes (ms_records st) @ recs a @ recs c @ recs b"
proof -
  obtain hw d' g' w' where p: "poll_once ft io e d g w = Some (hw, d', g', w')"
     "mem_good (dr_sink d', w')"
     "mem_seen (dr_sink d', w') = mem_seen (dr_sink d, w) @ concat (map (mem.out g recs) [a, c, b])"
  proof -
    have wt: "\<forall>x\<in>fst ` set (dr_rings d). current g x \<in> set (dr_rings d) \<and> \<not> rb_helper_reserved (ring_at g x) \<and>
        mem.waiting ft g recs x"
      using assms(5,11) by (auto simp: mem.waiting_def list_all_iff current_def)
    have ds: "distinct (map fst (dr_rings d))" "g_registry g \<noteq> None" using assms(3-5) by (simp_all add: current_def)
    have vo: "visit_order (retires g) (map fst (dr_rings d)) = [a, c, b]"
      using assms(3,5,8-10) by (simp add: current_def retires_def)
    show ?thesis
      using mem.poll_once_takes [OF mem_start [OF assms(1,2)] ds wt assms(6), where io = io and e = e and w = w] unfolding vo assms(7)
      by (elim exE conjE) (rule that, assumption+, simp)
  qed
  obtain st' where "dr_sink d' = InMemorySink st'" using p(2) by (auto simp: mem_good_def split: sink.splits)
  then show ?thesis using p(1,3) assms(1) by (auto simp: mem_seen_def mem_out comp_def)
qed

definition demo_three :: globals where
  "demo_three = demo_heap (\<lambda>a. if a = 0 then demo_flags 0 True True (demo_seg 7)
     else if a = 1 then demo_flags 1 True True (demo_seg 8) else demo_flags 2 False True (demo_seg 9)) [0, 1, 2] None"

theorem handoff_reorders_witness:
  "\<forall>io :: unit io_ops. \<forall>e. \<exists>hw' d' g' w' st'. poll_once default_features io e (demo_drain [(0, 0), (1, 1), (2, 2)] False) demo_three () =
     Some (hw', d', g', w') \<and> dr_sink d' = InMemorySink st' \<and>
     map cr_bytes (ms_records st') = [demo_record 7, demo_record 9, demo_record 8]"
proof (intro allI)
  fix io :: "unit io_ops" and e
  let ?d = "demo_drain [(0, 0), (1, 1), (2, 2)] False"
  let ?recs = "\<lambda>a. if a = 0 then [demo_record 7] else if a = (1::nat) then [demo_record 8] else [demo_record 9]"
  show "\<exists>hw' d' g' w' st'. poll_once default_features io e ?d demo_three () =
     Some (hw', d', g', w') \<and> dr_sink d' = InMemorySink st' \<and>
     map cr_bytes (ms_records st') = [demo_record 7, demo_record 9, demo_record 8]"
    using handoff_reorders [of ?d mem_new demo_three 0 1 2 default_features ?recs io e "()"] demo_seg_ready
    by (simp add: demo_three_def current_def)
qed

lemma singleton_list: "distinct xs \<Longrightarrow> set xs = {x} \<Longrightarrow> xs = [x]"
  by (cases xs; cases "tl xs") auto

text \<open>Under a segmented policy a thread's last records can overtake its earlier ones. A thread
  that hands off segment \<open>a\<close>, writes to \<open>b\<close> and exits leaves \<open>b\<close> dead and \<open>a\<close> live: the
  sync drains the dead ring first, so the newer records of \<open>b\<close> are delivered before those of \<open>a\<close>.\<close>

theorem exit_reorders:
  assumes "dr_sink d = InMemorySink st" "ms_overflow st = Unbounded" "g_registry g = Some [a, b]" "a \<noteq> b"
    "dr_rings d = [] \<or> dr_rings d = [current g a]" "dr_segmented d \<longleftrightarrow> g_segments g \<noteq> None" "helper_lines g = []"
    "rb_live (ring_at g a)" "\<not> rb_live (ring_at g b)"
    "\<forall>x\<in>{a, b}. \<not> rb_helper_reserved (ring_at g x) \<and> ring_ready ft (ring_at g x) (recs x)"
  shows "\<exists>d' g' w' st'. final_pass ft io e d g w = Some (d', g', w') \<and> dr_sink d' = InMemorySink st' \<and>
    map cr_bytes (ms_records st') = map cr_bytes (ms_records st) @ recs b @ recs a"
proof -
  have k: "keep_ring g a" "\<not> keep_ring g b" using assms(8-10) by (auto simp: keep_ring_def)
  have dm: "distinct (map fst (dr_rings d))" using assms(5) by auto
  have "set (synced g [a, b] (dr_rings d)) = {current g a}" using synced_set(2) [OF dm, of g "[a, b]"] k by auto
  then have "synced g [a, b] (dr_rings d) = [current g a]"
    using synced_set(1) [OF dm, of g "[a, b]"] by (auto simp: distinct_map intro: singleton_list)
  then have o: "final_order d g [a, b] = [b, a]"
    using assms(4,5) k by (auto simp: final_order_def finalize_list_def current_def)
  have "distinct [a, b]" "distinct (map fst (dr_rings d))"
    "\<forall>x\<in>set [a, b] \<union> fst ` set (dr_rings d). \<not> rb_helper_reserved (ring_at g x) \<and> ring_ready ft (ring_at g x) (recs x)"
    using assms(4,5,10) by (auto simp: current_def)
  from final_pass_mem [OF assms(1-3) this(1,2) assms(6) this(3), of io e w] show ?thesis
    unfolding o by (auto simp: assms(7) comp_def)
qed

theorem exit_reorders_witness:
  "\<forall>io :: unit io_ops. \<forall>e. \<exists>d' g' w' st'. final_pass default_features io e (demo_drain [] False) demo_two () =
     Some (d', g', w') \<and> dr_sink d' = InMemorySink st' \<and> map cr_bytes (ms_records st') = [demo_record 8, demo_record 7]"
proof (intro allI)
  fix io :: "unit io_ops" and e
  show "\<exists>d' g' w' st'. final_pass default_features io e (demo_drain [] False) demo_two () =
     Some (d', g', w') \<and> dr_sink d' = InMemorySink st' \<and> map cr_bytes (ms_records st') = [demo_record 8, demo_record 7]"
    using exit_reorders [of "demo_drain [] False" mem_new demo_two 0 1 default_features
        "\<lambda>a. if a = 0 then [demo_record 7] else [demo_record 8]" io e "()"] demo_seg_ready
    by (simp add: demo_two_def)
qed

lemma concat_map_concat: "concat (map (\<lambda>a. concat (map f (h a))) xs) = concat (map f (concat (map h xs)))"
  by (induction xs) auto

text \<open>C11: Lines reach their target before the drain exits. With a writer that does not fail and a
  sink that writes lines to target \<open>t\<close> (a writer, a file with its buffer, an uncoloured console),
  the final pass leaves on \<open>t\<close>, after what was there and what the sink still buffered, the line of
  every record the registered rings held and every line a helper had formatted, each ended by a
  newline: nothing stays in a buffer.\<close>

theorem shutdown_writes_lines:
  assumes "\<forall>t s w. \<exists>w'. io_write io t s w = (w', None) \<and> content t w' = content t w @ s"
    "\<forall>t w. \<exists>w'. io_flush io t w = (w', None) \<and> content t w' = content t w"
    "writes_to t (dr_sink d)" "g_registry g = Some regs" "distinct regs" "distinct (map fst (dr_rings d))"
    "dr_segmented d \<longleftrightarrow> g_segments g \<noteq> None"
    "\<forall>a\<in>set regs \<union> fst ` set (dr_rings d). \<not> rb_helper_reserved (ring_at g a) \<and> ring_ready ft (ring_at g a) (recs a) \<and>
      list_all2 (\<lambda>x line. decode_and_format e x (dr_offset d) (dr_calib d) (dr_pattern d) (rb_thread_id (ring_at g a))
        (rb_thread_name (ring_at g a)) [] = Some line) (recs a) (ls a)"
  shows "\<exists>d' g' w'. drain_run ft io e (((\<lambda>g. g), True) # turns) spin since_sync dirty d g w = Some (d', g', w') \<and>
    content t w' = content t w @ pending (dr_sink d) @
      concat (map (\<lambda>line. line @ [NL]) (concat (map ls (final_order d g regs)) @ map fst (helper_lines g)))"
proof -
  have io: "steady_io io content"
    using assms(1,2) by unfold_locales (metis prod.inject)+
  let ?dec = "\<lambda>a x. decode_and_format e x (dr_offset d) (dr_calib d) (dr_pattern d) (rb_thread_id (ring_at g a))
        (rb_thread_name (ring_at g a)) []"
  define out where "out a = concat (map (\<lambda>x. the (?dec a x) @ [NL]) (recs a))" for a
  have ok: "list_all (\<lambda>x. ?dec a x \<noteq> None) (recs a)" "out a = concat (map (\<lambda>line. line @ [NL]) (ls a))"
    if "a \<in> set regs \<union> fst ` set (dr_rings d)" for a
  proof -
    have "list_all2 (\<lambda>x line. ?dec a x = Some line) (recs a) (ls a)" using assms(8) that by blast
    then have "list_all (\<lambda>x. ?dec a x \<noteq> None) (recs a) \<and>
        concat (map (\<lambda>x. the (?dec a x) @ [NL]) (recs a)) = concat (map (\<lambda>line. line @ [NL]) (ls a))"
      by (induction rule: list_all2_induct) auto
    then show "list_all (\<lambda>x. ?dec a x \<noteq> None) (recs a)" "out a = concat (map (\<lambda>line. line @ [NL]) (ls a))"
      by (simp_all add: out_def)
  qed
  have "map out (final_order d g regs) = map (\<lambda>a. concat (map (\<lambda>line. line @ [NL]) (ls a))) (final_order d g regs)"
    using ok(2) final_order_once(2) [OF assms(5,6), of g] by (intro map_cong refl) auto
  then have lines: "concat (map out (final_order d g regs)) = concat (map (\<lambda>line. line @ [NL]) (concat (map ls (final_order d g regs))))"
    by (simp only: concat_map_concat)
  have pl: "concat (map (\<lambda>(line, l). line @ [NL]) ps) = concat (map (\<lambda>line. line @ [NL]) (map fst ps))" for ps :: "(bytes \<times> level) list"
    by (simp add: comp_def case_prod_unfold)
  have "\<forall>a\<in>set regs \<union> fst ` set (dr_rings d). \<not> rb_helper_reserved (ring_at g a) \<and> ring_ready ft (ring_at g a) (recs a) \<and>
      list_all (\<lambda>x. ?dec a x \<noteq> None) (recs a)" using assms(8) ok(1) by blast
  from steady_io.lines_final_pass [OF io assms(3-7) this, of w, folded final_order_def out_def]
  show ?thesis using lines pl by simp
qed

definition demo_lines :: drain_state where
  "demo_lines = (demo_drain [] False)\<lparr>dr_sink := WriterSink (Handle 0), dr_pattern := [Lit (bs ''hi'')]\<rparr>"

definition demo_one :: globals where
  "demo_one = demo_heap (\<lambda>a. demo_flags 0 False True (demo_seg 0)) [0] None"

lemma demo_line:
  "decode_and_format e (demo_record 0) 0 \<lparr>counter_to_ns = (1, 0), counter_base = 0, wall_base_ns = 0\<rparr> [Lit (bs ''hi'')] i nm [] =
     Some (bs ''hi'')"
  by code_simp

theorem shutdown_writes_lines_witness:
  "\<forall>e. \<exists>d' g' w'. drain_run default_features vec_io e [((\<lambda>g. g), True)] SPIN_MIN 0 False demo_lines demo_one (\<lambda>t. []) =
     Some (d', g', w') \<and> w' (Handle 0) = bs ''hi'' @ [NL]"
proof
  fix e
  have k: "keep_ring demo_one 0" by (simp add: keep_ring_def demo_one_def)
  have o: "final_order demo_lines demo_one [0] = [0]"
    using k by (simp add: final_order_def finalize_list_def synced_def reconcile.simps demo_lines_def)
  have d: "dr_offset demo_lines = 0" "dr_pattern demo_lines = [Lit (bs ''hi'')]" "dr_rings demo_lines = []"
    "dr_calib demo_lines = \<lparr>counter_to_ns = (1, 0), counter_base = 0, wall_base_ns = 0\<rparr>"
    "dr_sink demo_lines = WriterSink (Handle 0)" "\<not> dr_segmented demo_lines"
    by (simp_all add: demo_lines_def demo_drain_def drain_new_def)
  show "\<exists>d' g' w'. drain_run default_features vec_io e [((\<lambda>g. g), True)] SPIN_MIN 0 False demo_lines demo_one (\<lambda>t. []) =
     Some (d', g', w') \<and> w' (Handle 0) = bs ''hi'' @ [NL]"
    using shutdown_writes_lines [of vec_io "\<lambda>t w. w t" "Handle 0" demo_lines demo_one "[0]" default_features
        "\<lambda>a. [demo_record 0]" e "\<lambda>a. [bs ''hi'']" "[]" SPIN_MIN 0 False "\<lambda>t. []"] demo_seg_ready(4) demo_line
    unfolding o by (simp add: d demo_one_def vec_io_def del: drain_run.simps)
qed

text \<open>C17: A sync makes the drain's list exact. It returns; the list then names every registered ring
  that is live or reserved once, under its current serial, and nothing else; the registry keeps
  just those; and every dead ring, also one that registered and exited between two syncs, has had
  its last records delivered and is empty.\<close>

theorem sync_tracks:
  assumes "dr_sink d = InMemorySink st" "ms_overflow st = Unbounded" "g_registry g = Some regs" "distinct regs"
    "distinct (map fst (dr_rings d))"
    "\<forall>a\<in>set regs \<union> fst ` set (dr_rings d). \<not> keep_ring g a \<longrightarrow> ring_ready ft (ring_at g a) (recs a)"
  shows "\<exists>d' g' w'. sync_rings ft io e d g w = Some (d', g', w') \<and> distinct (map fst (dr_rings d')) \<and>
    set (dr_rings d') = current g' ` {a \<in> set regs. keep_ring g a} \<and>
    g_registry g' = Some (filter (keep_ring g) regs) \<and>
    mem_seen (dr_sink d', w') = ms_records st @ map (\<lambda>x. captured (x, record_level x))
      (concat (map recs (finalize_list g regs (dr_rings d)))) \<and>
    (\<forall>a\<in>set regs. \<not> keep_ring g a \<longrightarrow> ring_ready ft (ring_at g' a) [])"
proof -
  let ?F = "finalize_list g regs (dr_rings d)"
  note F = finalize_list_set [OF assms(4,5), of g] and L = synced_set [OF assms(5), of g regs]
  have "\<forall>a\<in>set ?F. mem.waiting ft g recs a" using assms(6) F(2) by (simp add: mem.waiting_def list_all_iff)
  from mem.sync_takes [OF mem_start [OF assms(1,2)] assms(3-5) this, where io = io and e = e and w = w]
  obtain s' g' w' where s: "sync_rings ft io e d g w = Some (d\<lparr>dr_rings := synced g regs (dr_rings d), dr_sink := s'\<rparr>, g', w')"
    "mem_seen (s', w') = mem_seen (dr_sink d, w) @ concat (map (mem.out g recs) ?F)"
    "\<forall>a\<in>set ?F. ring_ready ft (ring_at g' a) []" "\<forall>a. a \<notin> set ?F \<longrightarrow> ring_at g' a = ring_at g a"
    "g_registry g' = Some (filter (keep_ring g) regs)" by (elim exE conjE) (rule that)
  have "current g a = current g' a" if "keep_ring g a" for a using that s(4) F(2) by (simp add: current_def)
  then have "set (synced g regs (dr_rings d)) = current g' ` {a \<in> set regs. keep_ring g a}"
    unfolding L(2) by (intro image_cong) auto
  then show ?thesis
    using s L(1) F(2) assms(1) by (auto simp: mem_seen_def mem_out map_concat comp_def)
qed

theorem sync_tracks_witness:
  "\<forall>io :: unit io_ops. \<forall>e. \<exists>d' g' w'. sync_rings default_features io e (demo_drain [(1, 1)] False) demo_two () = Some (d', g', w') \<and>
     map fst (dr_rings d') = [0] \<and> map cr_bytes (mem_seen (dr_sink d', w')) = [demo_record 8]"
proof (intro allI)
  fix io :: "unit io_ops" and e
  let ?d = "demo_drain [(1, 1)] False"
  have k: "keep_ring demo_two 0" "\<not> keep_ring demo_two 1" by (simp_all add: keep_ring_def demo_two_def)
  have f: "finalize_list demo_two [0, 1] (dr_rings ?d) = [1]" using k by (simp add: finalize_list_def)
  obtain d' g' w' where s: "sync_rings default_features io e ?d demo_two () = Some (d', g', w')" "distinct (map fst (dr_rings d'))"
    "set (dr_rings d') = current g' ` {a \<in> set [0, 1]. keep_ring demo_two a}"
    "mem_seen (dr_sink d', w') = [captured (demo_record 8, record_level (demo_record 8))]"
    using sync_tracks [of ?d mem_new demo_two "[0, 1]" default_features "\<lambda>a. if a = 0 then [demo_record 7] else [demo_record 8]" io e "()"]
      demo_seg_ready unfolding f by (auto simp: demo_two_def)
  have "{a \<in> set [0, 1]. keep_ring demo_two a} = {0}" using k by auto
  then have "dr_rings d' = [current g' 0]" using s(2,3) by (auto simp: distinct_map intro: singleton_list)
  then show "\<exists>d' g' w'. sync_rings default_features io e ?d demo_two () = Some (d', g', w') \<and>
     map fst (dr_rings d') = [0] \<and> map cr_bytes (mem_seen (dr_sink d', w')) = [demo_record 8]"
    using s by (simp add: current_def)
qed

end
