(* ===== verification/Log_Properties.thy ===== *)
theory Log_Properties
  imports Log_Call
begin

text \<open>What a logging call does to the rings, and the identity it records.\<close>

section \<open>The record a call writes\<close>

lemma call_size_eq:
  assumes "length args \<le> 255" "BASE_RECORD_SIZE + length args + args_size args \<le> MAX_RECORD_SIZE"
  shows "call_size args = BASE_RECORD_SIZE + length args + args_size args"
    "unat (n_args_u8 args) = length args"
  using assms
  by (simp_all add: call_size_def n_args_u8_def args_encoded_size_eq unat_of_nat record_consts)

lemma write_slot_put:
  assumes "ring_holds ft (Suc k) r rs" "length args \<le> 255"
    "n = BASE_RECORD_SIZE + length args + args_size args" "n \<le> MAX_RECORD_SIZE"
    "reserve ft [] r n policy = Some (r1, Some v)"
  shows "write_slot ft l ts site (word_of_nat (length args)) n
      (\<lambda>buf. map_option fst (write_args args buf 0 (length args))) v r1 =
    Some (publish ft v (store_record v (wire_record l ts site args) r1))"
proof -
  let ?x = "wire_record l ts site args"
  have x: "wire_ok ?x" and len: "length ?x = n" using assms(3,4) wire_record_ok(1) by simp_all
  then have "res_ptr v + n \<le> length (rb_data r1)"
    using reserve_slot_inside [OF assms(1) x] assms(5) by simp
  then have "length (slice (rb_data r1) (res_ptr v) n) = n" by (simp add: slice_def)
  from assemble_wire_record [OF assms(2,3) this] show ?thesis by (simp add: write_slot_def)
qed

text \<open>A call below the ceiling and within the limits hands \<open>dispatch\<close> the size of its record.\<close>

lemma log_call_dispatch:
  assumes "l \<le> ceiling" "length args \<le> 255" "BASE_RECORD_SIZE + length args + args_size args \<le> MAX_RECORD_SIZE"
  shows "log_call ft e obs os ts ceiling policy l site args slot g =
    dispatch ft e obs os ts l site (word_of_nat (length args)) (BASE_RECORD_SIZE + length args + args_size args) policy
      (\<lambda>buf. map_option fst (write_args args buf 0 (length args))) slot g"
proof (cases "args = []")
  case True
  have "Some = (\<lambda>buf. map_option fst (write_args [] buf 0 0))" by (rule ext) simp
  then show ?thesis using True assms(1) by (simp add: log_call_def args_size_def)
next
  case False
  then show ?thesis using assms(1) call_size_eq [OF assms(2,3)] by (simp add: log_call_def n_args_u8_def)
qed

text \<open>One call on an initialised thread, as an operation on its ring.\<close>

lemma log_call_put:
  assumes slot: "ts_buf slot = Some tb" "\<not> ts_active slot" and pol: "policy \<in> {Drop, Block}"
    and lvl: "l \<le> ceiling" and h: "ring_holds ft (Suc k) (ring_at g (tb_ring tb)) rs"
    and n: "length args \<le> 255" "BASE_RECORD_SIZE + length args + args_size args \<le> MAX_RECORD_SIZE"
  shows "log_call ft e [] os ts ceiling policy l site args slot g =
    map_option (\<lambda>(r, ok). (True, slot, update_ring (tb_ring tb) (\<lambda>_. r) g))
      (ring_put ft policy (wire_record l ts site args) (ring_at g (tb_ring tb)))"
proof -
  let ?n = "BASE_RECORD_SIZE + length args + args_size args"
  note d = log_call_dispatch [OF lvl n]
  have len: "length (wire_record l ts site args) = ?n" by simp
  have s: "slot\<lparr>ts_active := False, ts_buf := Some tb\<rparr> = slot" using slot by (cases slot) simp
  have u: "update_ring a f (update_ring a f' g) = update_ring a (\<lambda>r. f (f' r)) g" for a f f'
    by (simp add: update_ring_def on_ring_def)
  have pol': "policy \<noteq> NanoLog" "policy \<noteq> Quill" using pol by auto
  show ?thesis
    unfolding d dispatch_def with_thread_buf_def ring_put_def len
    using slot n(2) pol' write_slot_put [OF h n(1) refl n(2)] s
    by (auto simp: reserve_with_policy_def u split: option.splits)
qed

text \<open>A live ring refuses only under Drop, and only Block can wait.\<close>

lemma ring_put_outcome:
  assumes h: "ring_holds ft (Suc k) r rs" and x: "wire_ok x"
  shows "ring_put ft policy x r = None \<Longrightarrow> policy = Block"
    "ring_put ft policy x r = Some (r', False) \<Longrightarrow> policy \<noteq> Block"
proof -
  have rv: "ring_view ft r" and lv: "rb_live r" and dv: "drain_view ft r Asleep rs"
    and room: "unat (producer_head ft r) + 131072 < 2 ^ 64" using h by (auto simp: ring_holds_def)
  have n: "length x \<le> 65535" using wire_ok_size [OF x] by simp
  have wf: "ring_wf r" and t: "unat (rb_tail_cache r) \<le> unat (rb_tail r)" "unat (rb_tail r) \<le> unat (producer_head ft r)"
    using rv drain_view_order [OF dv] by (auto simp: ring_view_def word_le_nat_alt)
  note sp = reserve_spec [OF wf n refl room t, of policy]
  show "ring_put ft policy x r = None \<Longrightarrow> policy = Block"
    "ring_put ft policy x r = Some (r', False) \<Longrightarrow> policy \<noteq> Block"
    using lv by (auto simp: ring_put_def sp split: if_splits)
qed

text \<open>C13: A logging call appends its record. On an initialised thread, below the level ceiling and
  within the size limits, the call leaves every other ring alone and the thread's own ring carries
  the assembled record behind what it carried before, or, under Drop and only there, is unchanged;
  under Block the call may spin but never drops.\<close>

theorem log_call_appends:
  assumes "ts_buf slot = Some tb" "\<not> ts_active slot" "policy \<in> {Drop, Block}" "l \<le> ceiling"
    "ring_holds ft (Suc k) (ring_at g (tb_ring tb)) rs" "length args \<le> 255"
    "BASE_RECORD_SIZE + length args + args_size args \<le> MAX_RECORD_SIZE"
  shows "policy = Block \<and> log_call ft e [] os ts ceiling policy l site args slot g = None \<or>
    (\<exists>g'. log_call ft e [] os ts ceiling policy l site args slot g = Some (True, slot, g') \<and>
      (\<forall>a. a \<noteq> tb_ring tb \<longrightarrow> ring_at g' a = ring_at g a) \<and>
      (ring_holds ft k (ring_at g' (tb_ring tb)) (rs @ [wire_record l ts site args]) \<or>
       policy = Drop \<and> ring_holds ft (Suc k) (ring_at g' (tb_ring tb)) rs))"
proof -
  let ?r = "ring_at g (tb_ring tb)" let ?x = "wire_record l ts site args"
  note lc = log_call_put [OF assms, of e os ts site]
  have x: "wire_ok ?x" using wire_record_ok(1) [OF assms(7)] .
  show ?thesis
  proof (cases "ring_put ft policy ?x ?r")
    case None
    then show ?thesis using ring_put_outcome(1) [OF assms(5) x] lc by simp
  next
    case (Some p)
    then obtain r ok where p: "ring_put ft policy ?x ?r = Some (r, ok)" by (cases p) auto
    show ?thesis
    proof (cases ok)
      case True
      then show ?thesis using ring_put_accepts [OF assms(5) x] p lc by simp
    next
      case False
      then have "policy = Drop" "ring_holds ft (Suc k) r rs"
        using ring_put_outcome(2) [OF assms(5) x] ring_put_refuses [OF assms(5) x] p assms(3) by auto
      then show ?thesis using p lc by simp
    qed
  qed
qed

text \<open>A process with one initialised thread.\<close>

definition demo_globals :: globals where
  "demo_globals = \<lparr>g_heap = \<lparr>h_cell = (\<lambda>_. from_storage (replicate 256 0) 256 False), h_next = 1\<rparr>,
     g_registry = Some [0], g_serial = 1, g_capacity = Some 256, g_policy = Some Drop, g_segments = None\<rparr>"

definition demo_slot :: thread_slot where
  "demo_slot = \<lparr>ts_active = False,
     ts_buf = Some \<lparr>tb_ring = 0, tb_helper = None, tb_thread_id = 1, tb_thread_name = bs ''main''\<rparr>\<rparr>"

theorem log_call_appends_witness:
  "\<forall>e os. \<exists>g'. log_call default_features e [] os 5 Info Drop Warn 4096 [U32 7] demo_slot demo_globals = Some (True, demo_slot, g') \<and>
     (ring_holds default_features 0 (ring_at g' 0) [wire_record Warn 5 4096 [U32 7]] \<or>
      ring_holds default_features 1 (ring_at g' 0) [])"
proof -
  have w: "with_capacity 256 = Some (from_storage (replicate 256 0) 256 False)" by code_simp
  have "ring_holds default_features (Suc 0) (ring_at demo_globals 0) []"
    using ring_holds_fresh [OF w, of default_features "Suc 0"] by (simp add: demo_globals_def default_features_def)
  then have "\<exists>g'. log_call default_features e [] os 5 Info Drop Warn 4096 [U32 7] demo_slot demo_globals = Some (True, demo_slot, g') \<and>
     (ring_holds default_features 0 (ring_at g' 0) [wire_record Warn 5 4096 [U32 7]] \<or>
      ring_holds default_features 1 (ring_at g' 0) [])" for e os
    using log_call_appends [of demo_slot "\<lparr>tb_ring = 0, tb_helper = None, tb_thread_id = 1, tb_thread_name = bs ''main''\<rparr>"
        Drop Warn Info default_features 0 demo_globals "[]" "[U32 7]" e os 5 4096]
    by (auto simp: demo_slot_def record_consts args_size_def)
  then show ?thesis by blast
qed

section \<open>Segmented policies\<close>

lemma reserve_fresh:
  assumes "ring_wf r" "producer_head ft r = 0" "rb_tail r = 0" "rb_tail_cache r = 0"
    "n \<le> MAX_RECORD_SIZE" "slots n < rb_capacity r"
  shows "\<exists>r' v. reserve ft [] r n policy = Some (r', Some v)"
proof -
  have n: "n \<le> 65535" using assms(5) by (simp add: record_consts)
  have "end_pos (rb_capacity r) 0 n = slots n"
    using assms(6) by (simp add: end_pos_def start_pos_def wraps_def)
  then show ?thesis
    using reserve_spec [OF assms(1) n, of 0 ft policy] assms by auto
qed

text \<open>Quill never drops and never waits. On a well-formed segment with positions in order, a
  record whose slots are smaller than a segment is always placed: in the current segment, or in a
  fresh registered one, with the full segment handed to the drain still registered and its bytes
  and published position as they were.\<close>

theorem quill_never_drops:
  fixes g tb
  defines "r \<equiv> ring_at g (tb_ring tb)"
  assumes "g_segments g = Some sg" "g_registry g = Some rings" "ring_wf r"
    "rb_tail_cache r \<le> rb_tail r" "rb_tail r \<le> producer_head ft r"
    "unat (producer_head ft r) + 131072 < 2 ^ 64" "n \<le> MAX_RECORD_SIZE"
    "with_capacity_arena (sg_capacity sg) False = Some f" "slots n < sg_capacity sg" "sg_capacity sg < 2 ^ 64"
    "tb_ring tb < h_next (g_heap g)"
  shows "\<exists>v tb' g' rings'. reserve_with_policy ft e obs tb n Quill g = Some (Some v, tb', g') \<and>
    g_registry g' = Some rings' \<and> set rings \<subseteq> set rings' \<and>
    (tb_ring tb' = tb_ring tb \<or>
     tb_ring tb' = h_next (g_heap g) \<and> tb_ring tb' \<in> set rings' \<and>
     rb_handed_off (ring_at g' (tb_ring tb)) \<and> rb_data (ring_at g' (tb_ring tb)) = rb_data r \<and>
     producer_head ft (ring_at g' (tb_ring tb)) = producer_head ft r)"
proof -
  have n: "n \<le> 65535" using assms(8) by (simp add: record_consts)
  have t: "unat (rb_tail_cache r) \<le> unat (rb_tail r)" "unat (rb_tail r) \<le> unat (producer_head ft r)"
    using assms(5,6) by (simp_all add: word_le_nat_alt)
  note sp = reserve_spec [OF assms(4) n refl assms(7) t, of Quill]
  show ?thesis
  proof (cases "\<exists>r1 v. reserve ft [] r n Quill = Some (r1, Some v)")
    case True
    then obtain r1 v where res: "reserve ft [] r n Quill = Some (r1, Some v)" by blast
    have "handoff_loop ft e n Quill tb g = Some (Some v, tb, update_ring (tb_ring tb) (\<lambda>_. r1) g)"
      using res assms(2) by (subst handoff_loop.simps) (simp add: r_def)
    then show ?thesis using assms(2,3) by (simp add: reserve_with_policy_def)
  next
    case False
    then have res: "reserve ft [] r n Quill = Some (r\<lparr>rb_tail_cache := rb_tail r\<rparr>, None)"
      unfolding sp by (auto split: if_splits)
    define r2 where "r2 = mark_handed_off
      (if watermark_head ft then flush_watermark (r\<lparr>rb_tail_cache := rb_tail r\<rparr>) else r\<lparr>rb_tail_cache := rb_tail r\<rparr>)"
    define g1 where "g1 = update_ring (tb_ring tb) (\<lambda>_. r2) g"
    define a where "a = h_next (g_heap g)"
    define g2 where "g2 = g1\<lparr>g_heap := snd (new_ring f (g_heap g1))\<rparr>"
    define g3 where "g3 = the (register_ring a
      (update_ring a (set_thread_info (tb_thread_id tb) (tb_thread_name tb)) g2))"
    have nx: "next_segment ft e Quill sg tb g1 = Some (Some a, tb, g2)"
      using assms(9) by (simp add: next_segment_def alloc_fresh_def g2_def a_def g1_def new_ring_def)
    have ne: "tb_ring tb \<noteq> a" using assms(12) by (simp add: a_def)
    have reg: "register_ring a (update_ring a (set_thread_info (tb_thread_id tb) (tb_thread_name tb)) g2) = Some g3"
      using assms(3) by (simp add: g3_def g2_def g1_def register_ring_def)
    have g3: "g_segments g3 = Some sg" "ring_at g3 (tb_ring tb) = r2"
      "ring_at g3 a = set_serial (g_serial g) (set_thread_info (tb_thread_id tb) (tb_thread_name tb) f)"
      "g_registry g3 = Some (if a \<in> set rings then rings else rings @ [a])"
      using reg assms(2,3) ne by (auto simp: g2_def g1_def register_ring_def a_def)
    have f: "ring_wf f" "producer_head ft f = 0" "rb_tail f = 0" "rb_tail_cache f = 0" "rb_capacity f = sg_capacity sg"
      using with_capacity_arena_wf [OF assms(9,11)] assms(9)
      by (auto simp: with_capacity_arena_def from_storage_def producer_head_def split: if_splits)
    obtain r' v where new: "reserve ft [] (ring_at g3 a) n Quill = Some (r', Some v)"
      using reserve_fresh [of "ring_at g3 a" ft n Quill] f assms(8,10)
      by (cases "watermark_head ft") (auto simp: g3 ring_wf_def set_serial_def set_thread_info_def producer_head_def)
    have "handoff_loop ft e n Quill (tb\<lparr>tb_ring := a\<rparr>) g3 =
        Some (Some v, tb\<lparr>tb_ring := a\<rparr>, update_ring a (\<lambda>_. r') g3)"
      using new g3(1) by (subst handoff_loop.simps) simp
    then have "handoff_loop ft e n Quill tb g =
        Some (Some v, tb\<lparr>tb_ring := a\<rparr>, update_ring a (\<lambda>_. r') g3)"
      using res assms(2) nx reg
      by (subst handoff_loop.simps) (simp add: r_def [symmetric] r2_def [symmetric] g1_def [symmetric] Let_def)
    moreover have "rb_handed_off r2" "rb_data r2 = rb_data r" "producer_head ft r2 = producer_head ft r"
      by (simp_all add: r2_def mark_handed_off_def flush_watermark_def producer_head_def)
    ultimately show ?thesis
      using assms(2) g3 ne by (auto simp: reserve_with_policy_def a_def [symmetric])
  qed
qed

definition demo_segments :: segments where
  "demo_segments = \<lparr>sg_policy = Quill, sg_capacity = 256, sg_spares = [], sg_lines = [], sg_offset = 0,
     sg_calib = \<lparr>counter_to_ns = (1, 0), counter_base = 0, wall_base_ns = 0\<rparr>, sg_pattern = [], sg_raw = True\<rparr>"

theorem quill_never_drops_witness:
  "\<forall>e. \<exists>v tb' g'. reserve_with_policy default_features e [] \<lparr>tb_ring = 0, tb_helper = None, tb_thread_id = 1, tb_thread_name = []\<rparr>
     40 Quill (demo_globals\<lparr>g_segments := Some demo_segments\<rparr>) =
     Some (Some v, tb', g')"
proof
  fix e
  let ?g = "demo_globals\<lparr>g_segments := Some demo_segments\<rparr>"
  let ?tb = "\<lparr>tb_ring = 0, tb_helper = None, tb_thread_id = 1, tb_thread_name = []\<rparr>"
  have w: "with_capacity 256 = Some (from_storage (replicate 256 0) 256 False)" by code_simp
  have f: "with_capacity_arena 256 False = Some (from_storage (replicate 256 0) 256 False)" by code_simp
  have wf: "ring_wf (from_storage (replicate 256 0) 256 False)" using with_capacity_wf [OF w] by simp
  show "\<exists>v tb' g'. reserve_with_policy default_features e [] ?tb 40 Quill ?g = Some (Some v, tb', g')"
    using quill_never_drops [of ?g demo_segments "[0]" ?tb default_features 40 "from_storage (replicate 256 0) 256 False" e "[]"] wf f
    by (simp add: demo_globals_def demo_segments_def producer_head_def default_features_def record_consts slots_def)
      (fastforce simp: from_storage_def)
qed

section \<open>Thread identity\<close>

lemma strip_prefix_append: "strip_prefix p (p @ s) = Some s"
  by (simp add: strip_prefix_def)

lemma strip_suffix_append: "strip_suffix q (s @ q) = Some s"
  by (simp add: strip_suffix_def strip_prefix_append)

lemma parse_u64_decimal:
  assumes "n < 2 ^ 64"
  shows "parse_u64 (decimal n) = Some (word_of_nat n)"
proof -
  have "hd (decimal n) \<in> set (decimal n)" using decimal_hd(2) by simp
  then have "is_digit (hd (decimal n))" using decimal_digits by (simp add: list_all_iff)
  then have "\<not> starts PLUS (decimal n)" using decimal_hd(2) [of n]
    by (cases "decimal n") (auto simp: starts_def is_digit_def word_le_nat_alt)
  then show ?thesis
    using assms decimal_digits decimal_hd(2) radix_digits_read [of 10 False n]
    by (simp add: parse_u64_def Let_def decimal_def)
qed

text \<open>C38: The identity a thread logs under. The id the runtime prints as \<open>ThreadId(n)\<close> is read
  back as \<open>n\<close>; the name in a record is the thread's name when that fits in 256 bytes and a prefix
  of at most 256 bytes otherwise, cut on a character boundary: valid UTF-8 stays valid, so the
  slice never panics.\<close>

theorem thread_identity:
  assumes "os_id os = bs ''ThreadId('' @ decimal n @ bs '')''" "n < 2 ^ 64"
    "os_name os = Some nm" "utf8_valid nm"
  shows "unat (get_stable_thread_id os) = n \<and> utf8_valid (thread_display_name os) \<and>
    length (thread_display_name os) \<le> 256 \<and>
    thread_display_name os = take (length (thread_display_name os)) nm \<and>
    (length nm \<le> 256 \<longrightarrow> thread_display_name os = nm)"
proof -
  let ?k = "boundary_before nm MAX_THREAD_NAME_LEN"
  have "get_stable_thread_id os = word_of_nat n"
    using assms(1) parse_u64_decimal [OF assms(2)]
    by (simp only: get_stable_thread_id_def strip_prefix_append strip_suffix_append bind.bind_lunit option.case)
  then have "unat (get_stable_thread_id os) = n"
    using assms(2) by (simp add: unat_of_nat take_bit_nat_eq_self)
  moreover have "utf8_valid (take ?k nm)"
    using utf8_valid_take [OF assms(4)] boundary_before_boundary [of nm] utf8_valid_hd [OF assms(4)] by blast
  moreover have "?k \<le> 256" using boundary_before_le [of nm MAX_THREAD_NAME_LEN]
    by (simp add: MAX_THREAD_NAME_LEN_def)
  ultimately show ?thesis
    using assms(3,4) by (simp add: thread_display_name_def Let_def MAX_THREAD_NAME_LEN_def min_def)
qed

theorem thread_identity_witness:
  "unat (get_stable_thread_id \<lparr>os_id = bs ''ThreadId(12)'', os_name = Some (bs ''main'')\<rparr>) = 12 \<and>
   thread_display_name \<lparr>os_id = bs ''ThreadId(12)'', os_name = Some (bs ''main'')\<rparr> = bs ''main''"
proof -
  have d: "bs ''ThreadId(12)'' = bs ''ThreadId('' @ decimal 12 @ bs '')''" by code_simp
  have v: "utf8_valid (bs ''main'')" by code_simp
  have l: "length (bs ''main'') = 4" by code_simp
  show ?thesis
    using thread_identity [of "\<lparr>os_id = bs ''ThreadId(12)'', os_name = Some (bs ''main'')\<rparr>" 12 "bs ''main''"] d v l
    by simp
qed

end
