(* ===== verification/Process.thy ===== *)
theory Process
  imports Config Drain_Properties Log_Properties
begin

text \<open>
  A whole process on the crate's own ring: several threads log in any interleaving of whole calls,
  each through its own thread-local slot, into the shared registry. The invariant relates the rings
  to what each thread's calls have been accepted.
\<close>

section \<open>Threads logging\<close>

record call =
  ca_thread :: nat
  ca_level :: level
  ca_time :: u64
  ca_site :: u64
  ca_args :: "arg list"

definition call_ok :: "call \<Rightarrow> bool" where
  "call_ok c \<longleftrightarrow> length (ca_args c) \<le> 255 \<and>
     BASE_RECORD_SIZE + length (ca_args c) + args_size (ca_args c) \<le> MAX_RECORD_SIZE"

definition call_record :: "call \<Rightarrow> bytes" where
  "call_record c = wire_record (ca_level c) (ca_time c) (ca_site c) (ca_args c)"

fun run_calls ::
  "features \<Rightarrow> env \<Rightarrow> (nat \<Rightarrow> os_thread) \<Rightarrow> level \<Rightarrow> backpressure \<Rightarrow> call list \<Rightarrow> (nat \<Rightarrow> thread_slot) \<Rightarrow> globals
   \<Rightarrow> ((nat \<Rightarrow> thread_slot) \<times> globals) option"
where
  "run_calls ft e os ceiling policy [] ths g = Some (ths, g)"
| "run_calls ft e os ceiling policy (c # cs) ths g =
     (case log_call ft e [] (os (ca_thread c)) (ca_time c) ceiling policy (ca_level c) (ca_site c) (ca_args c)
             (ths (ca_thread c)) g of
        None \<Rightarrow> None
      | Some (called, slot', g') \<Rightarrow>
          run_calls ft e os ceiling policy cs (ths(ca_thread c := slot')) g')"

text \<open>The records a thread's calls below the ceiling stand for.\<close>

definition thread_records :: "level \<Rightarrow> call list \<Rightarrow> nat \<Rightarrow> bytes list" where
  "thread_records ceiling cs t = map call_record (filter (\<lambda>c. ca_thread c = t \<and> ca_level c \<le> ceiling) cs)"

text \<open>What a ring that is not drained meanwhile admits of a sequence of records: a record whose slots
  no longer fit is dropped, later ones that fit are still taken.\<close>

fun admitted :: "nat \<Rightarrow> nat \<Rightarrow> bytes list \<Rightarrow> bytes list" where
  "admitted cap used [] = []"
| "admitted cap used (x # xs) =
     (if used + slots (length x) < cap then x # admitted cap (used + slots (length x)) xs else admitted cap used xs)"

definition used_by :: "bytes list \<Rightarrow> nat" where
  "used_by rs = sum_list (map (slots \<circ> length) rs)"

lemma used_by_simps [simp]: "used_by [] = 0" "used_by (rs @ [x]) = used_by rs + slots (length x)"
  by (simp_all add: used_by_def)

lemma admitted_all: "used + used_by rs < cap \<Longrightarrow> admitted cap used rs = rs"
  by (induction rs arbitrary: used) (auto simp: used_by_def)

section \<open>The invariant\<close>

text \<open>Every thread that has logged owns one registered ring, which holds its accepted records.\<close>

definition owns :: "(nat \<Rightarrow> thread_slot) \<Rightarrow> nat \<Rightarrow> nat \<Rightarrow> bool" where
  "owns ths t a \<longleftrightarrow> (\<exists>tb. ts_buf (ths t) = Some tb \<and> tb_ring tb = a)"

definition owner :: "(nat \<Rightarrow> thread_slot) \<Rightarrow> nat \<Rightarrow> nat" where
  "owner ths a = (THE t. owns ths t a)"

definition process_inv ::
  "features \<Rightarrow> nat \<Rightarrow> nat \<Rightarrow> (nat \<Rightarrow> ring \<Rightarrow> bytes list \<Rightarrow> bool) \<Rightarrow> nat list \<Rightarrow> (nat \<Rightarrow> thread_slot) \<Rightarrow> globals
   \<Rightarrow> (nat \<Rightarrow> bytes list) \<Rightarrow> bool"
where
  "process_inv ft cap k Q regs ths g acc \<longleftrightarrow>
     g_registry g = Some regs \<and> distinct regs \<and> g_segments g = None \<and> g_capacity g = Some cap \<and>
     (\<forall>a\<in>set regs. a < h_next (g_heap g)) \<and> (\<forall>t. \<not> ts_active (ths t)) \<and>
     (\<forall>a. a \<in> set regs \<longleftrightarrow> (\<exists>t. owns ths t a)) \<and>
     (\<forall>t t' a. owns ths t a \<longrightarrow> owns ths t' a \<longrightarrow> t = t') \<and>
     (\<forall>t a. owns ths t a \<longrightarrow> ring_holds ft k (ring_at g a) (acc t) \<and> Q t (ring_at g a) (acc t)) \<and>
     (\<forall>t. ts_buf (ths t) = None \<longrightarrow> acc t = [])"

lemma owner_facts:
  assumes inv: "process_inv ft cap k Q regs ths g acc"
  shows "owns ths t a \<Longrightarrow> owner ths a = t" "a \<in> set regs \<Longrightarrow> owns ths (owner ths a) a"
    "distinct as \<Longrightarrow> set as \<subseteq> set regs \<Longrightarrow> distinct (map (owner ths) as)"
    "t \<notin> owner ths ` set regs \<Longrightarrow> acc t = []"
proof -
  have o: "owner ths a = t" if "owns ths t a" for t a
    unfolding owner_def using inv that by (intro the_equality) (auto simp: process_inv_def)
  then show "owns ths t a \<Longrightarrow> owner ths a = t" .
  have r: "owns ths (owner ths a) a" if "a \<in> set regs" for a
    using inv that o by (auto simp: process_inv_def)
  then show "a \<in> set regs \<Longrightarrow> owns ths (owner ths a) a" .
  have "inj_on (owner ths) (set regs)"
    using r by (intro inj_onI) (metis owns_def option.inject)
  then show "distinct as \<Longrightarrow> set as \<subseteq> set regs \<Longrightarrow> distinct (map (owner ths) as)"
    by (auto simp: distinct_map intro: inj_on_subset)
  show "acc t = []" if "t \<notin> owner ths ` set regs"
  proof (cases "ts_buf (ths t)")
    case (Some tb)
    then have "owns ths t (tb_ring tb)" by (simp add: owns_def)
    then have "tb_ring tb \<in> set regs" "owner ths (tb_ring tb) = t" using inv o by (auto simp: process_inv_def)
    then show ?thesis using that by auto
  qed (use inv in \<open>simp add: process_inv_def\<close>)
qed

text \<open>Whether the thread's ring takes a call's record, a fresh ring on the first call.\<close>

definition accepts :: "features \<Rightarrow> backpressure \<Rightarrow> (nat \<Rightarrow> thread_slot) \<Rightarrow> globals \<Rightarrow> call \<Rightarrow> bool" where
  "accepts ft policy ths g c =
     (case ts_buf (ths (ca_thread c)) of
        None \<Rightarrow> slots (length (call_record c)) < the (g_capacity g)
      | Some tb \<Rightarrow>
          (case reserve ft [] (ring_at g (tb_ring tb)) (length (call_record c)) policy of
             Some (r, Some v) \<Rightarrow> True
           | _ \<Rightarrow> False))"

definition accept_call :: "bool \<Rightarrow> call \<Rightarrow> (nat \<Rightarrow> bytes list) \<Rightarrow> nat \<Rightarrow> bytes list" where
  "accept_call ok c acc =
     (if ok then acc(ca_thread c := acc (ca_thread c) @ [call_record c]) else acc)"

text \<open>A put writes the data, the head and the producer's copy of the tail, nothing else.\<close>

lemma put_changes:
  assumes "ring_holds ft (Suc k) r rs" "wire_ok x" "ring_put ft policy x r = Some (r', ok)"
  shows "\<exists>d c h. r' = r\<lparr>rb_data := d, rb_tail_cache := c, rb_head := h\<rparr>"
proof -
  have v: "ring_view ft r" "drain_view ft r Asleep rs" "unat (producer_head ft r) + 131072 < 2 ^ 64"
    and wm: "\<not> watermark_head ft" using assms(1) by (auto simp: ring_holds_def)
  have n: "length x \<le> 65535" "0 < length x" using wire_ok_size [OF assms(2)] by auto
  obtain r1 v where res: "reserve ft [] r (length x) policy = Some (r1, v)" using assms(3)
    by (auto simp: ring_put_def split: option.splits)
  show ?thesis
  proof (cases v)
    case None
    then have "r1 = r\<lparr>rb_tail_cache := rb_tail r\<rparr>" using reserve_keeps [OF v n(1)] res by blast
    then have "r' = r\<lparr>rb_data := rb_data r, rb_tail_cache := rb_tail r, rb_head := rb_head r\<rparr>"
      using None res assms(3) by (cases r) (auto simp: ring_put_def)
    then show ?thesis by blast
  next
    case (Some s)
    obtain d c where "r1 = r\<lparr>rb_data := d, rb_tail_cache := c\<rparr>"
      using reserve_gives [OF v n] res Some by metis
    then have "r' = r\<lparr>rb_data := blit (res_ptr s) x d, rb_tail_cache := c, rb_head := res_head s\<rparr>"
      using res Some assms(3) wm by (cases r) (auto simp: ring_put_def publish_def store_record_def)
    then show ?thesis by blast
  qed
qed

lemma put_same:
  assumes "ring_holds ft (Suc k) r rs" "wire_ok x" "ring_put ft policy x r = Some (r', ok)"
  shows "same_ring r r'"
  using put_changes [OF assms] by (auto simp: same_ring_def)

text \<open>A ring no one has drained: its positions are the slots of what it holds.\<close>

definition undrained :: "features \<Rightarrow> nat \<Rightarrow> ring \<Rightarrow> nat \<Rightarrow> bool" where
  "undrained ft cap r u \<longleftrightarrow> rb_tail r = 0 \<and> rb_tail_cache r = 0 \<and> rb_capacity r = cap \<and>
     unat (producer_head ft r) = u \<and> u < cap"

lemma put_admits:
  assumes h: "ring_holds ft (Suc k) r rs" and x: "wire_ok x" and u: "undrained ft cap r u"
  shows "ring_put ft policy x r = Some (r', b) \<Longrightarrow> b \<longleftrightarrow> u + slots (length x) < cap"
    "ring_put ft policy x r = Some (r', b) \<Longrightarrow> undrained ft cap r' (if b then u + slots (length x) else u)"
    "ring_put ft policy x r = None \<Longrightarrow> \<not> u + slots (length x) < cap"
proof -
  have wf: "ring_wf r" and room: "unat (producer_head ft r) + 131072 < 2 ^ 64" and wm: "\<not> watermark_head ft"
    using h by (auto simp: ring_holds_def ring_view_def)
  have c: "cap < 2 ^ 64" using wf u by (simp add: ring_wf_def undrained_def)
  have n: "length x \<le> 65535" using wire_ok_size [OF x] by simp
  define E where "E = end_pos cap u (length x)"
  have e: "E < cap \<longleftrightarrow> u + slots (length x) < cap" "E < cap \<Longrightarrow> E = u + slots (length x)"
    using u by (auto simp: E_def end_pos_def start_pos_def wraps_def undrained_def)
  have res: "reserve ft [] r (length x) policy = (if E < cap
      then Some (r\<lparr>rb_data := if wraps cap u (length x)
        then write_eob (u mod cap) (word_of_nat (cap - u mod cap)) (rb_data r) else rb_data r\<rparr>,
        Some \<lparr>res_ptr = start_pos cap u (length x) mod cap, res_head = word_of_nat E\<rparr>)
      else if policy = Block \<and> rb_live r then None else Some (r, None))"
    using reserve_spec [OF wf n refl room, of policy] u by (simp add: undrained_def E_def)
  have E: "E < cap \<Longrightarrow> unat (word_of_nat E :: u64) = E" using c by (simp add: unat_of_nat take_bit_nat_eq_self)
  show "ring_put ft policy x r = Some (r', b) \<Longrightarrow> b \<longleftrightarrow> u + slots (length x) < cap"
    using res e by (auto simp: ring_put_def split: if_splits)
  show "ring_put ft policy x r = Some (r', b) \<Longrightarrow> undrained ft cap r' (if b then u + slots (length x) else u)"
    using res E e u wm c
    by (auto simp: ring_put_def undrained_def publish_def store_record_def producer_head_def split: if_splits)
  show "ring_put ft policy x r = None \<Longrightarrow> \<not> u + slots (length x) < cap"
    using res e by (auto simp: ring_put_def split: if_splits)
qed

lemma ring_holds_info [simp]:
  "ring_holds ft k (set_serial s (set_thread_info i nm r)) rs \<longleftrightarrow> ring_holds ft k r rs"
  "undrained ft cap (set_serial s (set_thread_info i nm r)) u \<longleftrightarrow> undrained ft cap r u"
  by (simp_all add: undrained_def ring_holds_def set_serial_def set_thread_info_def ring_view_def drain_view_def producer_head_def
      ring_wf_def Let_def)

lemma ring_holds_less: "ring_holds ft (Suc k) r rs \<Longrightarrow> ring_holds ft k r rs"
  by (simp add: ring_holds_def)

lemma log_call_first:
  assumes "ts_buf slot = None" "\<not> ts_active slot" "l \<le> ceiling" "init_thread_buf os g = Some (tb, g')"
  shows "log_call ft e obs os ts ceiling policy l site args slot g =
    log_call ft e obs os ts ceiling policy l site args (slot\<lparr>ts_buf := Some tb\<rparr>) g'"
  using assms by (simp add: log_call_def dispatch_def with_thread_buf_def)

lemma ring_accepts:
  assumes "ring_holds ft (Suc k) r rs" "undrained ft cap r u" "call_ok c"
  shows "(case reserve ft [] r (length (call_record c)) policy of Some (r, Some v) \<Rightarrow> True | _ \<Rightarrow> False) \<longleftrightarrow>
    u + slots (length (call_record c)) < cap"
proof -
  have x: "wire_ok (call_record c)" using wire_record_ok(1) assms(3) by (simp add: call_ok_def call_record_def)
  show ?thesis
  proof (cases "ring_put ft policy (call_record c) r")
    case None
    then show ?thesis using put_admits(3) [OF assms(1) x assms(2)] by (auto simp: ring_put_def split: option.splits)
  next
    case (Some p)
    then show ?thesis using put_admits(1) [OF assms(1) x assms(2), of policy "fst p" "snd p"]
      by (auto simp: ring_put_def split: option.splits)
  qed
qed

text \<open>A ring that still belongs to its thread.\<close>

definition plain :: "ring \<Rightarrow> bool" where
  "plain r \<longleftrightarrow> \<not> rb_helper_reserved r \<and> \<not> rb_handed_off r"

lemma same_plain: "same_ring r r' \<Longrightarrow> plain r' = plain r"
  by (simp add: same_ring_def plain_def)

lemma plain_info [simp]: "plain (set_serial s (set_thread_info i nm r)) = plain r"
  by (simp add: plain_def set_serial_def set_thread_info_def)

lemma fresh_plain:
  assumes "SLOT_SIZE \<le> cap"
  shows "undrained ft cap (from_storage (replicate cap 0) cap False) 0" "plain (from_storage (replicate cap 0) cap False)"
  using assms by (simp_all add: from_storage_def undrained_def plain_def producer_head_def SLOT_SIZE_def CACHE_LINE_SIZE_def)

lemma fresh_ring:
  fixes cap :: nat
  assumes cap: "is_power_of_two cap" "SLOT_SIZE \<le> cap" "cap < 2 ^ 64" and ft: "\<not> watermark_head ft" "k < 2 ^ 46"
  defines "r \<equiv> from_storage (replicate cap 0) cap False"
  shows "with_capacity cap = Some r" "ring_holds ft k r []"
proof -
  show w: "with_capacity cap = Some r" using cap by (simp add: with_capacity_def r_def)
  show "ring_holds ft k r []" using ring_holds_fresh [OF w cap(3) ft] .
qed

section \<open>Calls keep the invariant\<close>

text \<open>What a further condition on a thread's ring and the records in it has to satisfy to be kept by
  the calls; \<open>ok\<close> restricts the records a thread logs.\<close>

locale ring_condition =
  fixes ft :: features and cap :: nat and os :: "nat \<Rightarrow> os_thread" and ok :: "nat \<Rightarrow> bytes \<Rightarrow> bool"
    and Q :: "nat \<Rightarrow> ring \<Rightarrow> bytes list \<Rightarrow> bool"
  assumes fresh: "SLOT_SIZE \<le> cap \<Longrightarrow>
      Q t (set_serial s (set_thread_info (get_stable_thread_id (os t)) (thread_display_name (os t))
        (from_storage (replicate cap 0) cap False))) []"
    and put: "ring_holds ft (Suc k) r rs \<Longrightarrow> wire_ok x \<Longrightarrow> ok t x \<Longrightarrow> Q t r rs \<Longrightarrow>
      ring_put ft policy x r = Some (r', b) \<Longrightarrow> Q t r' (if b then rs @ [x] else rs)"
begin

lemma init_keeps_inv:
  assumes inv: "process_inv ft cap k Q regs ths g acc" and none: "ts_buf (ths t) = None"
    and cap: "is_power_of_two cap" "SLOT_SIZE \<le> cap" "cap < 2 ^ 64" and ft: "\<not> watermark_head ft" and k: "k < 2 ^ 46"
  shows "\<exists>tb g'. init_thread_buf (os t) g = Some (tb, g') \<and>
    process_inv ft cap k Q (regs @ [tb_ring tb]) (ths(t := (ths t)\<lparr>ts_buf := Some tb\<rparr>)) g' acc \<and>
    undrained ft cap (ring_at g' (tb_ring tb)) 0 \<and> (\<forall>a\<in>set regs. ring_at g' a = ring_at g a)"
proof -
  define a where "a = h_next (g_heap g)"
  define r where "r = from_storage (replicate cap 0) cap False"
  define nm where "nm = thread_display_name (os t)"
  define i where "i = get_stable_thread_id (os t)"
  note fr = fresh_ring [OF cap ft k, folded r_def]
  have na: "a \<notin> set regs" "g_registry g = Some regs" "g_segments g = None" "g_capacity g = Some cap"
    using inv by (auto simp: process_inv_def a_def)
  define tb where "tb = \<lparr>tb_ring = a, tb_helper = None, tb_thread_id = i, tb_thread_name = nm\<rparr>"
  define g' where "g' = (update_ring a (set_serial (g_serial g)) (update_ring a (set_thread_info i nm)
    (g\<lparr>g_heap := snd (new_ring r (g_heap g))\<rparr>)))\<lparr>g_serial := g_serial g + 1, g_registry := Some (regs @ [a])\<rparr>"
  have init: "init_thread_buf (os t) g = Some (tb, g')"
    using fr(1) na by (simp add: init_thread_buf_def register_ring_def tb_def g'_def i_def nm_def a_def new_ring_def Let_def)
  have cells: "ring_at g' b = (if b = a then set_serial (g_serial g) (set_thread_info i nm r) else ring_at g b)" for b
    by (simp add: g'_def a_def)
  have own: "owns (ths(t := (ths t)\<lparr>ts_buf := Some tb\<rparr>)) t' b \<longleftrightarrow> (if t' = t then b = a else owns ths t' b)" for t' b
    by (auto simp: owns_def tb_def)
  have old: "owns ths t' b \<Longrightarrow> b \<noteq> a" for t' b using inv na(1) by (auto simp: process_inv_def)
  have no: "\<not> owns ths t b" for b using none by (simp add: owns_def)
  have q: "Q t (set_serial (g_serial g) (set_thread_info i nm r)) []" using fresh [OF cap(2)] by (simp add: r_def i_def nm_def)
  have "process_inv ft cap k Q (regs @ [a]) (ths(t := (ths t)\<lparr>ts_buf := Some tb\<rparr>)) g' acc"
    unfolding process_inv_def own cells
    using inv na fr q none no old
    by (auto simp: process_inv_def g'_def a_def less_Suc_eq split: if_splits) metis+
  then show ?thesis using init cells na(1) fresh_plain(1) [OF cap(2), of ft, folded r_def] by (intro exI [of _ tb] exI [of _ g']) (auto simp: tb_def)
qed

lemma call_initialised:
  fixes e :: env and o' :: os_thread
  assumes inv: "process_inv ft cap (Suc k) Q regs ths g acc" and t: "ts_buf (ths (ca_thread c)) = Some tb"
    and c: "call_ok c" "ca_level c \<le> ceiling" "ok (ca_thread c) (call_record c)" and pol: "policy \<in> {Drop, Block}"
  defines "call \<equiv> log_call ft e [] o' (ca_time c) ceiling policy (ca_level c) (ca_site c) (ca_args c) (ths (ca_thread c)) g"
  shows "call = None \<Longrightarrow> policy = Block \<and> \<not> accepts ft policy ths g c"
    "call = Some (b, slot', g') \<Longrightarrow>
      process_inv ft cap k Q regs (ths(ca_thread c := slot')) g' (accept_call (accepts ft policy ths g c) c acc) \<and>
      (\<forall>a. same_ring (ring_at g a) (ring_at g' a)) \<and> (policy = Block \<longrightarrow> accepts ft policy ths g c)"
proof -
  let ?t = "ca_thread c" let ?a = "tb_ring tb" let ?x = "call_record c"
  have own: "owns ths ?t ?a" using t by (simp add: owns_def)
  have h: "ring_holds ft (Suc k) (ring_at g ?a) (acc ?t)" "Q ?t (ring_at g ?a) (acc ?t)" "\<not> ts_active (ths ?t)"
    using inv own by (auto simp: process_inv_def)
  have x: "wire_ok ?x" using wire_record_ok(1) c(1) by (simp add: call_ok_def call_record_def)
  have lc: "call = map_option (\<lambda>(r, b). (True, ths ?t, update_ring ?a (\<lambda>_. r) g)) (ring_put ft policy ?x (ring_at g ?a))"
    using log_call_put [OF t h(3) pol c(2) h(1), of "ca_args c" e o' "ca_time c" "ca_site c"] c(1)
    by (simp add: call_ok_def call_record_def call_def)
  show "call = None \<Longrightarrow> policy = Block \<and> \<not> accepts ft policy ths g c"
    using ring_put_outcome(1) [OF h(1) x, of policy] lc t by (auto simp: accepts_def ring_put_def split: option.splits)
  assume "call = Some (b, slot', g')"
  then obtain r ac where p: "ring_put ft policy ?x (ring_at g ?a) = Some (r, ac)"
    and g': "g' = update_ring ?a (\<lambda>_. r) g" and slot: "slot' = ths ?t" using lc by auto
  have ac: "ac = accepts ft policy ths g c" using p t by (auto simp: accepts_def ring_put_def split: option.splits)
  define acc' where "acc' = accept_call ac c acc"
  have r: "ring_holds ft k r (acc' ?t)" "Q ?t r (acc' ?t)"
    using ring_put_accepts [OF h(1) x] ring_put_refuses [OF h(1) x] put [OF h(1) x c(3) h(2) p] p
    by (auto simp: acc'_def accept_call_def intro: ring_holds_less)
  have one: "owns ths t' ?a \<Longrightarrow> t' = ?t" for t' using inv own by (auto simp: process_inv_def)
  have "ring_holds ft k (ring_at g' a') (acc' t') \<and> Q t' (ring_at g' a') (acc' t')" if "owns ths t' a'" for t' a'
  proof (cases "t' = ?t")
    case True
    then have "a' = ?a" using that t by (auto simp: owns_def)
    then show ?thesis using r True by (simp add: g')
  next
    case False
    then have "a' \<noteq> ?a" using one that by blast
    moreover have "ring_holds ft (Suc k) (ring_at g a') (acc t') \<and> Q t' (ring_at g a') (acc t')"
      using inv that by (auto simp: process_inv_def)
    ultimately show ?thesis using False ring_holds_less by (simp add: g' acc'_def accept_call_def)
  qed
  then have "process_inv ft cap k Q regs ths g' acc'"
    using inv t by (auto simp: process_inv_def g' acc'_def accept_call_def)
  moreover have "same_ring (ring_at g a) (ring_at g' a)" for a
    using put_same [OF h(1) x p] by (simp add: g')
  moreover have "policy = Block \<Longrightarrow> ac" using ring_put_outcome(2) [OF h(1) x, of policy r] p by auto
  ultimately show "process_inv ft cap k Q regs (ths(ca_thread c := slot')) g' (accept_call (accepts ft policy ths g c) c acc) \<and>
      (\<forall>a. same_ring (ring_at g a) (ring_at g' a)) \<and> (policy = Block \<longrightarrow> accepts ft policy ths g c)"
    by (simp add: slot acc'_def ac)
qed

text \<open>A thread's call, its first one or a later one: only Block can fail to return, and only Drop
  can refuse the record.\<close>

lemma call_keeps_inv:
  fixes e :: env and ceiling :: level
  assumes inv: "process_inv ft cap (Suc k) Q regs ths g acc" and c: "call_ok c" "ok (ca_thread c) (call_record c)"
    and pol: "policy \<in> {Drop, Block}"
    and cap: "is_power_of_two cap" "SLOT_SIZE \<le> cap" "cap < 2 ^ 64" and ft: "\<not> watermark_head ft" and k: "k < 2 ^ 45"
  defines "call \<equiv> log_call ft e [] (os (ca_thread c)) (ca_time c) ceiling policy (ca_level c) (ca_site c) (ca_args c) (ths (ca_thread c)) g"
  defines "took \<equiv> ca_level c \<le> ceiling \<and> accepts ft policy ths g c"
  shows "call = None \<Longrightarrow> policy = Block \<and> \<not> took"
    "call = Some (b, slot', g') \<Longrightarrow>
      \<exists>regs'. process_inv ft cap k Q regs' (ths(ca_thread c := slot')) g' (accept_call took c acc) \<and> set regs \<subseteq> set regs' \<and>
        (\<forall>a\<in>set regs. same_ring (ring_at g a) (ring_at g' a)) \<and> (policy = Block \<longrightarrow> ca_level c \<le> ceiling \<longrightarrow> took)"
proof -
  have goal: "(call = None \<longrightarrow> policy = Block \<and> \<not> took) \<and> (call = Some (b, slot', g') \<longrightarrow>
      (\<exists>regs'. process_inv ft cap k Q regs' (ths(ca_thread c := slot')) g' (accept_call took c acc) \<and> set regs \<subseteq> set regs' \<and>
        (\<forall>a\<in>set regs. same_ring (ring_at g a) (ring_at g' a)) \<and> (policy = Block \<longrightarrow> ca_level c \<le> ceiling \<longrightarrow> took)))"
  proof (cases "ca_level c \<le> ceiling")
    case False
    have "process_inv ft cap k Q regs (ths(ca_thread c := ths (ca_thread c))) g acc"
      using inv ring_holds_less by (auto simp: process_inv_def)
    then show ?thesis using False by (auto simp: call_def log_call_def accept_call_def took_def)
  next
    case True
    show ?thesis
    proof (cases "ts_buf (ths (ca_thread c))")
      case None
      have k': "Suc k < 2 ^ 46" using k by simp
      obtain tb g1 where init: "init_thread_buf (os (ca_thread c)) g = Some (tb, g1)"
        and inv1: "process_inv ft cap (Suc k) Q (regs @ [tb_ring tb]) (ths(ca_thread c := (ths (ca_thread c))\<lparr>ts_buf := Some tb\<rparr>)) g1 acc"
        and ud: "undrained ft cap (ring_at g1 (tb_ring tb)) 0" and keep: "\<forall>a\<in>set regs. ring_at g1 a = ring_at g a"
        using init_keeps_inv [OF inv None cap ft k'] by blast
      have "\<not> ts_active (ths (ca_thread c))" using inv by (auto simp: process_inv_def)
      note first = log_call_first [OF None this True init]
      let ?th = "ths(ca_thread c := (ths (ca_thread c))\<lparr>ts_buf := Some tb\<rparr>)"
      have th: "ts_buf (?th (ca_thread c)) = Some tb" "?th (ca_thread c) = (ths (ca_thread c))\<lparr>ts_buf := Some tb\<rparr>"
        "?th(ca_thread c := x) = ths(ca_thread c := x)" for x by simp_all
      have "owns ?th (ca_thread c) (tb_ring tb)" by (simp add: owns_def)
      then have h: "ring_holds ft (Suc k) (ring_at g1 (tb_ring tb)) (acc (ca_thread c))" using inv1 by (auto simp: process_inv_def)
      have ac: "accepts ft policy ?th g1 c = took"
        using ring_accepts [OF h ud c(1), of policy] None inv True by (simp add: accepts_def process_inv_def took_def)
      note r = call_initialised [OF inv1 th(1) c(1) True c(2) pol, of e "os (ca_thread c)", unfolded ac th(2,3) first [symmetric], folded call_def]
      have "\<forall>a. same_ring (ring_at g1 a) (ring_at g' a) \<Longrightarrow> \<forall>a\<in>set regs. same_ring (ring_at g a) (ring_at g' a)"
        using keep by metis
      then show ?thesis using r by (auto intro!: exI [of _ "regs @ [tb_ring tb]"])
    next
      case (Some tb)
      have "accepts ft policy ths g c = took" using True by (simp add: took_def)
      then show ?thesis
        using call_initialised [OF inv Some c(1) True c(2) pol, of e "os (ca_thread c)", folded call_def]
        by (auto intro!: exI [of _ regs])
    qed
  qed
  show "call = None \<Longrightarrow> policy = Block \<and> \<not> took" using goal by blast
  show "call = Some (b, slot', g') \<Longrightarrow>
      \<exists>regs'. process_inv ft cap k Q regs' (ths(ca_thread c := slot')) g' (accept_call took c acc) \<and> set regs \<subseteq> set regs' \<and>
        (\<forall>a\<in>set regs. same_ring (ring_at g a) (ring_at g' a)) \<and> (policy = Block \<longrightarrow> ca_level c \<le> ceiling \<longrightarrow> took)"
    using goal by blast
qed

end

section \<open>Rings shared with the drain\<close>

text \<open>A ring of thread \<open>t\<close>: not handed off, under the thread's identity, its records all admissible.\<close>

definition owned_ring :: "nat \<Rightarrow> (nat \<Rightarrow> os_thread) \<Rightarrow> (nat \<Rightarrow> bytes \<Rightarrow> bool) \<Rightarrow> nat \<Rightarrow> ring \<Rightarrow> bytes list \<Rightarrow> bool" where
  "owned_ring cap os ok t r rs \<longleftrightarrow> plain r \<and> rb_thread_id r = get_stable_thread_id (os t) \<and>
     rb_thread_name r = thread_display_name (os t) \<and> rb_capacity r = cap \<and> list_all (ok t) rs"

lemma owned_same: "same_ring r r' \<Longrightarrow> owned_ring cap os ok t r rs \<Longrightarrow> list_all (ok t) rs' \<Longrightarrow> owned_ring cap os ok t r' rs'"
  by (auto simp: owned_ring_def same_plain) (simp_all add: same_ring_def)

interpretation shared: ring_condition ft cap os ok "owned_ring cap os ok" for ft cap os ok
proof
  show "owned_ring cap os ok t (set_serial s (set_thread_info (get_stable_thread_id (os t)) (thread_display_name (os t))
      (from_storage (replicate cap 0) cap False))) []" if "SLOT_SIZE \<le> cap" for t s
    using fresh_plain(2) [OF that] by (simp add: owned_ring_def set_serial_def set_thread_info_def plain_def from_storage_def)
  fix k r rs x t r' b policy
  assume h: "ring_holds ft (Suc k) r rs" "wire_ok x" "ok t x" "owned_ring cap os ok t r rs" "ring_put ft policy x r = Some (r', b)"
  then show "owned_ring cap os ok t r' (if b then rs @ [x] else rs)"
    using owned_same [OF put_same [OF h(1,2,5)] h(4)] by (auto simp: owned_ring_def)
qed

section \<open>Calls without a drain\<close>

definition solo_ring :: "features \<Rightarrow> nat \<Rightarrow> (nat \<Rightarrow> os_thread) \<Rightarrow> nat \<Rightarrow> ring \<Rightarrow> bytes list \<Rightarrow> bool" where
  "solo_ring ft cap os t r rs \<longleftrightarrow> undrained ft cap r (used_by rs) \<and> owned_ring cap os (\<lambda>t x. True) t r rs"

interpretation solo: ring_condition ft cap os "\<lambda>t x. True" "solo_ring ft cap os" for ft cap os
proof
  show "solo_ring ft cap os t (set_serial s (set_thread_info (get_stable_thread_id (os t)) (thread_display_name (os t))
      (from_storage (replicate cap 0) cap False))) []" if "SLOT_SIZE \<le> cap" for t s
    using fresh_plain(1) [OF that] shared.fresh [OF that] by (simp add: solo_ring_def)
  fix k r rs x t r' b policy
  assume h: "ring_holds ft (Suc k) r rs" and x: "wire_ok x" and q: "solo_ring ft cap os t r rs"
    and p: "ring_put ft policy x r = Some (r', b)"
  show "solo_ring ft cap os t r' (if b then rs @ [x] else rs)"
    using put_admits(2) [OF h x _ p] shared.put [OF h x TrueI _ p] q by (cases b) (auto simp: solo_ring_def)
qed

lemma run_calls_inv:
  assumes "process_inv ft cap (length cs) (solo_ring ft cap os) regs ths g acc" "list_all call_ok cs"
    and cap: "is_power_of_two cap" "SLOT_SIZE \<le> cap" "cap < 2 ^ 64" and ft: "\<not> watermark_head ft" "length cs < 2 ^ 45"
  shows "\<exists>ths' g' regs'. run_calls ft e os ceiling Drop cs ths g = Some (ths', g') \<and>
    process_inv ft cap 0 (solo_ring ft cap os) regs' ths' g' (\<lambda>t. acc t @ admitted cap (used_by (acc t)) (thread_records ceiling cs t))"
  using assms(1,2,7)
proof (induction cs arbitrary: regs ths g acc)
  case Nil
  then show ?case by (simp add: thread_records_def) blast
next
  case (Cons c cs)
  have inv: "process_inv ft cap (Suc (length cs)) (solo_ring ft cap os) regs ths g acc" and c: "call_ok c" "list_all call_ok cs"
    and lt: "length cs < 2 ^ 45" using Cons.prems by simp_all
  have fits: "accepts ft Drop ths g c \<longleftrightarrow> used_by (acc (ca_thread c)) + slots (length (call_record c)) < cap"
  proof (cases "ts_buf (ths (ca_thread c))")
    case None
    then show ?thesis using inv by (simp add: accepts_def process_inv_def)
  next
    case (Some tb)
    then have "owns ths (ca_thread c) (tb_ring tb)" by (simp add: owns_def)
    then have h: "ring_holds ft (Suc (length cs)) (ring_at g (tb_ring tb)) (acc (ca_thread c))"
      "undrained ft cap (ring_at g (tb_ring tb)) (used_by (acc (ca_thread c)))"
      using inv by (auto simp: process_inv_def solo_ring_def)
    then show ?thesis using ring_accepts [OF h c(1)] Some by (simp add: accepts_def)
  qed
  define acc1 where "acc1 = accept_call (ca_level c \<le> ceiling \<and> accepts ft Drop ths g c) c acc"
  note call = solo.call_keeps_inv [OF inv c(1) TrueI _ cap ft(1) lt, where policy = Drop and e = e and ceiling = ceiling, folded acc1_def]
  obtain b slot1 g1 where 1: "log_call ft e [] (os (ca_thread c)) (ca_time c) ceiling Drop (ca_level c) (ca_site c) (ca_args c)
      (ths (ca_thread c)) g = Some (b, slot1, g1)" using call(1) by fastforce
  obtain regs1 where 2: "process_inv ft cap (length cs) (solo_ring ft cap os) regs1 (ths(ca_thread c := slot1)) g1 acc1"
    using call(2) [OF _ 1] by auto
  have eq: "(\<lambda>t. acc1 t @ admitted cap (used_by (acc1 t)) (thread_records ceiling cs t)) =
      (\<lambda>t. acc t @ admitted cap (used_by (acc t)) (thread_records ceiling (c # cs) t))"
    using fits by (auto simp: fun_eq_iff acc1_def accept_call_def thread_records_def)
  show ?case unfolding run_calls.simps 1 option.case prod.case eq [symmetric]
    by (rule Cons.IH [OF 2 c(2) lt])
qed

section \<open>From configuration to shutdown\<close>

definition idle_thread :: thread_slot where
  "idle_thread = \<lparr>ts_active = False, ts_buf = None\<rparr>"

lemma configure_classic:
  assumes "configure_rt fifo bt s tz cap fmt policy g = Some (Inr d, g1)" "policy \<in> {Drop, Block}"
  shows "is_power_of_two cap" "SLOT_SIZE \<le> cap" "g_registry g1 = Some []" "g_segments g1 = g_segments g"
    "g_capacity g1 = set_once cap (g_capacity g)" "dr_sink d = s" "dr_rings d = []" "\<not> dr_segmented d"
  using assms
  by (auto simp: configure_rt_def drain_new_def Let_def split: if_splits sum.splits option.splits)

lemma process_start:
  assumes "g_registry g = Some []" "g_segments g = None" "g_capacity g = Some cap"
  shows "process_inv ft cap k Q [] (\<lambda>_. idle_thread) g (\<lambda>_. [])"
  using assms by (simp add: process_inv_def owns_def idle_thread_def)

section \<open>Sinks that name the thread\<close>

text \<open>What a record becomes depends on the ring only through the identity recorded there, and a
  flush loses nothing.\<close>

locale identity_sink = lossless_sink io e tz calib pat good seen valid shown shown_payload settled
  for io :: "'w io_ops" and e tz calib pat and good :: "sink \<times> 'w \<Rightarrow> bool" and seen :: "sink \<times> 'w \<Rightarrow> 'o list"
    and valid shown shown_payload settled +
  fixes fits :: "u64 \<Rightarrow> bytes \<Rightarrow> bytes \<Rightarrow> bool" and line :: "u64 \<Rightarrow> bytes \<Rightarrow> bytes \<Rightarrow> 'o list"
  assumes valid_fits: "valid r x = fits (rb_thread_id r) (rb_thread_name r) x"
    and shown_line: "shown r x = line (rb_thread_id r) (rb_thread_name r) x"
    and flush_seen: "good (s, w) \<Longrightarrow> sink_flush io s w = (s', w', r') \<Longrightarrow> seen (s', w') = seen (s, w)"
begin

definition admissible :: "(nat \<Rightarrow> os_thread) \<Rightarrow> nat \<Rightarrow> bytes \<Rightarrow> bool" where
  "admissible os t x = fits (get_stable_thread_id (os t)) (thread_display_name (os t)) x"

definition told :: "(nat \<Rightarrow> os_thread) \<Rightarrow> nat \<Rightarrow> bytes \<Rightarrow> 'o list" where
  "told os t x = line (get_stable_thread_id (os t)) (thread_display_name (os t)) x"

lemma owned_out:
  assumes "owned_ring cap os (admissible os) t (ring_at g a) (recs a)"
  shows "list_all (valid (ring_at g a)) (recs a)" "out g recs a = concat (map (told os t) (recs a))"
  using assms by (auto simp: owned_ring_def valid_fits shown_line admissible_def told_def out_def list_all_iff cong: map_cong)

text \<open>After the guard is dropped every ring is dead, so the final pass empties the rings in
  registration order, and the helpers' payloads follow.\<close>

lemma dead_pass:
  assumes reg: "g_registry g = Some regs" "distinct regs"
    and rings: "\<forall>a\<in>set regs. ring_holds ft k (ring_at g a) (recs a) \<and> \<not> rb_helper_reserved (ring_at g a) \<and>
      list_all (valid (ring_at g a)) (recs a)"
    and d: "inputs d" "good (dr_sink d, w)" "distinct (map fst (dr_rings d))" "fst ` set (dr_rings d) \<subseteq> set regs"
      "dr_segmented d \<longleftrightarrow> g_segments g \<noteq> None"
  shows "\<exists>d' g' w'. final_pass ft io e d (guard_drop g) w = Some (d', g', w') \<and> good (dr_sink d', w') \<and>
    settled (dr_sink d', w') = seen (dr_sink d, w) @ concat (map (out g recs) regs) @ concat (map shown_payload (helper_lines g))"
proof -
  let ?g = "guard_drop g"
  have dead: "ring_at ?g a = set_dead (ring_at g a)" if "a \<in> set regs" for a using guard_drop_simps(1) [OF reg(1)] that by simp
  have v: "valid (set_dead r) = valid r" "shown (set_dead r) = shown r" for r
    by (simp_all add: fun_eq_iff valid_fits shown_line set_dead_def)
  have each: "\<not> rb_helper_reserved (ring_at ?g a) \<and> waiting ft ?g recs a" "\<not> keep_ring ?g a" "out ?g recs a = out g recs a"
    if a: "a \<in> set regs" for a
  proof -
    have h: "ring_holds ft k (ring_at g a) (recs a)" "\<not> rb_helper_reserved (ring_at g a)" "list_all (valid (ring_at g a)) (recs a)"
      using rings a by auto
    have "\<not> watermark_head ft" using h(1) by (simp add: ring_holds_def)
    then have "ring_ready ft (ring_at ?g a) (recs a)" using holds_ready [OF h(1)] by (simp add: dead [OF a] dead_ready)
    then show "\<not> rb_helper_reserved (ring_at ?g a) \<and> waiting ft ?g recs a" "\<not> keep_ring ?g a" "out ?g recs a = out g recs a"
      using h by (simp_all add: waiting_def out_def keep_ring_def dead [OF a] v) (simp_all add: set_dead_def)
  qed
  have "set (synced ?g regs (dr_rings d)) = {}" using synced_set(2) [OF d(3), of ?g regs] each(2) by auto
  moreover have "filter (\<lambda>a. \<not> keep_ring ?g a \<and> a \<notin> set regs) (map fst (dr_rings d)) = []"
    using d(4) by (auto simp: filter_empty_conv)
  ultimately have o: "finalize_list ?g regs (dr_rings d) @ visit_order (retires ?g) (map fst (synced ?g regs (dr_rings d))) = regs"
    using each(2) by (simp add: finalize_list_def)
  have "\<forall>a\<in>set regs \<union> fst ` set (dr_rings d). \<not> rb_helper_reserved (ring_at ?g a) \<and> waiting ft ?g recs a"
    using each(1) d(4) by auto
  moreover have "g_registry ?g = Some regs" "dr_segmented d \<longleftrightarrow> g_segments ?g \<noteq> None" "helper_lines ?g = helper_lines g"
    using reg d(5) by (simp_all add: guard_drop_simps helper_lines_def)
  moreover have "map (out ?g recs) regs = map (out g recs) regs" using each(3) by simp
  ultimately show ?thesis using final_pass_takes [OF d(1,2) _ reg(2) d(3), of ?g ft recs, unfolded o] by (auto cong: map_cong)
qed

text \<open>With one ring per thread, that is the order in which the threads first logged.\<close>

lemma shutdown_run:
  assumes inv: "process_inv ft cap k Q regs ths g acc" and Q: "\<And>t r rs. Q t r rs \<Longrightarrow> owned_ring cap os (admissible os) t r rs"
    and d: "inputs d" "good (dr_sink d, w)" "distinct (map fst (dr_rings d))" "\<not> dr_segmented d" "fst ` set (dr_rings d) \<subseteq> set regs"
  shows "\<exists>d' g' w' order. final_pass ft io e d (guard_drop g) w = Some (d', g', w') \<and> good (dr_sink d', w') \<and>
    distinct order \<and> (\<forall>t. t \<notin> set order \<longrightarrow> acc t = []) \<and>
    settled (dr_sink d', w') = seen (dr_sink d, w) @ concat (map (\<lambda>t. concat (map (told os t) (acc t))) order)"
proof -
  define recs where "recs a = acc (owner ths a)" for a
  have reg: "g_registry g = Some regs" "distinct regs" "g_segments g = None" using inv by (auto simp: process_inv_def)
  have own: "ring_holds ft k (ring_at g a) (recs a)" "owned_ring cap os (admissible os) (owner ths a) (ring_at g a) (recs a)"
    if "a \<in> set regs" for a using inv owner_facts(2) [OF inv that] Q by (auto simp: process_inv_def recs_def)
  note o = owned_out [of cap os _ g _ recs, OF own(2)]
  have r: "\<forall>a\<in>set regs. ring_holds ft k (ring_at g a) (recs a) \<and> \<not> rb_helper_reserved (ring_at g a) \<and>
      list_all (valid (ring_at g a)) (recs a)" using own o(1) by (auto simp: owned_ring_def plain_def)
  have nl: "helper_lines g = []" and sg: "dr_segmented d \<longleftrightarrow> g_segments g \<noteq> None" using reg(3) d(4) by (simp_all add: helper_lines_def)
  from dead_pass [OF reg(1,2) r d(1-3,5) sg] nl obtain d' g' w' where
    f: "final_pass ft io e d (guard_drop g) w = Some (d', g', w')" "good (dr_sink d', w')"
      "settled (dr_sink d', w') = seen (dr_sink d, w) @ concat (map (out g recs) regs)" by auto
  have "map (out g recs) regs = map (\<lambda>t. concat (map (told os t) (acc t))) (map (owner ths) regs)"
    using o(2) by (simp add: comp_def recs_def)
  moreover have "distinct (map (owner ths) regs)" "\<forall>t. t \<notin> set (map (owner ths) regs) \<longrightarrow> acc t = []"
    using owner_facts(3,4) [OF inv] reg(2) by simp_all
  ultimately show ?thesis
    using f by (intro exI [of _ d'] exI [of _ g'] exI [of _ w'] exI [of _ "map (owner ths) regs"]) (simp only: set_map simp_thms)
qed

end

text \<open>The in-memory sink keeps the record itself; a line sink writes the rendered line.\<close>

definition capture_line :: "u64 \<Rightarrow> bytes \<Rightarrow> bytes \<Rightarrow> captured_record list" where
  "capture_line i nm x = [captured (x, record_level x)]"

interpretation mem_id: identity_sink io e tz calib pat mem_good mem_seen "\<lambda>r x. True"
  "\<lambda>r x. [captured (x, record_level x)]" "\<lambda>p. [captured p]" mem_seen "\<lambda>i nm x. True" capture_line
  for io :: "'w io_ops" and e tz calib pat
proof
  show "mem_good (s, w) \<Longrightarrow> sink_flush io s w = (s', w', r') \<Longrightarrow> mem_seen (s', w') = mem_seen (s, w)" for s s' w w' r'
    using mem.flushes [of s w io s' w' r'] by blast
qed (simp_all add: capture_line_def)

sublocale steady_io < lines_id: identity_sink io e tz calib pat "\<lambda>(s, w). writes_to t s"
  "\<lambda>(s, w). content t w @ pending s"
  "\<lambda>r x. decode_and_format e x tz calib pat (rb_thread_id r) (rb_thread_name r) [] \<noteq> None"
  "\<lambda>r x. the (decode_and_format e x tz calib pat (rb_thread_id r) (rb_thread_name r) []) @ [NL]"
  "\<lambda>(line, l). line @ [NL]" "\<lambda>(s, w). content t w"
  "\<lambda>i nm x. decode_and_format e x tz calib pat i nm [] \<noteq> None"
  "\<lambda>i nm x. the (decode_and_format e x tz calib pat i nm []) @ [NL]"
  for e tz calib pat t
proof
  fix s s' w w' r'
  assume g: "case (s, w) of (s, w) \<Rightarrow> writes_to t s" and f: "sink_flush io s w = (s', w', r')"
  have n: "r' = None" using g f flush_settles by simp
  have "pending s' = []" using g f unfolding n by (cases s) (auto simp: file_flush_def split: prod.splits option.splits dest!: buf_flush_appends)
  then show "(case (s', w') of (s, w) \<Rightarrow> content t w @ pending s) = (case (s, w) of (s, w) \<Rightarrow> content t w @ pending s)"
    using flush_appends [of t s w s' w'] g f n by simp
qed simp_all

end
