(* ===== verification/Running.thy ===== *)
theory Running
  imports Process "HOL-Library.Sublist"
begin

text \<open>
  The process while it runs: logging calls and turns of the drain loop in any order, each a whole
  step. A turn empties the rings on the drain's list, so a ring that filled up takes records again.
\<close>

section \<open>A pass over a ring whose thread is alive\<close>

definition drained :: "ring \<Rightarrow> ring" where
  "drained r = r\<lparr>rb_tail := rb_head r, rb_head_cache := rb_head r, rb_draining := False\<rparr>"

text \<open>The flags of a ring play no part in what it holds.\<close>

lemma ring_holds_flags [simp]:
  "ring_holds ft k (mark_draining r) rs = ring_holds ft k r rs" "ring_holds ft k (clear_draining r) rs = ring_holds ft k r rs"
  "ring_holds ft k (mark_handed_off r) rs = ring_holds ft k r rs" "ring_holds ft k (reserve_for_helper r) rs = ring_holds ft k r rs"
  by (simp_all add: mark_draining_def clear_draining_def mark_handed_off_def reserve_for_helper_def ring_holds_def ring_view_def
      drain_view_def producer_head_def ring_wf_def Let_def)

definition emptied :: "ring \<Rightarrow> ring" where
  "emptied r = r\<lparr>rb_tail := rb_head r, rb_head_cache := rb_head r\<rparr>"

lemma holds_inner:
  assumes "ring_holds ft k r rs"
  shows "drain_ring_inner ft step r c = map_option (\<lambda>c'. (rs \<noteq> [], emptied r, c')) (deliver_all step rs c)"
    "ring_holds ft k (emptied r) []"
proof -
  have wm: "\<not> watermark_head ft" and rv: "ring_view ft r" and dv: "drain_view ft r Asleep rs"
    and room: "unat (producer_head ft r) + 131072 * k + 131072 \<le> 2 ^ 64" and lv: "rb_live r"
    using assms by (auto simp: ring_holds_def)
  have ph: "producer_head ft r = rb_head r" using wm by (simp add: producer_head_def)
  have b: "drain_begin ft r = (r, rb_head r)"
    using rv wm by (simp add: drain_begin_def ring_view_def Let_def)
  have f: "frames (rb_data r) (rb_capacity r) (unat (rb_tail r)) (unat (rb_head r)) rs"
    using drain_view_frames [OF dv] by (simp add: ph)
  have wf: "ring_wf r" and al: "64 dvd unat (rb_tail r)" and eq: "rb_head_cache r = rb_tail r"
    using rv by (auto simp: ring_view_def)
  have "(if rb_tail r = rb_head r then r else drain_end (rb_head r) (rb_head r) r) = emptied r"
    using eq by (cases r) (auto simp: drain_end_def emptied_def)
  then show "drain_ring_inner ft step r c = map_option (\<lambda>c'. (rs \<noteq> [], emptied r, c')) (deliver_all step rs c)"
    using drain_ring_inner_frames [OF wf b al f, of step c] by (cases "deliver_all step rs c") simp_all
  have "rb_tail r \<le> rb_head r" using drain_view_order [OF dv] by blast
  then have "ring_view ft (emptied r)"
    using rv ph ring_wf_cap(1) [of r] by (auto simp: ring_view_def ring_wf_def emptied_def producer_head_def)
  moreover have "drain_view ft (emptied r) Asleep []"
    using wm by (simp add: drain_view_def Let_def emptied_def producer_head_def frames_nil)
  ultimately show "ring_holds ft k (emptied r) []"
    using wm room lv by (simp add: ring_holds_def emptied_def producer_head_def)
qed

lemma holds_drain:
  assumes "ring_holds ft k r rs"
  shows "drain_ring ft step r c = map_option (\<lambda>c'. (rs \<noteq> [], drained r, c')) (deliver_all step rs c)"
    "ring_holds ft k (drained r) []"
proof -
  have d: "drained r = clear_draining (emptied (mark_draining r))"
    by (simp add: drained_def clear_draining_def emptied_def mark_draining_def)
  have h: "ring_holds ft k (mark_draining r) rs" using assms by simp
  show "drain_ring ft step r c = map_option (\<lambda>c'. (rs \<noteq> [], drained r, c')) (deliver_all step rs c)"
    using holds_inner(1) [OF h, of step c] by (cases "deliver_all step rs c") (simp_all add: drain_ring_def d)
  show "ring_holds ft k (drained r) []" using holds_inner(2) [OF h] by (simp add: d)
qed

lemma drained_same [simp]: "same_ring r (drained r)" "plain (drained r) = plain r" "drained (drained r) = drained r"
  by (simp_all add: same_ring_def drained_def plain_def)

definition drain_all :: "nat list \<Rightarrow> globals \<Rightarrow> globals" where
  "drain_all as g = fold (\<lambda>a. update_ring a drained) as g"

lemma drain_all_simps [simp]:
  "drain_all [] g = g" "drain_all (a # as) g = drain_all as (update_ring a drained g)"
  by (simp_all add: drain_all_def)

lemma drain_all_frame [simp]:
  "ring_at (drain_all as g) b = (if b \<in> set as then drained (ring_at g b) else ring_at g b)"
  "g_registry (drain_all as g) = g_registry g" "g_segments (drain_all as g) = g_segments g"
  "g_capacity (drain_all as g) = g_capacity g" "h_next (g_heap (drain_all as g)) = h_next (g_heap g)"
  by (induction as arbitrary: g) auto

lemma current_drain_all [simp]: "current (drain_all as g) a = current g a"
  by (simp add: current_def drained_def)

section \<open>A poll while the threads are alive\<close>

text \<open>A ring as a running process has it: its thread owns it, and the sink can take what it holds.\<close>

context lossless_sink
begin

definition running_ring :: "features \<Rightarrow> nat \<Rightarrow> globals \<Rightarrow> (nat \<Rightarrow> bytes list) \<Rightarrow> nat \<Rightarrow> bool" where
  "running_ring ft k g recs a \<longleftrightarrow> plain (ring_at g a) \<and> ring_holds ft k (ring_at g a) (recs a) \<and>
     list_all (valid (ring_at g a)) (recs a)"

lemma drain_at_running:
  assumes "inputs d" "good (dr_sink d, w)" and h: "ring_holds ft k (ring_at g a) (recs a)" and v: "list_all (valid (ring_at g a)) (recs a)"
  shows "\<exists>s' w'. drain_at ft io e a d g w = Some (recs a \<noteq> [], d\<lparr>dr_sink := s'\<rparr>, update_ring a drained g, w') \<and>
    good (s', w') \<and> seen (s', w') = seen (dr_sink d, w) @ out g recs a"
proof -
  obtain s' w' where d: "deliver_all (to_sink io e (raw_sink (dr_sink d)) tz calib pat (ring_at g a)) (recs a) (dr_sink d, w) =
      Some (s', w')" "good (s', w')" "seen (s', w') = seen (dr_sink d, w) @ out g recs a"
    using deliver_all_takes [OF assms(2) ready_wire [OF holds_ready [OF h]] v] by (auto simp: out_def)
  have "update_ring a (\<lambda>_. drained (ring_at g a)) g = update_ring a drained g"
    by (simp add: update_ring_def on_ring_def)
  then show ?thesis using d assms(1)
    by (intro exI [of _ s'] exI [of _ w']) (simp add: drain_at_def inputs_def holds_drain(1) [OF h])
qed

lemma poll_running:
  assumes "inputs d" "good (dr_sink d, w)" "dr_rings d = ys @ map (current g) as" "distinct as"
    "\<forall>a\<in>set as. running_ring ft k g recs a"
  shows "\<exists>hw' s' w'. poll_rings ft io e (length ys) hw d g w = Some (hw', d\<lparr>dr_sink := s'\<rparr>, drain_all as g, w') \<and>
    good (s', w') \<and> seen (s', w') = seen (dr_sink d, w) @ concat (map (out g recs) as)"
  using assms
proof (induction as arbitrary: ys hw d g w)
  case Nil
  then show ?case by (subst poll_rings.simps) (auto intro!: exI [of _ "dr_sink d"])
next
  case (Cons a as)
  have a: "running_ring ft k g recs a" using Cons.prems by simp
  obtain s1 w1 where 1: "drain_at ft io e a d g w = Some (recs a \<noteq> [], d\<lparr>dr_sink := s1\<rparr>, update_ring a drained g, w1)"
    "good (s1, w1)" "seen (s1, w1) = seen (dr_sink d, w) @ out g recs a"
    using drain_at_running [OF Cons.prems(1,2), of ft k g a recs] a by (auto simp: running_ring_def)
  let ?g = "update_ring a drained g" let ?d = "d\<lparr>dr_sink := s1\<rparr>"
  have pl: "plain (ring_at g a)" using a by (simp add: running_ring_def)
  then have "maybe_retire (length ys) a (rb_serial (ring_at g a)) ?d ?g = Some (False, ?d, ?g)"
    by (simp add: maybe_retire_def drained_def plain_def)
  then have poll: "poll_rings ft io e (length ys) hw d g w =
      poll_rings ft io e (length (ys @ [current g a])) (hw \<or> recs a \<noteq> []) ?d ?g w1"
    using 1(1) pl Cons.prems(3) by (subst poll_rings.simps) (simp add: current_def plain_def)
  have same: "ring_at ?g b = ring_at g b" if "b \<in> set as" for b using that Cons.prems(4) by auto
  have cur: "dr_rings ?d = (ys @ [current g a]) @ map (current ?g) as" using same Cons.prems(3) by (simp add: current_def)
  have run: "\<forall>b\<in>set as. running_ring ft k ?g recs b" using Cons.prems(5) same by (simp add: running_ring_def)
  have out: "map (out ?g recs) as = map (out g recs) as" using same by (simp add: out_def)
  have "inputs ?d" "good (dr_sink ?d, w1)" "distinct as" using Cons.prems(1,4) 1(2) by (simp_all add: inputs_def)
  from Cons.IH [OF this(1,2) cur this(3) run, of "hw \<or> recs a \<noteq> []", folded poll] obtain hw' s' w' where
    "poll_rings ft io e (length ys) hw d g w = Some (hw', ?d\<lparr>dr_sink := s'\<rparr>, drain_all as ?g, w')"
    "good (s', w')" "seen (s', w') = seen (s1, w1) @ concat (map (out g recs) as)"
    unfolding out by auto
  then show ?case using 1(3) by (intro exI [of _ hw'] exI [of _ s'] exI [of _ w']) simp
qed

end


section \<open>One turn\<close>

text \<open>While every thread is alive a sync removes nothing.\<close>

lemma sync_alive:
  assumes "g_registry g = Some regs" "\<forall>a\<in>set regs. rb_live (ring_at g a)" "fst ` set (dr_rings d) \<subseteq> set regs"
  shows "sync_rings ft io e d g w = Some (d\<lparr>dr_rings := synced g regs (dr_rings d)\<rparr>, g, w)"
proof -
  have k: "a \<in> set regs \<Longrightarrow> keep_ring g a" for a using assms(2) by (simp add: keep_ring_def)
  then have "finalize_list g regs (dr_rings d) = []" "filter (keep_ring g) regs = regs"
    using assms(3) by (auto simp: finalize_list_def filter_empty_conv filter_id_conv)
  then show ?thesis using assms(1) by (simp add: sync_rings_def synced_def)
qed

lemma list_current: "set rs \<subseteq> current g ` A \<Longrightarrow> rs = map (current g) (map fst rs)"
  by (induction rs) (auto simp: current_def)

context identity_sink
begin

lemma flush_keeps_seen:
  assumes "good (dr_sink d, w)" "flush_sink io d w = (d', w')"
  shows "\<exists>s'. d' = d\<lparr>dr_sink := s'\<rparr> \<and> good (s', w') \<and> seen (s', w') = seen (dr_sink d, w)"
proof -
  obtain s' w1 r where f: "sink_flush io (dr_sink d) w = (s', w1, r)" by (metis prod_cases3)
  then show ?thesis using flushes [OF assms(1) f] flush_seen [OF assms(1) f] assms(2) by (auto simp: flush_sink_def)
qed

text \<open>A turn visits registered rings, all of them when it begins with a sync.\<close>

lemma turn_running:
  assumes "inputs d" "good (dr_sink d, w)" "\<not> dr_segmented d" "g_segments g = None" "g_registry g = Some regs"
    "distinct (map fst (dr_rings d))" "set (dr_rings d) \<subseteq> current g ` set regs"
    "\<forall>a\<in>set regs. running_ring ft k g recs a"
  shows "\<exists>spin' dirty' s' w' as. drain_turn ft io e spin since dirty d g w =
      Some (spin', since + 1, dirty', d\<lparr>dr_rings := map (current g) as, dr_sink := s'\<rparr>, drain_all as g, w') \<and>
    good (s', w') \<and> distinct as \<and> set as \<subseteq> set regs \<and> (since AND SYNC_EVERY - 1 = 0 \<longrightarrow> set as = set regs) \<and>
    seen (s', w') = seen (dr_sink d, w) @ concat (map (out g recs) as)"
proof -
  have live: "\<forall>a\<in>set regs. rb_live (ring_at g a)" using assms(8) by (simp add: running_ring_def ring_holds_def)
  then have keep: "{a \<in> set regs. keep_ring g a} = set regs" by (auto simp: keep_ring_def)
  have sub: "fst ` set (dr_rings d) \<subseteq> set regs" using assms(7) by (auto simp: current_def)
  define rs where "rs = (if since AND SYNC_EVERY - 1 = 0 then synced g regs (dr_rings d) else dr_rings d)"
  note sy = synced_set [OF assms(6), of g regs, unfolded keep]
  have rs: "set rs \<subseteq> current g ` set regs" "distinct (map fst rs)"
    using assms(6,7) sy by (auto simp: rs_def)
  define as where "as = map fst rs"
  have as: "rs = map (current g) as" "distinct as" "set as \<subseteq> set regs" "since AND SYNC_EVERY - 1 = 0 \<longrightarrow> set as = set regs"
    using list_current [OF rs(1)] rs sy by (auto simp: as_def current_def rs_def image_image)
  let ?d = "d\<lparr>dr_rings := map (current g) as\<rparr>"
  have sync: "(if since AND SYNC_EVERY - 1 = 0 then sync_rings ft io e d g w else Some (d, g, w)) = Some (?d, g, w)"
    using sync_alive [OF assms(5) live sub, of ft io e w] by (simp add: as(1) [symmetric] rs_def)
  have run: "\<forall>a\<in>set as. running_ring ft k g recs a" using assms(8) as(3) by auto
  have "inputs ?d" "good (dr_sink ?d, w)" using assms(1,2) by (simp_all add: inputs_def)
  from poll_running [OF this, of "[]" g as ft k recs False] as(2) run obtain hw s1 w1 where
    p: "poll_rings ft io e 0 False ?d g w = Some (hw, ?d\<lparr>dr_sink := s1\<rparr>, drain_all as g, w1)" "good (s1, w1)"
      "seen (s1, w1) = seen (dr_sink d, w) @ concat (map (out g recs) as)" by auto
  have po: "poll_once ft io e ?d g w = Some (hw, ?d\<lparr>dr_sink := s1\<rparr>, drain_all as g, w1)"
    using p(1) assms(4) by (simp add: poll_once_def)
  obtain d2 w2 where fl: "(if dirty then flush_sink io (?d\<lparr>dr_sink := s1\<rparr>) w1 else (?d\<lparr>dr_sink := s1\<rparr>, w1)) = (d2, w2)" by fastforce
  obtain s2 where s2: "d2 = ?d\<lparr>dr_sink := s2\<rparr>" "good (s2, w2)" "seen (s2, w2) = seen (s1, w1)"
    using fl flush_keeps_seen [of "?d\<lparr>dr_sink := s1\<rparr>" w1 d2 w2] p(2) by (auto split: if_splits)
  show ?thesis
  proof (cases hw)
    case True
    then show ?thesis using assms(3) sync po p(2,3) as(2-4)
      by (intro exI [of _ SPIN_MIN] exI [of _ True] exI [of _ s1] exI [of _ w1] exI [of _ as]) (simp add: drain_turn_def)
  next
    case False
    then have "drain_turn ft io e spin since dirty d g w =
        Some (min (push_bit 1 spin) SPIN_CAP, since + 1, False, d2, drain_all as g, w2)"
      using assms(3) sync po fl by (simp add: drain_turn_def)
    then show ?thesis using s2 p(3) as(2-4)
      by (intro exI [of _ "min (push_bit 1 spin) SPIN_CAP"] exI [of _ False] exI [of _ s2] exI [of _ w2] exI [of _ as]) simp
  qed
qed

end

section \<open>The process and its steps\<close>

record 'w process =
  p_threads :: "nat \<Rightarrow> thread_slot"
  p_globals :: globals
  p_drain :: drain_state
  p_world :: 'w
  p_spin :: "32 word"
  p_since :: "32 word"
  p_dirty :: bool

definition process_init :: "drain_state \<Rightarrow> globals \<Rightarrow> 'w \<Rightarrow> 'w process" where
  "process_init d g w = \<lparr>p_threads = (\<lambda>_. idle_thread), p_globals = g, p_drain = d, p_world = w,
     p_spin = SPIN_MIN, p_since = 0, p_dirty = False\<rparr>"

definition process_call ::
  "features \<Rightarrow> env \<Rightarrow> (nat \<Rightarrow> os_thread) \<Rightarrow> level \<Rightarrow> backpressure \<Rightarrow> call \<Rightarrow> 'w process \<Rightarrow> 'w process option"
where
  "process_call ft e os ceiling policy c p =
     map_option (\<lambda>(called, slot, g). p\<lparr>p_threads := (p_threads p)(ca_thread c := slot), p_globals := g\<rparr>)
       (log_call ft e [] (os (ca_thread c)) (ca_time c) ceiling policy (ca_level c) (ca_site c) (ca_args c)
          (p_threads p (ca_thread c)) (p_globals p))"

definition process_turn :: "features \<Rightarrow> 'w io_ops \<Rightarrow> env \<Rightarrow> 'w process \<Rightarrow> 'w process option" where
  "process_turn ft io e p =
     map_option (\<lambda>(spin, since, dirty, d, g, w).
         p\<lparr>p_spin := spin, p_since := since, p_dirty := dirty, p_drain := d, p_globals := g, p_world := w\<rparr>)
       (drain_turn ft io e (p_spin p) (p_since p) (p_dirty p) (p_drain p) (p_globals p) (p_world p))"

fun process_turns :: "features \<Rightarrow> 'w io_ops \<Rightarrow> env \<Rightarrow> nat \<Rightarrow> 'w process \<Rightarrow> 'w process option" where
  "process_turns ft io e 0 p = Some p"
| "process_turns ft io e (Suc n) p =
     (case process_turn ft io e p of None \<Rightarrow> None | Some p' \<Rightarrow> process_turns ft io e n p')"

definition process_stop :: "features \<Rightarrow> 'w io_ops \<Rightarrow> env \<Rightarrow> 'w process \<Rightarrow> (drain_state \<times> globals \<times> 'w) option" where
  "process_stop ft io e p =
     drain_run ft io e [(guard_drop, True)] (p_spin p) (p_since p) (p_dirty p) (p_drain p) (p_globals p) (p_world p)"

text \<open>The states a process reaches, with the calls that returned, all of them admissible (\<open>ok\<close>), and
  for each thread the records its ring accepted.\<close>

inductive running ::
  "features \<Rightarrow> 'w io_ops \<Rightarrow> env \<Rightarrow> (nat \<Rightarrow> os_thread) \<Rightarrow> level \<Rightarrow> backpressure \<Rightarrow> (call \<Rightarrow> bool) \<Rightarrow> 'w process
   \<Rightarrow> call list \<Rightarrow> (nat \<Rightarrow> bytes list) \<Rightarrow> 'w process \<Rightarrow> bool"
  for ft io e os ceiling policy ok p0
where
  start: "running ft io e os ceiling policy ok p0 [] (\<lambda>_. []) p0"
| call: "running ft io e os ceiling policy ok p0 cs acc p \<Longrightarrow> ok c \<Longrightarrow> process_call ft e os ceiling policy c p = Some p' \<Longrightarrow>
    running ft io e os ceiling policy ok p0 (cs @ [c])
      (accept_call (ca_level c \<le> ceiling \<and> accepts ft policy (p_threads p) (p_globals p) c) c acc) p'"
| turn: "running ft io e os ceiling policy ok p0 cs acc p \<Longrightarrow> process_turn ft io e p = Some p' \<Longrightarrow>
    running ft io e os ceiling policy ok p0 cs acc p'"

section \<open>What was delivered and what is waiting\<close>

definition of_thread :: "nat \<Rightarrow> (nat \<times> bytes) list \<Rightarrow> bytes list" where
  "of_thread t D = map snd (filter (\<lambda>d. fst d = t) D)"

definition tagged :: "(nat \<Rightarrow> bytes list) \<Rightarrow> nat list \<Rightarrow> (nat \<times> bytes) list" where
  "tagged f ts = concat (map (\<lambda>t. map (Pair t) (f t)) ts)"

lemma of_thread_append [simp]: "of_thread t (D @ E) = of_thread t D @ of_thread t E" "of_thread t [] = []"
  by (simp_all add: of_thread_def)

lemma tagged_simps:
  "concat (map (\<lambda>(t, x). h t x) (tagged f ts)) = concat (map (\<lambda>t. concat (map (h t) (f t))) ts)"
  "distinct ts \<Longrightarrow> of_thread t (tagged f ts) = (if t \<in> set ts then f t else [])"
proof -
  have one: "of_thread t (map (Pair u) xs) = (if u = t then xs else [])" for u xs
    by (simp add: of_thread_def filter_map comp_def)
  show "concat (map (\<lambda>(t, x). h t x) (tagged f ts)) = concat (map (\<lambda>t. concat (map (h t) (f t))) ts)"
    by (induction ts) (auto simp: tagged_def comp_def)
  show "distinct ts \<Longrightarrow> of_thread t (tagged f ts) = (if t \<in> set ts then f t else [])"
    by (induction ts) (auto simp: tagged_def one)
qed

lemma process_turns_last:
  "process_turns ft io e (Suc n) p = (case process_turns ft io e n p of None \<Rightarrow> None | Some p' \<Rightarrow> process_turn ft io e p')"
proof (induction n arbitrary: p)
  case (Suc n)
  note step = process_turns.simps(2) [of ft io e "Suc n" p] process_turns.simps(2) [of ft io e n p]
  show ?case unfolding step by (cases "process_turn ft io e p") (simp_all only: option.case Suc.IH)
qed (simp split: option.splits)

lemma sync_soon: "\<exists>n<1024. (w :: 32 word) + word_of_nat n AND SYNC_EVERY - 1 = 0"
proof (intro exI conjI)
  let ?n = "(1024 - unat w mod 1024) mod 1024"
  show "?n < 1024" by simp
  have "(unat w + ?n) mod 2 ^ 32 mod 1024 = (unat w + ?n) mod 1024" by (rule mod_mod_cancel) simp
  also have "\<dots> = (unat w mod 1024 + (1024 - unat w mod 1024)) mod 1024"
    by (simp only: mod_add_left_eq mod_add_right_eq)
  finally have m: "(unat w + ?n) mod 2 ^ 32 mod 1024 = 0" by simp
  have "unat (w + word_of_nat ?n) = (unat w + ?n) mod 2 ^ 32" by (simp add: unat_word_ariths unat_of_nat take_bit_eq_mod)
  then have "unat (take_bit 10 (w + word_of_nat ?n)) = 0" using m by (simp only: unsigned_take_bit_eq take_bit_nat_def) simp
  moreover have "SYNC_EVERY - 1 = mask 10" by (simp add: SYNC_EVERY_def mask_eq_exp_minus_1)
  ultimately show "w + word_of_nat ?n AND SYNC_EVERY - 1 = 0" by (simp add: take_bit_eq_mask unsigned_eq_0_iff)
qed

text \<open>What the history says of the records accepted: a subsequence of the thread's calls, all of them
  under Block.\<close>

definition accepted_ok :: "level \<Rightarrow> backpressure \<Rightarrow> call list \<Rightarrow> (nat \<Rightarrow> bytes list) \<Rightarrow> bool" where
  "accepted_ok ceiling policy cs acc \<longleftrightarrow>
     (\<forall>t. subseq (acc t) (thread_records ceiling cs t) \<and> (policy = Block \<longrightarrow> acc t = thread_records ceiling cs t))"

lemma accepted_ok_call:
  assumes "accepted_ok ceiling policy cs acc" "policy = Block \<longrightarrow> ca_level c \<le> ceiling \<longrightarrow> took" "took \<longrightarrow> ca_level c \<le> ceiling"
  shows "accepted_ok ceiling policy (cs @ [c]) (accept_call took c acc)"
  using assms by (auto simp: accepted_ok_def thread_records_def accept_call_def intro: list_emb_append_mono list_emb_prefix)

lemma drained_inv:
  assumes inv: "process_inv ft cap k (owned_ring cap os ok) regs ths g pend" and as: "set as \<subseteq> set regs"
  shows "process_inv ft cap k (owned_ring cap os ok) regs ths (drain_all as g) (\<lambda>t. if t \<in> owner ths ` set as then [] else pend t)"
proof -
  note o = owner_facts(1,2) [OF inv]
  have iff: "t \<in> owner ths ` set as \<longleftrightarrow> a \<in> set as" if "owns ths t a" for t a
  proof
    assume "t \<in> owner ths ` set as"
    then obtain b where b: "b \<in> set as" "owns ths t b" using o(2) as by auto
    then show "a \<in> set as" using that by (auto simp: owns_def)
  qed (use o(1) [OF that] in auto)
  have "ring_holds ft k (ring_at (drain_all as g) a) (if t \<in> owner ths ` set as then [] else pend t) \<and>
      owned_ring cap os ok t (ring_at (drain_all as g) a) (if t \<in> owner ths ` set as then [] else pend t)" if own: "owns ths t a" for t a
  proof -
    have "ring_holds ft k (ring_at g a) (pend t)" "owned_ring cap os ok t (ring_at g a) (pend t)" using inv own by (auto simp: process_inv_def)
    then show ?thesis using iff [OF own] holds_drain(2) owned_same [OF drained_same(1)] by simp
  qed
  then show ?thesis using inv unfolding process_inv_def by simp
qed

context identity_sink
begin

text \<open>Every accepted record is either in what the sink has seen, \<open>D\<close>, or waiting in its thread's ring.\<close>

definition running_inv ::
  "features \<Rightarrow> nat \<Rightarrow> (nat \<Rightarrow> os_thread) \<Rightarrow> nat \<Rightarrow> 'o list \<Rightarrow> (nat \<Rightarrow> bytes list) \<Rightarrow> (nat \<Rightarrow> bytes list) \<Rightarrow> nat list
   \<Rightarrow> (nat \<times> bytes) list \<Rightarrow> 'w process \<Rightarrow> bool"
where
  "running_inv ft cap os k before acc pend regs D p \<longleftrightarrow>
     process_inv ft cap k (owned_ring cap os (admissible os)) regs (p_threads p) (p_globals p) pend \<and>
     (\<forall>t. acc t = of_thread t D @ pend t) \<and> inputs (p_drain p) \<and>
     good (dr_sink (p_drain p), p_world p) \<and>
     seen (dr_sink (p_drain p), p_world p) = before @ concat (map (\<lambda>(t, x). told os t x) D) \<and>
     \<not> dr_segmented (p_drain p) \<and> distinct (map fst (dr_rings (p_drain p))) \<and>
     set (dr_rings (p_drain p)) \<subseteq> current (p_globals p) ` set regs"

lemma running_start:
  assumes "g_registry g = Some []" "g_segments g = None" "g_capacity g = Some cap"
    "inputs d" "good (dr_sink d, w)" "dr_rings d = []" "\<not> dr_segmented d"
  shows "running_inv ft cap os k (seen (dr_sink d, w)) (\<lambda>_. []) (\<lambda>_. []) [] [] (process_init d g w)"
  using process_start [OF assms(1-3)] assms(4-7) by (simp add: running_inv_def process_init_def)

lemma running_call:
  fixes ceiling :: level
  assumes inv: "running_inv ft cap os (Suc k) before acc pend regs D p" and c: "call_ok c" "admissible os (ca_thread c) (call_record c)"
    and pol: "policy \<in> {Drop, Block}"
    and cap: "is_power_of_two cap" "SLOT_SIZE \<le> cap" "cap < 2 ^ 64" and ft: "\<not> watermark_head ft" and k: "k < 2 ^ 45"
  defines "took \<equiv> ca_level c \<le> ceiling \<and> accepts ft policy (p_threads p) (p_globals p) c"
  shows "process_call ft e os ceiling policy c p = None \<Longrightarrow> policy = Block \<and> \<not> took"
    "process_call ft e os ceiling policy c p = Some p' \<Longrightarrow>
      \<exists>regs'. running_inv ft cap os k before (accept_call took c acc) (accept_call took c pend) regs' D p' \<and>
        (policy = Block \<longrightarrow> ca_level c \<le> ceiling \<longrightarrow> took)"
proof -
  let ?ths = "p_threads p" let ?g = "p_globals p" let ?t = "ca_thread c"
  have P: "process_inv ft cap (Suc k) (owned_ring cap os (admissible os)) regs ?ths ?g pend" using inv by (simp add: running_inv_def)
  note call = shared.call_keeps_inv [OF P c pol cap ft k, where e = e and ceiling = ceiling, folded took_def]
  show "process_call ft e os ceiling policy c p = None \<Longrightarrow> policy = Block \<and> \<not> took" using call(1) by (simp add: process_call_def)
  assume "process_call ft e os ceiling policy c p = Some p'"
  then obtain b slot g where 1: "log_call ft e [] (os ?t) (ca_time c) ceiling policy (ca_level c) (ca_site c) (ca_args c) (?ths ?t) ?g = Some (b, slot, g)"
    and p': "p' = p\<lparr>p_threads := ?ths(?t := slot), p_globals := g\<rparr>" by (auto simp: process_call_def)
  obtain regs' where 2: "process_inv ft cap k (owned_ring cap os (admissible os)) regs' (?ths(?t := slot)) g (accept_call took c pend)"
    "set regs \<subseteq> set regs'" "\<forall>a\<in>set regs. same_ring (ring_at ?g a) (ring_at g a)" "policy = Block \<longrightarrow> ca_level c \<le> ceiling \<longrightarrow> took"
    using call(2) [OF 1] by blast
  have "current ?g ` set regs = current g ` set regs" using 2(3) by (intro image_cong) (auto simp: current_def same_ring_def)
  then have "current ?g ` set regs \<subseteq> current g ` set regs'" using 2(2) by (simp add: image_mono)
  then have "running_inv ft cap os k before (accept_call took c acc) (accept_call took c pend) regs' D p'"
    using inv 2(1) by (auto simp: running_inv_def p' accept_call_def)
  then show "\<exists>regs'. running_inv ft cap os k before (accept_call took c acc) (accept_call took c pend) regs' D p' \<and>
        (policy = Block \<longrightarrow> ca_level c \<le> ceiling \<longrightarrow> took)" using 2(4) by blast
qed

lemma running_turn:
  assumes inv: "running_inv ft cap os k before acc pend regs D p"
  shows "\<exists>p' pend' D'. process_turn ft io e p = Some p' \<and> running_inv ft cap os k before acc pend' regs D' p' \<and>
    p_since p' = p_since p + 1 \<and> p_threads p' = p_threads p \<and>
    (p_since p AND SYNC_EVERY - 1 = 0 \<longrightarrow> (\<forall>a\<in>set regs. rb_tail (ring_at (p_globals p') a) = rb_head (ring_at (p_globals p') a)))"
proof -
  let ?ths = "p_threads p" let ?g = "p_globals p" let ?d = "p_drain p" let ?w = "p_world p"
  let ?recs = "\<lambda>a. pend (owner ?ths a)"
  have P: "process_inv ft cap k (owned_ring cap os (admissible os)) regs ?ths ?g pend" and M: "inputs ?d" "good (dr_sink ?d, ?w)" "\<not> dr_segmented ?d"
    "distinct (map fst (dr_rings ?d))" "set (dr_rings ?d) \<subseteq> current ?g ` set regs"
    and D: "seen (dr_sink ?d, ?w) = before @ concat (map (\<lambda>(t, x). told os t x) D)" "\<forall>t. acc t = of_thread t D @ pend t"
    using inv by (auto simp: running_inv_def)
  have reg: "g_segments ?g = None" "g_registry ?g = Some regs" using P by (auto simp: process_inv_def)
  have own: "owned_ring cap os (admissible os) (owner ?ths a) (ring_at ?g a) (?recs a)" "ring_holds ft k (ring_at ?g a) (?recs a)"
    if "a \<in> set regs" for a using P owner_facts(2) [OF P that] by (auto simp: process_inv_def)
  have run: "\<forall>a\<in>set regs. running_ring ft k ?g ?recs a"
    using own owned_out(1) [of cap os _ ?g _ ?recs] by (auto simp: running_ring_def owned_ring_def)
  obtain spin dirty s w as where t: "drain_turn ft io e (p_spin p) (p_since p) (p_dirty p) ?d ?g ?w =
      Some (spin, p_since p + 1, dirty, ?d\<lparr>dr_rings := map (current ?g) as, dr_sink := s\<rparr>, drain_all as ?g, w)"
    "good (s, w)" "distinct as" "set as \<subseteq> set regs" "p_since p AND SYNC_EVERY - 1 = 0 \<longrightarrow> set as = set regs"
    "seen (s, w) = seen (dr_sink ?d, ?w) @ concat (map (out ?g ?recs) as)"
    using turn_running [OF M(1-3) reg(1,2) M(4,5) run, of "p_spin p" "p_since p" "p_dirty p"] by (elim exE conjE) (rule that)
  let ?ts = "map (owner ?ths) as" let ?pend = "\<lambda>t. if t \<in> owner ?ths ` set as then [] else pend t"
  have ts: "distinct ?ts" using owner_facts(3) [OF P t(3,4)] .
  define p' where "p' = p\<lparr>p_spin := spin, p_since := p_since p + 1, p_dirty := dirty,
    p_drain := ?d\<lparr>dr_rings := map (current ?g) as, dr_sink := s\<rparr>, p_globals := drain_all as ?g, p_world := w\<rparr>"
  have turn: "process_turn ft io e p = Some p'" using t(1) by (simp add: process_turn_def p'_def)
  have fs: "map fst (map (current ?g) as) = as" by (simp add: comp_def current_def)
  have "map (out ?g ?recs) as = map (\<lambda>t. concat (map (told os t) (pend t))) ?ts"
    using own(1) owned_out(2) [of cap os _ ?g _ ?recs] t(4) by (auto simp: comp_def)
  then have "seen (s, w) = before @ concat (map (\<lambda>(t, x). told os t x) (D @ tagged pend ?ts))"
    using t(6) D(1) by (simp only: map_append concat_append tagged_simps(1) append_assoc)
  moreover have "acc u = of_thread u (D @ tagged pend ?ts) @ ?pend u" for u
    using D(2) tagged_simps(2) [OF ts, of u pend] by simp
  moreover have "inputs (?d\<lparr>dr_rings := map (current ?g) as, dr_sink := s\<rparr>)" using M(1) by (simp add: inputs_def)
  ultimately have "running_inv ft cap os k before acc ?pend regs (D @ tagged pend ?ts) p'"
    using drained_inv [OF P t(4)] t(2-4) M(3) fs unfolding running_inv_def by (auto simp: p'_def)
  moreover have "p_since p AND SYNC_EVERY - 1 = 0 \<longrightarrow> (\<forall>a\<in>set regs. rb_tail (ring_at (p_globals p') a) = rb_head (ring_at (p_globals p') a))"
    using t(5) by (simp add: p'_def drained_def)
  ultimately show ?thesis using turn by (intro exI [of _ p'] exI [of _ ?pend] exI [of _ "D @ tagged pend ?ts"]) (simp add: p'_def)
qed

lemma running_reaches:
  assumes "running ft io e os ceiling policy ok p0 cs acc p"
    and start: "running_inv ft cap os N before (\<lambda>_. []) (\<lambda>_. []) [] [] p0" and N: "length cs \<le> N" "N \<le> 2 ^ 45"
    and ok: "\<And>c. ok c \<Longrightarrow> call_ok c \<and> admissible os (ca_thread c) (call_record c)" and pol: "policy \<in> {Drop, Block}"
    and cap: "is_power_of_two cap" "SLOT_SIZE \<le> cap" "cap < 2 ^ 64" and ft: "\<not> watermark_head ft"
  shows "(\<exists>pend regs D. running_inv ft cap os (N - length cs) before acc pend regs D p) \<and> accepted_ok ceiling policy cs acc"
  using assms(1) N(1)
proof (induction rule: running.induct)
  case start
  then show ?case using assms(2) by (auto simp: accepted_ok_def thread_records_def)
next
  case (call cs acc p c p')
  then obtain pend regs D where inv: "running_inv ft cap os (N - length cs) before acc pend regs D p" and h: "accepted_ok ceiling policy cs acc" by auto
  have "N - length cs = Suc (N - length (cs @ [c]))" and k: "N - length (cs @ [c]) < 2 ^ 45" using call.prems N(2) by auto
  with inv have inv': "running_inv ft cap os (Suc (N - length (cs @ [c]))) before acc pend regs D p" by simp
  have c: "call_ok c" "admissible os (ca_thread c) (call_record c)" using ok call(2) by auto
  let ?took = "ca_level c \<le> ceiling \<and> accepts ft policy (p_threads p) (p_globals p) c"
  from running_call(2) [OF inv' c pol cap ft k call(3)] obtain regs' where
    1: "running_inv ft cap os (N - length (cs @ [c])) before (accept_call ?took c acc) (accept_call ?took c pend) regs' D p'"
      "policy = Block \<longrightarrow> ca_level c \<le> ceiling \<longrightarrow> ?took" by (elim exE conjE) (rule that)
  have "accepted_ok ceiling policy (cs @ [c]) (accept_call ?took c acc)" using accepted_ok_call [OF h 1(2)] by simp
  then show ?case using 1(1) by (intro conjI exI)
next
  case (turn cs acc p p')
  then obtain pend regs D where "running_inv ft cap os (N - length cs) before acc pend regs D p" and h: "accepted_ok ceiling policy cs acc" by auto
  from running_turn [OF this(1)] turn(2) obtain pend' D' where "running_inv ft cap os (N - length cs) before acc pend' regs D' p'" by auto
  then show ?case using h by blast
qed

lemma running_stop:
  assumes inv: "running_inv ft cap os k before acc pend regs D p"
  shows "\<exists>d' g' w' D'. process_stop ft io e p = Some (d', g', w') \<and> good (dr_sink d', w') \<and>
    settled (dr_sink d', w') = before @ concat (map (\<lambda>(t, x). told os t x) D') \<and> (\<forall>t. of_thread t D' = acc t)"
proof -
  let ?d = "p_drain p"
  have P: "process_inv ft cap k (owned_ring cap os (admissible os)) regs (p_threads p) (p_globals p) pend"
    and M: "inputs ?d" "good (dr_sink ?d, p_world p)" "distinct (map fst (dr_rings ?d))" "\<not> dr_segmented ?d"
    and sub: "fst ` set (dr_rings ?d) \<subseteq> set regs"
    and D: "seen (dr_sink ?d, p_world p) = before @ concat (map (\<lambda>(t, x). told os t x) D)" "\<forall>t. acc t = of_thread t D @ pend t"
    using inv by (auto simp: running_inv_def current_def)
  obtain d' g' w' order where f: "final_pass ft io e ?d (guard_drop (p_globals p)) (p_world p) = Some (d', g', w')"
    "good (dr_sink d', w')" "distinct order" "\<forall>t. t \<notin> set order \<longrightarrow> pend t = []"
    "settled (dr_sink d', w') = seen (dr_sink ?d, p_world p) @ concat (map (\<lambda>t. concat (map (told os t) (pend t))) order)"
    using shutdown_run [OF P _ M sub] by blast
  have "settled (dr_sink d', w') = before @ concat (map (\<lambda>(t, x). told os t x) (D @ tagged pend order))"
    using f(5) D(1) by (simp only: map_append concat_append tagged_simps(1) append_assoc)
  moreover have "of_thread t (D @ tagged pend order) = acc t" for t
    using D(2) tagged_simps(2) [OF f(3), of t pend] f(4) by simp
  ultimately show ?thesis using f(1,2)
    by (intro exI [of _ d'] exI [of _ g'] exI [of _ w'] exI [of _ "D @ tagged pend order"]) (simp add: process_stop_def)
qed

section \<open>Progress\<close>

text \<open>A call whose ring the drain has caught up with is accepted, if its slots take at most half of it.\<close>

lemma caught_up_call:
  assumes inv: "running_inv ft cap os (Suc k) before acc pend regs D p" and c: "call_ok c" "2 * slots (length (call_record c)) \<le> cap"
    and cap: "is_power_of_two cap" "SLOT_SIZE \<le> cap" and wm: "\<not> watermark_head ft"
    and up: "\<forall>a\<in>set regs. rb_tail (ring_at (p_globals p) a) = rb_head (ring_at (p_globals p) a)"
  shows "accepts ft policy (p_threads p) (p_globals p) c"
proof (cases "ts_buf (p_threads p (ca_thread c))")
  case None
  have "g_capacity (p_globals p) = Some cap" using inv by (simp add: running_inv_def process_inv_def)
  then show ?thesis using None c(2) cap(2) by (simp add: accepts_def SLOT_SIZE_def CACHE_LINE_SIZE_def)
next
  case (Some tb)
  let ?r = "ring_at (p_globals p) (tb_ring tb)"
  have P: "process_inv ft cap (Suc k) (owned_ring cap os (admissible os)) regs (p_threads p) (p_globals p) pend"
    using inv by (simp add: running_inv_def)
  have own: "owns (p_threads p) (ca_thread c) (tb_ring tb)" using Some by (simp add: owns_def)
  then have h: "ring_holds ft (Suc k) ?r (pend (ca_thread c))" "rb_capacity ?r = cap" "tb_ring tb \<in> set regs"
    using P by (auto simp: process_inv_def owned_ring_def)
  have "rb_tail ?r = producer_head ft ?r" using up h(3) wm by (simp add: producer_head_def)
  moreover have "ring_wf ?r" "rb_tail_cache ?r \<le> rb_tail ?r" "unat (rb_tail ?r) + 131072 < 2 ^ 64"
    using h(1) up h(3) wm by (auto simp: ring_holds_def ring_view_def producer_head_def)
  moreover have "length (call_record c) \<le> MAX_RECORD_SIZE" using c(1) by (simp add: call_ok_def call_record_def)
  ultimately obtain r v where "reserve ft [] ?r (length (call_record c)) policy = Some (r, Some v)"
    using reserve_empty [of ?r ft "length (call_record c)" policy] c(2) h(2) by auto
  then show ?thesis using Some by (simp add: accepts_def)
qed

lemma running_turns:
  assumes "running_inv ft cap os k before acc pend regs D p"
  shows "\<exists>p' pend' D'. process_turns ft io e n p = Some p' \<and> running_inv ft cap os k before acc pend' regs D' p' \<and>
    p_since p' = p_since p + word_of_nat n"
  using assms
proof (induction n arbitrary: p pend D)
  case (Suc n)
  obtain p1 pend1 D1 where 1: "process_turn ft io e p = Some p1" "running_inv ft cap os k before acc pend1 regs D1 p1"
    "p_since p1 = p_since p + 1" using running_turn [OF Suc.prems] by (elim exE conjE) (rule that)
  from Suc.IH [OF 1(2)] obtain p' pend' D' where "process_turns ft io e n p1 = Some p'"
    "running_inv ft cap os k before acc pend' regs D' p'" "p_since p' = p_since p1 + word_of_nat n" by (elim exE conjE) (rule that)
  then show ?case using 1(1,3) by (intro exI [of _ p'] exI [of _ pend'] exI [of _ D']) simp
qed auto

text \<open>The loop syncs every 1024 turns, so a call that finds no room does after at most so many.\<close>

lemma running_progress:
  assumes inv: "running_inv ft cap os (Suc k) before acc pend regs D p" and c: "call_ok c" "2 * slots (length (call_record c)) \<le> cap"
    and cap: "is_power_of_two cap" "SLOT_SIZE \<le> cap" and wm: "\<not> watermark_head ft"
  shows "\<exists>n p' pend' D'. n \<le> 1024 \<and> process_turns ft io e n p = Some p' \<and>
    running_inv ft cap os (Suc k) before acc pend' regs D' p' \<and> accepts ft policy (p_threads p') (p_globals p') c"
proof -
  obtain n where n: "n < 1024" "p_since p + word_of_nat n AND SYNC_EVERY - 1 = 0" using sync_soon by blast
  obtain p1 pend1 D1 where 1: "process_turns ft io e n p = Some p1" "running_inv ft cap os (Suc k) before acc pend1 regs D1 p1"
    "p_since p1 = p_since p + word_of_nat n" using running_turns [OF inv, of n] by (elim exE conjE) (rule that)
  obtain p2 pend2 D2 where 2: "process_turn ft io e p1 = Some p2" "running_inv ft cap os (Suc k) before acc pend2 regs D2 p2"
    "p_since p1 AND SYNC_EVERY - 1 = 0 \<longrightarrow> (\<forall>a\<in>set regs. rb_tail (ring_at (p_globals p2) a) = rb_head (ring_at (p_globals p2) a))"
    using running_turn [OF 1(2)] by (elim exE conjE) (rule that)
  have "\<forall>a\<in>set regs. rb_tail (ring_at (p_globals p2) a) = rb_head (ring_at (p_globals p2) a)" using 2(3) n(2) unfolding 1(3) by blast
  then have "accepts ft policy (p_threads p2) (p_globals p2) c" by (rule caught_up_call [OF 2(2) c cap wm])
  moreover have "process_turns ft io e (Suc n) p = Some p2" using process_turns_last [of ft io e n p] 1(1) 2(1) by simp
  ultimately show ?thesis using n(1) 2(2) by (intro exI [of _ "Suc n"] exI [of _ p2] exI [of _ pend2] exI [of _ D2]) simp
qed

section \<open>From configuration on\<close>

lemma running_summary:
  assumes run: "running ft io e os ceiling policy ok (process_init d g w) cs acc p" "length cs < 2 ^ 45"
    and g: "g_registry g = Some []" "g_segments g = None" "g_capacity g = Some cap"
    and d: "inputs d" "good (dr_sink d, w)" "dr_rings d = []" "\<not> dr_segmented d"
    and ok: "\<And>c. ok c \<Longrightarrow> call_ok c \<and> admissible os (ca_thread c) (call_record c)" and pol: "policy \<in> {Drop, Block}"
    and cap: "is_power_of_two cap" "SLOT_SIZE \<le> cap" "cap < 2 ^ 64" and ft: "\<not> watermark_head ft"
  shows "ok c \<Longrightarrow> process_call ft e os ceiling policy c p = None \<Longrightarrow> policy = Block"
    "process_turn ft io e p \<noteq> None"
    "accepted_ok ceiling policy cs acc"
    "\<exists>d' g' w' D. process_stop ft io e p = Some (d', g', w') \<and> good (dr_sink d', w') \<and>
      settled (dr_sink d', w') = seen (dr_sink d, w) @ concat (map (\<lambda>(t, x). told os t x) D) \<and> (\<forall>t. of_thread t D = acc t)"
    "ok c \<Longrightarrow> ca_level c \<le> ceiling \<Longrightarrow> 2 * slots (length (call_record c)) \<le> cap \<Longrightarrow>
      \<exists>n p' p''. n \<le> 1024 \<and> process_turns ft io e n p = Some p' \<and> accepts ft policy (p_threads p') (p_globals p') c \<and>
        process_call ft e os ceiling policy c p' = Some p''"
proof -
  obtain pend regs D where inv: "running_inv ft cap os (2 ^ 45 - length cs) (seen (dr_sink d, w)) acc pend regs D p"
    and h: "accepted_ok ceiling policy cs acc"
    using running_reaches [OF run(1) running_start [OF g d] _ order_refl ok pol cap ft] run(2) by auto
  define k where "k = 2 ^ 45 - Suc (length cs)"
  have k: "2 ^ 45 - length cs = Suc k" "k < 2 ^ 45" using run(2) by (simp_all add: k_def)
  note inv = inv [unfolded k(1)]
  note call = running_call(1) [OF _ _ _ pol cap ft k(2), where ceiling = ceiling]
  show "policy = Block" if "ok c" "process_call ft e os ceiling policy c p = None"
    using call [OF inv] ok [OF that(1)] that(2) by blast
  show "process_turn ft io e p \<noteq> None" using running_turn [OF inv] by auto
  show "accepted_ok ceiling policy cs acc" by (rule h)
  show "\<exists>d' g' w' D. process_stop ft io e p = Some (d', g', w') \<and> good (dr_sink d', w') \<and>
      settled (dr_sink d', w') = seen (dr_sink d, w) @ concat (map (\<lambda>(t, x). told os t x) D) \<and> (\<forall>t. of_thread t D = acc t)"
    using running_stop [OF inv] .
  show "\<exists>n p' p''. n \<le> 1024 \<and> process_turns ft io e n p = Some p' \<and> accepts ft policy (p_threads p') (p_globals p') c \<and>
        process_call ft e os ceiling policy c p' = Some p''"
    if h: "ok c" "ca_level c \<le> ceiling" "2 * slots (length (call_record c)) \<le> cap"
  proof -
    have c: "call_ok c" "admissible os (ca_thread c) (call_record c)" using ok [OF h(1)] by auto
    obtain n p' pend' D' where 1: "n \<le> 1024" "process_turns ft io e n p = Some p'"
      "running_inv ft cap os (Suc k) (seen (dr_sink d, w)) acc pend' regs D' p'" "accepts ft policy (p_threads p') (p_globals p') c"
      using running_progress [OF inv c(1) h(3) cap(1,2) ft, of policy] by (elim exE conjE) (rule that)
    then have "process_call ft e os ceiling policy c p' \<noteq> None" using call [OF 1(3) c] h(2) by blast
    then show ?thesis using 1 by blast
  qed
qed

end

text \<open>The line a thread's record becomes.\<close>

definition thread_line :: "env \<Rightarrow> drain_state \<Rightarrow> (nat \<Rightarrow> os_thread) \<Rightarrow> nat \<Rightarrow> bytes \<Rightarrow> bytes option" where
  "thread_line e d os t x = decode_and_format e x (dr_offset d) (dr_calib d) (dr_pattern d)
     (get_stable_thread_id (os t)) (thread_display_name (os t)) []"

context steady_io
begin

lemma lines_running:
  assumes run: "running ft io e os ceiling policy (\<lambda>c. call_ok c \<and> thread_line e d os (ca_thread c) (call_record c) \<noteq> None)
      (process_init d g w) cs acc p" "length cs < 2 ^ 45"
    and g: "g_registry g = Some []" "g_segments g = None" "g_capacity g = Some cap"
    and d: "writes_to t (dr_sink d)" "dr_rings d = []" "\<not> dr_segmented d" and pol: "policy \<in> {Drop, Block}"
    and cap: "is_power_of_two cap" "SLOT_SIZE \<le> cap" "cap < 2 ^ 64" and ft: "\<not> watermark_head ft"
  shows "(\<forall>c. call_ok c \<and> thread_line e d os (ca_thread c) (call_record c) \<noteq> None \<longrightarrow>
      process_call ft e os ceiling policy c p = None \<longrightarrow> policy = Block) \<and>
    process_turn ft io e p \<noteq> None \<and> accepted_ok ceiling policy cs acc \<and>
    (\<exists>d' g' w' D. process_stop ft io e p = Some (d', g', w') \<and> (\<forall>u. of_thread u D = acc u) \<and>
      content t w' = content t w @ pending (dr_sink d) @ concat (map (\<lambda>(u, x). the (thread_line e d os u x) @ [NL]) D))"
proof -
  have i: "lines.inputs (dr_offset d) (dr_calib d) (dr_pattern d) d" by (simp add: lines.inputs_def)
  have s: "case (dr_sink d, w) of (s, w) \<Rightarrow> writes_to t s" using d(1) by simp
  have ok: "call_ok c \<and> lines_id.admissible e (dr_offset d) (dr_calib d) (dr_pattern d) os (ca_thread c) (call_record c)"
    if "call_ok c \<and> thread_line e d os (ca_thread c) (call_record c) \<noteq> None" for c
    using that unfolding lines_id.admissible_def thread_line_def .
  note sum = lines_id.running_summary [OF run g i s d(2,3) ok pol cap ft]
  obtain d' g' w' D where f: "process_stop ft io e p = Some (d', g', w')" "\<forall>u. of_thread u D = acc u"
    "content t w' = content t w @ pending (dr_sink d) @ concat (map (\<lambda>(u, x). the (thread_line e d os u x) @ [NL]) D)"
    using sum(4) by (auto simp: lines_id.told_def thread_line_def)
  then show ?thesis using sum(1-3) by blast
qed

end

text \<open>A configured process with the in-memory sink.\<close>

lemma mem_running:
  assumes "configure_rt False bt (InMemorySink mem_new) tz cap fmt policy g0 = Some (Inr d, g1)" "policy \<in> {Drop, Block}"
    "g_segments g0 = None" "g_capacity g0 = None" "cap < 2 ^ 64" "\<not> watermark_head ft"
    "running ft io e os ceiling policy call_ok (process_init d g1 w) cs acc p" "length cs < 2 ^ 45"
  shows "call_ok c \<Longrightarrow> process_call ft e os ceiling policy c p = None \<Longrightarrow> policy = Block"
    "process_turn ft io e p \<noteq> None" "accepted_ok ceiling policy cs acc"
    "\<exists>d' g' w' D. process_stop ft io e p = Some (d', g', w') \<and> mem_good (dr_sink d', w') \<and>
      mem_seen (dr_sink d', w') = concat (map (\<lambda>(t, x). mem_id.told os t x) D) \<and> (\<forall>t. of_thread t D = acc t)"
    "call_ok c \<Longrightarrow> ca_level c \<le> ceiling \<Longrightarrow> 2 * slots (length (call_record c)) \<le> cap \<Longrightarrow>
      \<exists>n p' p''. n \<le> 1024 \<and> process_turns ft io e n p = Some p' \<and> accepts ft policy (p_threads p') (p_globals p') c \<and>
        process_call ft e os ceiling policy c p' = Some p''"
proof -
  note c = configure_classic [OF assms(1,2)]
  have st: "g_registry g1 = Some []" "g_segments g1 = None" "g_capacity g1 = Some cap"
    using c(3-5) assms(3,4) by simp_all
  have d: "mem.inputs (dr_offset d) (dr_calib d) (dr_pattern d) d" "mem_good (dr_sink d, w)" and s: "mem_seen (dr_sink d, w) = []"
    using c by (simp_all add: mem.inputs_def mem_good_def mem_seen_def)
  have ok: "call_ok c \<Longrightarrow> call_ok c \<and> mem_id.admissible os (ca_thread c) (call_record c)" for c
    by (simp add: mem_id.admissible_def)
  note sum = mem_id.running_summary [OF assms(7,8) st d c(7,8) ok assms(2) c(1,2) assms(5,6), unfolded s append_Nil]
  show "call_ok c \<Longrightarrow> process_call ft e os ceiling policy c p = None \<Longrightarrow> policy = Block"
    "process_turn ft io e p \<noteq> None" "accepted_ok ceiling policy cs acc"
    "\<exists>d' g' w' D. process_stop ft io e p = Some (d', g', w') \<and> mem_good (dr_sink d', w') \<and>
      mem_seen (dr_sink d', w') = concat (map (\<lambda>(t, x). mem_id.told os t x) D) \<and> (\<forall>t. of_thread t D = acc t)"
    "call_ok c \<Longrightarrow> ca_level c \<le> ceiling \<Longrightarrow> 2 * slots (length (call_record c)) \<le> cap \<Longrightarrow>
      \<exists>n p' p''. n \<le> 1024 \<and> process_turns ft io e n p = Some p' \<and> accepts ft policy (p_threads p') (p_globals p') c \<and>
        process_call ft e os ceiling policy c p' = Some p''"
    by (rule sum; assumption)+
qed

lemma configure_pattern:
  assumes "configure_rt fifo bt s tz cap fmt policy g = Some (Inr d, g1)"
  shows "template_parse (if fmt = [] then DEFAULT_LINE_PATTERN else fmt) = Inr (dr_pattern d)"
  using assms by (auto simp: configure_rt_def drain_new_def install_segments_def Let_def split: if_splits prod.splits bool.splits sum.splits option.splits)

lemma of_thread_nothing: "\<forall>t. of_thread t D = [] \<Longrightarrow> D = []"
proof (cases D)
  case (Cons q D')
  assume "\<forall>t. of_thread t D = []"
  then have "of_thread (fst q) D = []" by blast
  then show ?thesis by (simp add: Cons of_thread_def)
qed

lemma of_thread_one: "\<forall>t. of_thread t D = (if t = u then [x] else []) \<Longrightarrow> D = [(u, x)]"
proof (cases D)
  case (Cons q D')
  assume a: "\<forall>t. of_thread t D = (if t = u then [x] else [])"
  have "of_thread (fst q) D = snd q # of_thread (fst q) D'" by (simp add: Cons of_thread_def)
  then have q: "q = (u, x)" using a by (cases q) (auto split: if_splits)
  have "of_thread t D' = []" for t using spec [OF a, of t] by (auto simp: Cons q of_thread_def split: if_splits)
  then show ?thesis using of_thread_nothing [of D'] by (simp add: Cons q)
qed (auto simp: of_thread_def dest: spec [of _ u])

end
