(* ===== verification/Segmented.thy ===== *)
theory Segmented
  imports Running
begin

text \<open>
  A process under the segmented policies. A segment that is full is handed to the drain, still
  registered, and the thread goes on in another one: a fresh one under Quill, one of the pool under
  NanoLog, or, when the pool is empty, its own, after formatting what it holds into the queue of
  lines. The drain retires a handed-off segment once it is empty and returns it to the pool if it
  came from there. The invariant accounts for every record: delivered, in a registered segment, or
  in the queue.
\<close>

section \<open>Segments\<close>

text \<open>A segment of thread \<open>t\<close>, its current one or one handed off.\<close>

definition segment_ring ::
  "features \<Rightarrow> nat \<Rightarrow> nat \<Rightarrow> (nat \<Rightarrow> os_thread) \<Rightarrow> (nat \<Rightarrow> bytes \<Rightarrow> bool) \<Rightarrow> nat \<Rightarrow> ring \<Rightarrow> bytes list \<Rightarrow> bool"
where
  "segment_ring ft cap k os ok t r rs \<longleftrightarrow> ring_holds ft k r rs \<and> rb_capacity r = cap \<and>
     \<not> rb_helper_reserved r \<and> \<not> rb_recycled r \<and> \<not> rb_draining r \<and>
     rb_thread_id r = get_stable_thread_id (os t) \<and> rb_thread_name r = thread_display_name (os t) \<and> list_all (ok t) rs"

text \<open>An empty segment about to be used, and what a spare of the pool has to be for that.\<close>

definition blank :: "features \<Rightarrow> nat \<Rightarrow> nat \<Rightarrow> ring \<Rightarrow> bool" where
  "blank ft cap k r \<longleftrightarrow> ring_holds ft k r [] \<and> undrained ft cap r 0 \<and> \<not> rb_handed_off r \<and>
     \<not> rb_helper_reserved r \<and> \<not> rb_recycled r \<and> \<not> rb_draining r"

definition segment_store :: "nat \<Rightarrow> ring \<Rightarrow> bool" where
  "segment_store cap r \<longleftrightarrow> ring_wf r \<and> rb_capacity r = cap"

lemma blank_reset:
  assumes "segment_store cap r" "\<not> watermark_head ft" "k < 2 ^ 46"
  shows "blank ft cap k (reset_for_reuse r)"
proof -
  have "ring_wf (reset_for_reuse r)" "0 < cap" using assms(1) by (auto simp: segment_store_def ring_wf_def reset_for_reuse_def SLOT_SIZE_def CACHE_LINE_SIZE_def)
  then show ?thesis using assms
    by (simp add: blank_def ring_holds_def ring_view_def drain_view_def undrained_def producer_head_def segment_store_def Let_def frames_nil)
      (simp add: reset_for_reuse_def frames_nil)
qed

lemma store_fresh:
  assumes "is_power_of_two cap" "SLOT_SIZE \<le> cap" "cap < 2 ^ 64"
  shows "with_capacity_arena cap b = Some (from_storage (replicate cap 0) cap b)"
    "segment_store cap (from_storage (replicate cap 0) cap b)"
    "reset_for_reuse (from_storage (replicate cap 0) cap b) = from_storage (replicate cap 0) cap b"
  using assms by (simp_all add: with_capacity_arena_def segment_store_def ring_wf_def) (simp_all add: from_storage_def reset_for_reuse_def)

lemma blank_fresh:
  assumes "is_power_of_two cap" "SLOT_SIZE \<le> cap" "cap < 2 ^ 64" "\<not> watermark_head ft" "k < 2 ^ 46"
  shows "blank ft cap k (from_storage (replicate cap 0) cap b)"
  using blank_reset [OF store_fresh(2) [OF assms(1-3)] assms(4,5), of b] store_fresh(3) [OF assms(1-3)] by simp

lemma blank_info [simp]: "blank ft cap k (set_serial s (set_thread_info i nm r)) = blank ft cap k r"
  by (simp add: blank_def) (simp add: set_serial_def set_thread_info_def)

lemma blank_segment:
  assumes "blank ft cap k r"
  shows "segment_ring ft cap k os ok t (set_serial s (set_thread_info (get_stable_thread_id (os t)) (thread_display_name (os t)) r)) []"
    "\<not> rb_handed_off (set_serial s (set_thread_info i nm r))"
  using assms by (simp_all add: blank_def segment_ring_def) (simp_all add: set_serial_def set_thread_info_def undrained_def)

lemma segment_facts:
  "segment_ring ft cap (Suc k) os ok t r rs \<Longrightarrow> segment_ring ft cap k os ok t r rs"
  "segment_ring ft cap k os ok t (mark_handed_off r) rs = segment_ring ft cap k os ok t r rs"
  "segment_ring ft cap k os ok t r rs \<Longrightarrow> segment_ring ft cap k os ok t (drained r) []"
  "segment_ring ft cap k os ok t r rs \<Longrightarrow> segment_store cap (drained r)"
  "rb_handed_off (drained r) = rb_handed_off r" "rb_helper_reserved (drained r) = rb_helper_reserved r"
  "rb_recyclable (drained r) = rb_recyclable r" "rb_recycled (drained r) = rb_recycled r"
  using ring_holds_less holds_drain(2) [of ft k r rs]
  by (simp_all add: segment_ring_def) (auto simp: mark_handed_off_def drained_def segment_store_def ring_holds_def ring_view_def ring_wf_def)

lemma segment_put:
  assumes "segment_ring ft cap (Suc k) os ok t r rs" "wire_ok x" "ring_put ft policy x r = Some (r', b)" "ok t x"
  shows "segment_ring ft cap k os ok t r' (if b then rs @ [x] else rs)" "rb_handed_off r' = rb_handed_off r"
proof -
  have h: "ring_holds ft (Suc k) r rs" using assms(1) by (simp add: segment_ring_def)
  obtain d c p where r': "r' = r\<lparr>rb_data := d, rb_tail_cache := c, rb_head := p\<rparr>" using put_changes [OF h assms(2,3)] by blast
  have "ring_holds ft k r' (if b then rs @ [x] else rs)"
    using ring_put_accepts [OF h assms(2)] ring_put_refuses [OF h assms(2)] ring_holds_less assms(3) by (cases b) auto
  then show "segment_ring ft cap k os ok t r' (if b then rs @ [x] else rs)" using assms(1,4) by (auto simp: segment_ring_def r')
  show "rb_handed_off r' = rb_handed_off r" by (simp add: r')
qed

section \<open>What a helper makes of a segment\<close>

text \<open>The payload of a record in the queue: the record itself for a raw sink, else its line.\<close>

definition queued :: "env \<Rightarrow> segments \<Rightarrow> (nat \<Rightarrow> os_thread) \<Rightarrow> nat \<times> bytes \<Rightarrow> bytes \<times> level" where
  "queued e sg os q = (case q of (t, x) \<Rightarrow>
     (if sg_raw sg then x
      else the (decode_and_format e x (sg_offset sg) (sg_calib sg) (sg_pattern sg) (get_stable_thread_id (os t)) (thread_display_name (os t)) []),
      record_level x))"

definition payable :: "env \<Rightarrow> segments \<Rightarrow> (nat \<Rightarrow> os_thread) \<Rightarrow> nat \<Rightarrow> bytes \<Rightarrow> bool" where
  "payable e sg os t x \<longleftrightarrow> sg_raw sg \<or>
     decode_and_format e x (sg_offset sg) (sg_calib sg) (sg_pattern sg) (get_stable_thread_id (os t)) (thread_display_name (os t)) [] \<noteq> None"

lemma collect_lines:
  assumes "list_all (payable e sg os t) rs" "rb_thread_id r = get_stable_thread_id (os t)" "rb_thread_name r = thread_display_name (os t)"
  shows "deliver_all (collect e (sg_raw sg) (sg_offset sg) (sg_calib sg) (sg_pattern sg) r) rs ls =
    Some (ls @ map (\<lambda>x. queued e sg os (t, x)) rs)"
  using assms by (induction rs arbitrary: ls) (auto simp: collect_def payable_def queued_def)

lemma format_own_segment:
  assumes seg: "segment_ring ft cap k os ok t r rs" and ok: "list_all (payable e sg os t) rs"
    and at: "h_cell h a = reserve_for_helper (mark_handed_off r)"
    and ft: "\<not> watermark_head ft" "j < 2 ^ 46"
  shows "\<exists>r0. take_pooled ft e (Some a) live sg h =
      Some (Some a, push_lines (map (\<lambda>x. queued e sg os (t, x)) rs) sg, h\<lparr>h_cell := (h_cell h)(a := r0)\<rparr>) \<and> blank ft cap j r0"
proof -
  let ?r = "reserve_for_helper (mark_handed_off r)"
  have h: "ring_holds ft k ?r rs" "\<not> rb_draining ?r" "rb_capacity ?r = cap"
    "rb_thread_id ?r = get_stable_thread_id (os t)" "rb_thread_name ?r = thread_display_name (os t)"
    using seg by (simp_all add: segment_ring_def) (simp_all add: reserve_for_helper_def mark_handed_off_def)
  have "format_segment ft e a (sg_raw sg) (sg_offset sg) (sg_calib sg) (sg_pattern sg) h =
      Some (map (\<lambda>x. queued e sg os (t, x)) rs, on_ring a (\<lambda>_. emptied ?r) h)"
    using holds_inner(1) [OF h(1), of "collect e (sg_raw sg) (sg_offset sg) (sg_calib sg) (sg_pattern sg) ?r" "[]"]
      collect_lines [OF ok h(4,5), of "[]"] h(2) at by (simp add: format_segment_def)
  note tp = take_pooled_helper [OF this, of live]
  have "segment_store cap (emptied ?r)"
    using holds_inner(2) [OF h(1)] h(3) by (simp add: segment_store_def ring_holds_def ring_view_def) (simp add: emptied_def)
  then have "blank ft cap j (reset_for_reuse (emptied ?r))" by (rule blank_reset [OF _ ft])
  moreover have "reset_for_reuse (reset_for_reuse (emptied ?r)) = reset_for_reuse (emptied ?r)" by (simp add: reset_for_reuse_def)
  ultimately show ?thesis using tp by (intro exI [of _ "reset_for_reuse (emptied ?r)"]) (simp add: on_ring_def)
qed

section \<open>A call, with the segment it may move to\<close>

lemma blank_takes:
  assumes "blank ft cap (Suc k) r" "wire_ok x" "slots (length x) < cap" "policy \<noteq> Block"
  shows "\<exists>r'. ring_put ft policy x r = Some (r', True)"
proof -
  have h: "ring_holds ft (Suc k) r []" "undrained ft cap r 0" using assms(1) by (auto simp: blank_def)
  obtain r' b where p: "ring_put ft policy x r = Some (r', b)"
    using ring_put_outcome(1) [OF h(1) assms(2), of policy] assms(4) by (cases "ring_put ft policy x r") auto
  then show ?thesis using put_admits(1) [OF h(1) assms(2) h(2) p] assms(3) by auto
qed

lemma segmented_stays:
  assumes slot: "ts_buf slot = Some tb" "\<not> ts_active slot" and c: "call_ok c" "ca_level c \<le> ceiling"
    and h: "ring_holds ft (Suc k) (ring_at g (tb_ring tb)) rs" and sg: "g_segments g = Some sg" and pol: "policy \<in> {Quill, NanoLog}"
    and p: "ring_put ft policy (call_record c) (ring_at g (tb_ring tb)) = Some (r', True)"
  shows "log_call ft e [] o' (ca_time c) ceiling policy (ca_level c) (ca_site c) (ca_args c) slot g =
    Some (True, slot, update_ring (tb_ring tb) (\<lambda>_. r') g)"
proof -
  let ?x = "call_record c" let ?n = "BASE_RECORD_SIZE + length (ca_args c) + args_size (ca_args c)"
  have n: "length (ca_args c) \<le> 255" "?n \<le> MAX_RECORD_SIZE" and len: "length ?x = ?n"
    using c(1) by (simp_all add: call_ok_def call_record_def)
  obtain r v where res: "reserve ft [] (ring_at g (tb_ring tb)) ?n policy = Some (r, Some v)"
    and r': "r' = publish ft v (store_record v ?x r)" using p len by (auto simp: ring_put_def split: option.splits)
  have "handoff_loop ft e ?n policy tb g = Some (Some v, tb, update_ring (tb_ring tb) (\<lambda>_. r) g)"
    using res sg by (subst handoff_loop.simps) simp
  then have "reserve_with_policy ft e [] tb ?n policy g = Some (Some v, tb, update_ring (tb_ring tb) (\<lambda>_. r) g)"
    using pol sg by (auto simp: reserve_with_policy_def)
  moreover have "slot\<lparr>ts_active := False, ts_buf := Some tb\<rparr> = slot" using slot by (cases slot) simp
  ultimately show ?thesis
    using slot n(2) write_slot_put [OF h n(1) refl n(2) res, of "ca_level c" "ca_time c" "ca_site c"] r'
    unfolding log_call_dispatch [OF c(2) n] dispatch_def with_thread_buf_def
    by (simp add: call_record_def update_ring_def on_ring_def)
qed

lemma segmented_moves:
  fixes c :: call and g2 :: globals and tb :: thread_buf and n :: nat
  defines "x \<equiv> call_record c"
  defines "r0 \<equiv> set_serial (g_serial g2) (set_thread_info (tb_thread_id tb) (tb_thread_name tb) (ring_at g2 n))"
  assumes slot: "ts_buf slot = Some tb" "\<not> ts_active slot" and c: "call_ok c" "ca_level c \<le> ceiling" "slots (length x) < cap"
    and sg: "g_segments g = Some sg" and pol: "policy \<in> {Quill, NanoLog}" and ft: "\<not> watermark_head ft"
    and p: "ring_put ft policy x (ring_at g (tb_ring tb)) = Some (r1, False)"
    and nx: "next_segment ft e policy sg tb (update_ring (tb_ring tb) (\<lambda>_. mark_handed_off r1) g) = Some (Some n, tb1, g2)"
    and g2: "g_segments g2 = Some sg2" "g_registry g2 = Some regs" "blank ft cap (Suc k) (ring_at g2 n)"
  shows "\<exists>r2. ring_put ft policy x r0 = Some (r2, True) \<and>
    log_call ft e [] o' (ca_time c) ceiling policy (ca_level c) (ca_site c) (ca_args c) slot g =
      Some (True, slot\<lparr>ts_buf := Some (tb1\<lparr>tb_ring := n\<rparr>)\<rparr>, (update_ring n (\<lambda>_. r2) g2)
        \<lparr>g_serial := g_serial g2 + 1, g_registry := Some (if n \<in> set regs then regs else regs @ [n])\<rparr>)"
proof -
  let ?n = "BASE_RECORD_SIZE + length (ca_args c) + args_size (ca_args c)"
  have n: "length (ca_args c) \<le> 255" "?n \<le> MAX_RECORD_SIZE" and len: "length x = ?n"
    using c(1) by (simp_all add: call_ok_def call_record_def x_def)
  have x: "wire_ok x" using wire_record_ok(1) c(1) by (simp add: call_ok_def call_record_def x_def)
  have b: "blank ft cap (Suc k) r0" using g2(3) by (simp add: r0_def)
  then have h: "ring_holds ft (Suc k) r0 []" by (simp add: blank_def)
  obtain r2 where p2: "ring_put ft policy x r0 = Some (r2, True)" using blank_takes [OF b x c(3)] pol by auto
  then obtain r v where res: "reserve ft [] r0 ?n policy = Some (r, Some v)" and r2: "r2 = publish ft v (store_record v x r)"
    using len by (auto simp: ring_put_def split: option.splits)
  define g3 where "g3 = (update_ring n (set_serial (g_serial g2)) (update_ring n (set_thread_info (tb_thread_id tb) (tb_thread_name tb)) g2))
    \<lparr>g_serial := g_serial g2 + 1, g_registry := Some (if n \<in> set regs then regs else regs @ [n])\<rparr>"
  have rg: "register_ring n (update_ring n (set_thread_info (tb_thread_id tb) (tb_thread_name tb)) g2) = Some g3"
    using g2(2) by (simp add: register_ring_def g3_def)
  have at: "ring_at g3 n = r0" "g_segments g3 = Some sg2" using g2(1) by (simp_all add: g3_def r0_def)
  let ?g = "(update_ring n (\<lambda>_. r) g2)\<lparr>g_serial := g_serial g2 + 1, g_registry := Some (if n \<in> set regs then regs else regs @ [n])\<rparr>"
  have "update_ring n (\<lambda>_. r) g3 = ?g" by (simp add: g3_def update_ring_def on_ring_def)
  then have "handoff_loop ft e ?n policy (tb1\<lparr>tb_ring := n\<rparr>) g3 = Some (Some v, tb1\<lparr>tb_ring := n\<rparr>, ?g)"
    using res at by (subst handoff_loop.simps) simp
  moreover have "reserve ft [] (ring_at g (tb_ring tb)) ?n policy = Some (r1, None)"
    using p len by (auto simp: ring_put_def split: option.splits)
  ultimately have "handoff_loop ft e ?n policy tb g = Some (Some v, tb1\<lparr>tb_ring := n\<rparr>, ?g)"
    using sg nx rg ft by (subst handoff_loop.simps) (simp add: Let_def)
  then have "reserve_with_policy ft e [] tb ?n policy g = Some (Some v, tb1\<lparr>tb_ring := n\<rparr>, ?g)"
    using pol sg by (auto simp: reserve_with_policy_def)
  moreover have "slot\<lparr>ts_active := False\<rparr> = slot" using slot by (cases slot) simp
  ultimately have "log_call ft e [] o' (ca_time c) ceiling policy (ca_level c) (ca_site c) (ca_args c) slot g =
      Some (True, slot\<lparr>ts_buf := Some (tb1\<lparr>tb_ring := n\<rparr>)\<rparr>, (update_ring n (\<lambda>_. r2) g2)
        \<lparr>g_serial := g_serial g2 + 1, g_registry := Some (if n \<in> set regs then regs else regs @ [n])\<rparr>)"
    using slot n(2) write_slot_put [OF h n(1) refl n(2) res, of "ca_level c" "ca_time c" "ca_site c"] r2
    unfolding log_call_dispatch [OF c(2) n] dispatch_def with_thread_buf_def
    by (simp add: call_record_def x_def update_ring_def on_ring_def)
  then show ?thesis using p2 by blast
qed

section \<open>The next segment\<close>

lemma next_fresh:
  assumes "is_power_of_two (sg_capacity sg)" "SLOT_SIZE \<le> sg_capacity sg" "sg_capacity sg < 2 ^ 64"
  shows "next_segment ft e Quill sg tb g = Some (Some (h_next (g_heap g)), tb,
    g\<lparr>g_heap := snd (new_ring (from_storage (replicate (sg_capacity sg) 0) (sg_capacity sg) False) (g_heap g))\<rparr>)"
  using store_fresh(1) [OF assms, of False] by (simp add: next_segment_def alloc_fresh_def new_ring_def)

lemma next_spare:
  assumes "sg_spares sg \<noteq> []"
  shows "next_segment ft e NanoLog sg tb g = Some (Some (last (sg_spares sg)), tb,
    g\<lparr>g_heap := on_ring (last (sg_spares sg)) reset_for_reuse (g_heap g), g_segments := Some (sg\<lparr>sg_spares := butlast (sg_spares sg)\<rparr>)\<rparr>)"
  using assms by (simp add: next_segment_def try_take_spare_def Let_def)

lemma next_own:
  assumes sg: "sg_spares sg = []" "sg_policy sg = NanoLog"
    and seg: "segment_ring ft cap k os ok t r rs" "list_all (payable e sg os t) rs" "ring_at g (tb_ring tb) = mark_handed_off r"
    and ft: "\<not> watermark_head ft" "j < 2 ^ 46"
  shows "\<exists>r0. next_segment ft e NanoLog sg tb g = Some (Some (tb_ring tb), tb\<lparr>tb_helper := None\<rparr>,
      (update_ring (tb_ring tb) (\<lambda>_. r0) g)\<lparr>g_segments := Some (push_lines (map (\<lambda>x. queued e sg os (t, x)) rs) sg)\<rparr>) \<and> blank ft cap j r0"
proof -
  let ?h = "on_ring (tb_ring tb) reserve_for_helper (g_heap g)"
  have at: "h_cell ?h (tb_ring tb) = reserve_for_helper (mark_handed_off r)" using seg(3) by (simp add: on_ring_def)
  obtain r0 where "take_pooled ft e (Some (tb_ring tb)) (Some (rb_live (h_cell ?h (tb_ring tb)))) sg ?h =
      Some (Some (tb_ring tb), push_lines (map (\<lambda>x. queued e sg os (t, x)) rs) sg, ?h\<lparr>h_cell := (h_cell ?h)(tb_ring tb := r0)\<rparr>)"
    and b: "blank ft cap j r0"
    using format_own_segment [OF seg(1,2) at ft, of "Some (rb_live (h_cell ?h (tb_ring tb)))"] by blast
  then have "next_segment ft e NanoLog sg tb g = Some (Some (tb_ring tb), tb\<lparr>tb_helper := None\<rparr>,
      (update_ring (tb_ring tb) (\<lambda>_. r0) g)\<lparr>g_segments := Some (push_lines (map (\<lambda>x. queued e sg os (t, x)) rs) sg)\<rparr>)"
    using sg by (simp add: next_segment_def try_take_spare_def first_ring_def Let_def update_ring_def on_ring_def)
  then show ?thesis using b by blast
qed

section \<open>The invariant\<close>

text \<open>Of the pool's record only the spares \<open>sp\<close> and the queue change; \<open>Lq\<close> is what the queue holds.\<close>

definition pool_state :: "env \<Rightarrow> (nat \<Rightarrow> os_thread) \<Rightarrow> segments \<Rightarrow> nat list \<Rightarrow> (nat \<times> bytes) list \<Rightarrow> segments" where
  "pool_state e os sg sp Lq = sg\<lparr>sg_spares := sp, sg_lines := map (queued e sg os) Lq\<rparr>"

lemma pool_state_simps [simp]:
  "sg_spares (pool_state e os sg sp Lq) = sp" "sg_lines (pool_state e os sg sp Lq) = map (queued e sg os) Lq"
  "sg_capacity (pool_state e os sg sp Lq) = sg_capacity sg" "sg_policy (pool_state e os sg sp Lq) = sg_policy sg"
  "queued e (pool_state e os sg sp Lq) = queued e sg" "payable e (pool_state e os sg sp Lq) = payable e sg"
  "(pool_state e os sg sp Lq)\<lparr>sg_spares := sp'\<rparr> = pool_state e os sg sp' Lq"
  "(pool_state e os sg sp Lq)\<lparr>sg_lines := []\<rparr> = pool_state e os sg sp []"
  "push_lines (map (\<lambda>x. queued e sg os (t, x)) rs) (pool_state e os sg sp Lq) = pool_state e os sg sp (Lq @ map (Pair t) rs)"
  by (simp_all add: pool_state_def queued_def payable_def push_lines_def fun_eq_iff)

definition segmented_inv ::
  "features \<Rightarrow> nat \<Rightarrow> nat \<Rightarrow> env \<Rightarrow> (nat \<Rightarrow> os_thread) \<Rightarrow> (nat \<Rightarrow> bytes \<Rightarrow> bool) \<Rightarrow> segments \<Rightarrow> nat list \<Rightarrow> nat list
   \<Rightarrow> (nat \<Rightarrow> nat) \<Rightarrow> (nat \<Rightarrow> bytes list) \<Rightarrow> (nat \<times> bytes) list \<Rightarrow> (nat \<Rightarrow> thread_slot) \<Rightarrow> globals \<Rightarrow> bool"
where
  "segmented_inv ft cap k e os ok sg sp regs own pend Lq ths g \<longleftrightarrow>
     g_registry g = Some regs \<and> distinct regs \<and> g_segments g = Some (pool_state e os sg sp Lq) \<and>
     (\<forall>(t, x)\<in>set Lq. ok t x) \<and> distinct sp \<and> (\<forall>a\<in>set sp. a \<notin> set regs \<and> a < h_next (g_heap g) \<and> segment_store cap (ring_at g a)) \<and>
     (\<forall>a\<in>set regs. a < h_next (g_heap g) \<and> segment_ring ft cap k os ok (own a) (ring_at g a) (pend a)) \<and>
     (\<forall>t. \<not> ts_active (ths t)) \<and>
     (\<forall>t tb. ts_buf (ths t) = Some tb \<longrightarrow> tb_ring tb \<in> set regs \<and> own (tb_ring tb) = t \<and>
        \<not> rb_handed_off (ring_at g (tb_ring tb)) \<and>
        tb_thread_id tb = get_stable_thread_id (os t) \<and> tb_thread_name tb = thread_display_name (os t))"

text \<open>What waits in the registered segments, under the name of its thread.\<close>

definition in_segments :: "(nat \<Rightarrow> nat) \<Rightarrow> (nat \<Rightarrow> bytes list) \<Rightarrow> nat list \<Rightarrow> (nat \<times> bytes) list" where
  "in_segments own pend as = concat (map (\<lambda>a. map (Pair (own a)) (pend a)) as)"

lemma in_segments_mset: "mset (in_segments own pend as) = (\<Sum>a\<in>#mset as. mset (map (Pair (own a)) (pend a)))"
  by (induction as) (simp_all add: in_segments_def)

lemma in_segments_simps:
  "n \<notin> set as \<Longrightarrow> mset (in_segments (own(n := t)) (pend(n := rs)) (as @ [n])) = mset (in_segments own pend as) + mset (map (Pair t) rs)"
  "distinct as \<Longrightarrow> a \<in> set as \<Longrightarrow>
     mset (in_segments own (pend(a := rs)) as) + mset (map (Pair (own a)) (pend a)) =
     mset (in_segments own pend as) + mset (map (Pair (own a)) rs)"
  "mset as = mset as' \<Longrightarrow> mset (in_segments own pend as) = mset (in_segments own pend as')"
  "in_segments own (\<lambda>_. []) as = []"
proof -
  have same: "in_segments (own(n := t)) (pend(n := rs)) as = in_segments own pend as" "in_segments own (pend(n := rs)) as = in_segments own pend as"
    if "n \<notin> set as" for n t rs as own pend using that by (auto simp: in_segments_def intro!: arg_cong [where f = concat])
  show "n \<notin> set as \<Longrightarrow> mset (in_segments (own(n := t)) (pend(n := rs)) (as @ [n])) = mset (in_segments own pend as) + mset (map (Pair t) rs)"
    using same(1) [of n as own t pend rs] by (simp add: in_segments_def)
  show "distinct as \<Longrightarrow> a \<in> set as \<Longrightarrow>
      mset (in_segments own (pend(a := rs)) as) + mset (map (Pair (own a)) (pend a)) =
      mset (in_segments own pend as) + mset (map (Pair (own a)) rs)"
  proof (induction as)
    case (Cons b as)
    have "in_segments own f (b # as) = map (Pair (own b)) (f b) @ in_segments own f as" for f by (simp add: in_segments_def)
    then show ?case using Cons same(2) [of a as own pend rs]
      by (cases "b = a") (simp_all add: fun_upd_def [symmetric])
  qed simp
  show "mset as = mset as' \<Longrightarrow> mset (in_segments own pend as) = mset (in_segments own pend as')"
    by (simp add: in_segments_mset)
  show "in_segments own (\<lambda>_. []) as = []" by (simp add: in_segments_def)
qed

text \<open>A thread moves on to a segment that was not registered.\<close>

lemma segmented_moves_on:
  assumes inv: "segmented_inv ft cap k e os ok sg sp regs own pend Lq ths g" and n: "n \<notin> set regs"
    and g': "g_registry g' = Some (regs @ [n])" "g_segments g' = Some (pool_state e os sg sp' Lq)"
      "h_next (g_heap g) \<le> h_next (g_heap g')" "n < h_next (g_heap g')"
    and sp: "distinct sp'" "set sp' \<subseteq> set sp" "n \<notin> set sp'" "\<forall>a\<in>set sp'. ring_at g' a = ring_at g a"
    and old: "\<forall>a\<in>set regs. segment_ring ft cap k' os ok (own a) (ring_at g' a) (pend a) \<and>
      (own a \<noteq> t \<longrightarrow> rb_handed_off (ring_at g' a) = rb_handed_off (ring_at g a))"
    and new: "segment_ring ft cap k' os ok t (ring_at g' n) rs" "\<not> rb_handed_off (ring_at g' n)"
    and tb: "tb_ring tb = n" "tb_thread_id tb = get_stable_thread_id (os t)" "tb_thread_name tb = thread_display_name (os t)"
  shows "segmented_inv ft cap k' e os ok sg sp' (regs @ [n]) (own(n := t)) (pend(n := rs)) Lq (ths(t := (ths t)\<lparr>ts_buf := Some tb\<rparr>)) g'"
proof -
  have "\<forall>a\<in>set regs. a < h_next (g_heap g')" using inv g'(3) by (auto simp: segmented_inv_def)
  moreover have "\<forall>a\<in>set sp'. a \<notin> set (regs @ [n]) \<and> a < h_next (g_heap g') \<and> segment_store cap (ring_at g' a)"
    using inv sp g'(3) by (auto simp: segmented_inv_def dest!: subsetD)
  moreover have "tb_ring tb' \<in> set regs \<and> tb_ring tb' \<noteq> n \<and> own (tb_ring tb') = u \<and> \<not> rb_handed_off (ring_at g' (tb_ring tb'))"
    if "ts_buf (ths u) = Some tb'" "u \<noteq> t" for u tb' using inv that old n by (auto simp: segmented_inv_def)
  moreover have "a \<noteq> n" if "a \<in> set regs" for a using that n by blast
  ultimately show ?thesis using inv n g' old new tb sp(1) unfolding segmented_inv_def by simp
qed

section \<open>Calls keep the invariant\<close>

text \<open>The records of the calls below the ceiling, under their threads.\<close>

definition logged :: "level \<Rightarrow> call list \<Rightarrow> (nat \<times> bytes) list" where
  "logged ceiling cs = map (\<lambda>c. (ca_thread c, call_record c)) (filter (\<lambda>c. ca_level c \<le> ceiling) cs)"

lemma logged_append: "logged ceiling (cs @ ds) = logged ceiling cs @ logged ceiling ds"
  by (simp add: logged_def)

text \<open>The threads that have logged something below the ceiling.\<close>

definition loggers :: "level \<Rightarrow> call list \<Rightarrow> nat set" where
  "loggers ceiling cs = ca_thread ` {c \<in> set cs. ca_level c \<le> ceiling}"

lemma loggers_append: "loggers ceiling (cs @ [c]) = (if ca_level c \<le> ceiling then insert (ca_thread c) (loggers ceiling cs) else loggers ceiling cs)"
  by (auto simp: loggers_def)

lemma segmented_call_initialised:
  fixes e :: env and o' :: os_thread
  assumes inv: "segmented_inv ft cap (Suc k) e os ok sg sp regs own pend Lq ths g" and t: "ts_buf (ths (ca_thread c)) = Some tb"
    and c: "call_ok c" "ca_level c \<le> ceiling" "slots (length (call_record c)) < cap" "ok (ca_thread c) (call_record c)"
    and pol: "policy \<in> {Quill, NanoLog}" "sg_policy sg = policy" "sg_capacity sg = cap"
    and pay: "\<forall>t x. ok t x \<longrightarrow> payable e sg os t x"
    and cap: "is_power_of_two cap" "SLOT_SIZE \<le> cap" "cap < 2 ^ 64" and ft: "\<not> watermark_head ft" "Suc k < 2 ^ 46"
  shows "\<exists>slot' g' sp' regs' own' pend' Lq'.
    log_call ft e [] o' (ca_time c) ceiling policy (ca_level c) (ca_site c) (ca_args c) (ths (ca_thread c)) g = Some (True, slot', g') \<and>
    segmented_inv ft cap k e os ok sg sp' regs' own' pend' Lq' (ths(ca_thread c := slot')) g' \<and> set regs \<subseteq> set regs' \<and>
    mset Lq' + mset (in_segments own' pend' regs') = add_mset (ca_thread c, call_record c) (mset Lq + mset (in_segments own pend regs)) \<and>
    ts_buf slot' \<noteq> None \<and> (policy = NanoLog \<longrightarrow> h_next (g_heap g') \<le> h_next (g_heap g))"
proof -
  let ?t = "ca_thread c" let ?a = "tb_ring tb" let ?x = "call_record c" let ?slot = "ths (ca_thread c)"
  let ?i = "get_stable_thread_id (os ?t)" let ?nm = "thread_display_name (os ?t)"
  let ?sg = "pool_state e os sg sp Lq" let ?log = "log_call ft e [] o' (ca_time c) ceiling policy (ca_level c) (ca_site c) (ca_args c) ?slot g"
  have S: "g_segments g = Some ?sg" "g_registry g = Some regs" "distinct regs" "\<not> ts_active ?slot"
    and rings: "\<forall>a\<in>set regs. a < h_next (g_heap g) \<and> segment_ring ft cap (Suc k) os ok (own a) (ring_at g a) (pend a)"
    and spares: "distinct sp" "\<forall>a\<in>set sp. a \<notin> set regs \<and> a < h_next (g_heap g) \<and> segment_store cap (ring_at g a)"
    and me: "?a \<in> set regs" "own ?a = ?t" "\<not> rb_handed_off (ring_at g ?a)" "tb_thread_id tb = ?i" "tb_thread_name tb = ?nm"
    using inv t by (auto simp: segmented_inv_def)
  have x: "wire_ok ?x" using wire_record_ok(1) c(1) by (simp add: call_ok_def call_record_def)
  have s: "segment_ring ft cap (Suc k) os ok ?t (ring_at g ?a) (pend ?a)" using rings me by auto
  then have h: "ring_holds ft (Suc k) (ring_at g ?a) (pend ?a)" by (simp add: segment_ring_def)
  obtain r1 b where p: "ring_put ft policy ?x (ring_at g ?a) = Some (r1, b)"
    using ring_put_outcome(1) [OF h x, of policy] pol(1) by (cases "ring_put ft policy ?x (ring_at g ?a)") auto
  note r1 = segment_put [OF s x p c(4)]
  show ?thesis
  proof (cases b)
    case True
    then have l: "?log = Some (True, ?slot, update_ring ?a (\<lambda>_. r1) g)"
      using segmented_stays [OF t S(4) c(1,2) h S(1) pol(1)] p by simp
    have "segmented_inv ft cap k e os ok sg sp regs own (pend(?a := pend ?a @ [?x])) Lq (ths(?t := ?slot)) (update_ring ?a (\<lambda>_. r1) g)"
      using inv r1 me segment_facts(1) True unfolding segmented_inv_def by (auto split: if_splits)
    moreover have "mset Lq + mset (in_segments own (pend(?a := pend ?a @ [?x])) regs) =
        add_mset (?t, ?x) (mset Lq + mset (in_segments own pend regs))"
      using in_segments_simps(2) [OF S(3) me(1), of own pend "pend ?a @ [?x]"] me(2) by simp
    ultimately show ?thesis using l t
      by - (rule exI [of _ ?slot], rule exI [of _ "update_ring ?a (\<lambda>_. r1) g"], rule exI [of _ sp],
            rule exI [of _ regs], rule exI [of _ own], rule exI [of _ "pend(?a := pend ?a @ [?x])"],
            rule exI [of _ Lq], simp del: fun_upd_apply)
  next
    case False
    then have p: "ring_put ft policy ?x (ring_at g ?a) = Some (r1, False)" and r1: "segment_ring ft cap k os ok ?t r1 (pend ?a)"
      using p r1 by simp_all
    let ?g1 = "update_ring ?a (\<lambda>_. mark_handed_off r1) g"
    note moves = segmented_moves [OF t S(4) c(1-3) S(1) pol(1) ft(1) p, where e = e and o' = o']
    text \<open>The thread moves to a segment that was not registered.\<close>
    have on: ?thesis if nx: "next_segment ft e policy ?sg tb ?g1 = Some (Some n, tb, g2)"
      and g2: "g_segments g2 = Some (pool_state e os sg sp' Lq)" "g_registry g2 = Some regs" "blank ft cap (Suc k) (ring_at g2 n)"
      and n: "n \<notin> set regs" "n < h_next (g_heap g2)" "h_next (g_heap g) \<le> h_next (g_heap g2)" "\<forall>b. b \<noteq> n \<longrightarrow> ring_at g2 b = ring_at ?g1 b"
      and sp': "distinct sp'" "set sp' \<subseteq> set sp" "n \<notin> set sp'" and same: "policy = NanoLog \<longrightarrow> h_next (g_heap g2) = h_next (g_heap g)"
      for n g2 sp'
    proof -
      obtain r2 where p2: "ring_put ft policy ?x (set_serial (g_serial g2) (set_thread_info ?i ?nm (ring_at g2 n))) = Some (r2, True)"
        and l: "?log = Some (True, ?slot\<lparr>ts_buf := Some (tb\<lparr>tb_ring := n\<rparr>)\<rparr>,
          (update_ring n (\<lambda>_. r2) g2)\<lparr>g_serial := g_serial g2 + 1, g_registry := Some (regs @ [n])\<rparr>)"
        using moves [OF nx g2] n(1) unfolding me(4,5) by auto
      let ?g = "(update_ring n (\<lambda>_. r2) g2)\<lparr>g_serial := g_serial g2 + 1, g_registry := Some (regs @ [n])\<rparr>"
      note r2 = segment_put [OF blank_segment(1) [OF g2(3), of os ok ?t] x p2 c(4)]
      have ne: "a \<noteq> n" if "a \<in> set regs" for a using that n(1) by blast
      have "\<forall>a\<in>set regs. segment_ring ft cap k os ok (own a) (ring_at ?g a) (pend a) \<and>
          (own a \<noteq> ?t \<longrightarrow> rb_handed_off (ring_at ?g a) = rb_handed_off (ring_at g a))"
        using rings r1 me ne segment_facts(1,2) n(4) by auto
      moreover have "\<forall>a\<in>set sp'. ring_at ?g a = ring_at g a" using sp' spares(2) me(1) n(4) by auto
      moreover have "segment_ring ft cap k os ok ?t (ring_at ?g n) [?x]" "\<not> rb_handed_off (ring_at ?g n)"
        using r2 blank_segment(2) [OF g2(3)] by simp_all
      ultimately have "segmented_inv ft cap k e os ok sg sp' (regs @ [n]) (own(n := ?t)) (pend(n := [?x])) Lq
          (ths(?t := ?slot\<lparr>ts_buf := Some (tb\<lparr>tb_ring := n\<rparr>)\<rparr>)) ?g"
        using segmented_moves_on [OF inv n(1), of ?g sp' k ?t "[?x]" "tb\<lparr>tb_ring := n\<rparr>"] g2(1) n(2,3) sp' me(4,5) by simp
      then show ?thesis using l in_segments_simps(1) [OF n(1), of own ?t pend "[?x]"] same
        by - (rule exI [of _ "?slot\<lparr>ts_buf := Some (tb\<lparr>tb_ring := n\<rparr>)\<rparr>"],
              rule exI [of _ ?g], rule exI [of _ sp'], rule exI [of _ "regs @ [n]"], rule exI [of _ "own(n := ?t)"],
              rule exI [of _ "pend(n := [?x])"], rule exI [of _ Lq], simp add: subset_insertI del: fun_upd_apply)
    qed
    consider (fresh) "policy = Quill" | (spare) "policy = NanoLog" "sp \<noteq> []" | (own) "policy = NanoLog" "sp = []" using pol(1) by blast
    then show ?thesis
    proof cases
      case fresh
      let ?n = "h_next (g_heap g)" let ?r0 = "from_storage (replicate cap 0) cap False"
      have "next_segment ft e policy ?sg tb ?g1 = Some (Some ?n, tb, ?g1\<lparr>g_heap := snd (new_ring ?r0 (g_heap ?g1))\<rparr>)"
        using next_fresh [of ?sg ft e tb ?g1] cap fresh pol(3) by simp
      then show ?thesis
        by (rule on [where sp' = sp]) (use S rings spares fresh blank_fresh [OF cap ft, of False] in auto)
    next
      case spare
      have l: "last sp \<in> set sp" "last sp \<notin> set (butlast sp)" "distinct (butlast sp)" "set (butlast sp) \<subseteq> set sp"
        using spare(2) spares(1) by (cases sp rule: rev_cases; auto)+
      have nx: "next_segment ft e policy ?sg tb ?g1 = Some (Some (last sp), tb,
          ?g1\<lparr>g_heap := on_ring (last sp) reset_for_reuse (g_heap ?g1), g_segments := Some (pool_state e os sg (butlast sp) Lq)\<rparr>)"
        using next_spare [of ?sg ft e tb ?g1] spare by simp
      have b: "blank ft cap (Suc k) (reset_for_reuse (ring_at ?g1 (last sp)))"
        using blank_reset [OF _ ft, of cap "ring_at g (last sp)"] l(1) spares(2) me(1) by auto
      show ?thesis
        by (rule on [OF nx, where sp' = "butlast sp"]) (use S l b spares me(1) in \<open>auto simp: on_ring_def\<close>)
    next
      case own
      obtain r0 where nx: "next_segment ft e NanoLog ?sg tb ?g1 = Some (Some ?a, tb\<lparr>tb_helper := None\<rparr>,
          (update_ring ?a (\<lambda>_. r0) ?g1)\<lparr>g_segments := Some (pool_state e os sg sp (Lq @ map (Pair ?t) (pend ?a)))\<rparr>)"
        and b: "blank ft cap (Suc k) r0"
        using next_own [of ?sg ft cap k os ok ?t r1 "pend ?a" e ?g1 tb "Suc k"] own pol(2) r1 pay ft
        by (auto simp: segment_ring_def list_all_iff)
      let ?g2 = "(update_ring ?a (\<lambda>_. r0) ?g1)\<lparr>g_segments := Some (pool_state e os sg sp (Lq @ map (Pair ?t) (pend ?a)))\<rparr>"
      have g2: "g_segments ?g2 = Some (pool_state e os sg sp (Lq @ map (Pair ?t) (pend ?a)))" "g_registry ?g2 = Some regs"
        "blank ft cap (Suc k) (ring_at ?g2 ?a)" using S b by simp_all
      obtain r2 where p2: "ring_put ft policy ?x (set_serial (g_serial ?g2) (set_thread_info ?i ?nm (ring_at ?g2 ?a))) = Some (r2, True)"
        and l: "?log = Some (True, ?slot\<lparr>ts_buf := Some (tb\<lparr>tb_helper := None, tb_ring := ?a\<rparr>)\<rparr>,
          (update_ring ?a (\<lambda>_. r2) ?g2)\<lparr>g_serial := g_serial ?g2 + 1, g_registry := Some regs\<rparr>)"
        using moves [OF _ g2, of "tb\<lparr>tb_helper := None\<rparr>"] nx own(1) me(1) unfolding me(4,5) by auto
      let ?g = "(update_ring ?a (\<lambda>_. r2) ?g2)\<lparr>g_serial := g_serial ?g2 + 1, g_registry := Some regs\<rparr>"
      note r2 = segment_put [OF blank_segment(1) [OF g2(3), of os ok ?t] x p2 c(4)]
      let ?tb = "tb\<lparr>tb_helper := None, tb_ring := ?a\<rparr>"
      have okp: "\<forall>y\<in>set (pend ?a). ok ?t y" using r1 by (simp add: segment_ring_def list_all_iff)
      have "segmented_inv ft cap k e os ok sg sp regs own (pend(?a := [?x])) (Lq @ map (Pair ?t) (pend ?a))
          (ths(?t := ?slot\<lparr>ts_buf := Some ?tb\<rparr>)) ?g"
        using inv r2 blank_segment(2) [OF g2(3)] me segment_facts(1) t okp unfolding segmented_inv_def by (auto split: if_splits)
      moreover have "mset (Lq @ map (Pair ?t) (pend ?a)) + mset (in_segments own (pend(?a := [?x])) regs) =
          add_mset (?t, ?x) (mset Lq + mset (in_segments own pend regs))"
        using in_segments_simps(2) [OF S(3) me(1), of own pend "[?x]"] me(2) by (simp add: ac_simps del: mset_map)
      ultimately show ?thesis using l
        by - (rule exI [of _ "?slot\<lparr>ts_buf := Some ?tb\<rparr>"], rule exI [of _ ?g], rule exI [of _ sp],
              rule exI [of _ regs], rule exI [of _ own], rule exI [of _ "pend(?a := [?x])"],
              rule exI [of _ "Lq @ map (Pair ?t) (pend ?a)"], simp del: fun_upd_apply mset_append)
    qed
  qed
qed

text \<open>The first call of a thread takes a spare segment, or carves one.\<close>

lemma segmented_init:
  assumes inv: "segmented_inv ft cap k e os ok sg sp regs own pend Lq ths g" and sgc: "sg_capacity sg = cap"
    and cap: "is_power_of_two cap" "SLOT_SIZE \<le> cap" "cap < 2 ^ 64" and ft: "\<not> watermark_head ft" "k < 2 ^ 46"
  shows "\<exists>tb g' n sp'. init_thread_buf (os t) g = Some (tb, g') \<and> n \<notin> set regs \<and> h_next (g_heap g') \<le> Suc (h_next (g_heap g)) \<and>
    segmented_inv ft cap k e os ok sg sp' (regs @ [n]) (own(n := t)) (pend(n := [])) Lq (ths(t := (ths t)\<lparr>ts_buf := Some tb\<rparr>)) g'"
proof -
  let ?i = "get_stable_thread_id (os t)" let ?nm = "thread_display_name (os t)" let ?sg = "pool_state e os sg sp Lq"
  have S: "g_segments g = Some ?sg" "g_registry g = Some regs"
    and rings: "\<forall>a\<in>set regs. a < h_next (g_heap g) \<and> segment_ring ft cap k os ok (own a) (ring_at g a) (pend a)"
    and spares: "distinct sp" "\<forall>a\<in>set sp. a \<notin> set regs \<and> a < h_next (g_heap g) \<and> segment_store cap (ring_at g a)"
    using inv by (auto simp: segmented_inv_def)
  have on: ?thesis if i: "initial_ring ?sg (g_heap g) = Some (n, pool_state e os sg sp' Lq, h)"
      and n: "n \<notin> set regs" "n < h_next h" "h_next (g_heap g) \<le> h_next h" "h_next h \<le> Suc (h_next (g_heap g))"
      and h: "\<forall>b. b \<noteq> n \<longrightarrow> h_cell h b = ring_at g b" "blank ft cap k (h_cell h n)"
      and sp': "distinct sp'" "set sp' \<subseteq> set sp" "n \<notin> set sp'" for n sp' h
  proof -
    define tb where "tb = \<lparr>tb_ring = n, tb_helper = None, tb_thread_id = ?i, tb_thread_name = ?nm\<rparr>"
    define g' where "g' = (update_ring n (set_serial (g_serial g)) (update_ring n (set_thread_info ?i ?nm)
      (g\<lparr>g_segments := Some (pool_state e os sg sp' Lq), g_heap := h\<rparr>)))\<lparr>g_serial := g_serial g + 1, g_registry := Some (regs @ [n])\<rparr>"
    have init: "init_thread_buf (os t) g = Some (tb, g')"
      using i S n(1) by (simp add: init_thread_buf_def register_ring_def tb_def g'_def Let_def)
    have cells: "ring_at g' b = (if b = n then set_serial (g_serial g) (set_thread_info ?i ?nm (h_cell h n)) else ring_at g b)" for b
      using h(1) by (simp add: g'_def)
    have "\<forall>a\<in>set regs. segment_ring ft cap k os ok (own a) (ring_at g' a) (pend a) \<and>
        (own a \<noteq> t \<longrightarrow> rb_handed_off (ring_at g' a) = rb_handed_off (ring_at g a))" using rings n(1) by (auto simp: cells)
    moreover have "\<forall>a\<in>set sp'. ring_at g' a = ring_at g a" using sp'(3) by (auto simp: cells)
    moreover have "g_registry g' = Some (regs @ [n])" "g_segments g' = Some (pool_state e os sg sp' Lq)" "h_next (g_heap g') = h_next h"
      by (simp_all add: g'_def)
    ultimately have "segmented_inv ft cap k e os ok sg sp' (regs @ [n]) (own(n := t)) (pend(n := [])) Lq (ths(t := (ths t)\<lparr>ts_buf := Some tb\<rparr>)) g'"
      using segmented_moves_on [OF inv n(1), of g' sp' k t "[]" tb] n(2,3) sp' blank_segment [OF h(2)] cells by (simp add: tb_def)
    then show ?thesis using init n(1,4) \<open>h_next (g_heap g') = h_next h\<close> by fastforce
  qed
  show ?thesis
  proof (cases "sp = []")
    case True
    have "initial_ring ?sg (g_heap g) = Some (h_next (g_heap g), pool_state e os sg sp Lq,
        snd (new_ring (from_storage (replicate cap 0) cap False) (g_heap g)))"
      using store_fresh(1) [OF cap] sgc True by (simp add: initial_ring_def try_take_spare_def alloc_fresh_def new_ring_def)
    then show ?thesis by (rule on) (use rings True blank_fresh [OF cap ft] in auto)
  next
    case False
    have l: "last sp \<in> set sp" "last sp \<notin> set (butlast sp)" "distinct (butlast sp)" "set (butlast sp) \<subseteq> set sp"
      using False spares(1) by (cases sp rule: rev_cases; auto)+
    have "initial_ring ?sg (g_heap g) = Some (last sp, pool_state e os sg (butlast sp) Lq, on_ring (last sp) reset_for_reuse (g_heap g))"
      using False by (simp add: initial_ring_def try_take_spare_def Let_def)
    then show ?thesis
      by (rule on) (use l spares blank_reset [OF _ ft, of cap "ring_at g (last sp)"] in \<open>auto simp: on_ring_def\<close>)
  qed
qed

text \<open>A call below the ceiling always returns, and its record is waiting afterwards.\<close>

lemma segmented_call:
  fixes e :: env and ceiling :: level
  assumes inv: "segmented_inv ft cap (Suc k) e os ok sg sp regs own pend Lq ths g"
    and c: "call_ok c" "slots (length (call_record c)) < cap" "ok (ca_thread c) (call_record c)"
    and pol: "policy \<in> {Quill, NanoLog}" "sg_policy sg = policy" "sg_capacity sg = cap"
    and pay: "\<forall>t x. ok t x \<longrightarrow> payable e sg os t x"
    and cap: "is_power_of_two cap" "SLOT_SIZE \<le> cap" "cap < 2 ^ 64" and ft: "\<not> watermark_head ft" "Suc k < 2 ^ 46"
  defines "below \<equiv> ca_level c \<le> ceiling"
  shows "\<exists>b slot' g' sp' regs' own' pend' Lq'.
    log_call ft e [] (os (ca_thread c)) (ca_time c) ceiling policy (ca_level c) (ca_site c) (ca_args c) (ths (ca_thread c)) g =
      Some (b, slot', g') \<and>
    segmented_inv ft cap k e os ok sg sp' regs' own' pend' Lq' (ths(ca_thread c := slot')) g' \<and> set regs \<subseteq> set regs' \<and>
    mset Lq' + mset (in_segments own' pend' regs') = mset (logged ceiling [c]) + (mset Lq + mset (in_segments own pend regs)) \<and>
    (ts_buf slot' \<noteq> None \<longleftrightarrow> below \<or> ts_buf (ths (ca_thread c)) \<noteq> None) \<and>
    (policy = NanoLog \<longrightarrow> h_next (g_heap g') \<le> h_next (g_heap g) + (if below \<and> ts_buf (ths (ca_thread c)) = None then 1 else 0))"
proof (cases "ca_level c \<le> ceiling")
  case False
  have "segmented_inv ft cap k e os ok sg sp regs own pend Lq (ths(ca_thread c := ths (ca_thread c))) g"
    using inv segment_facts(1) by (auto simp: segmented_inv_def)
  then show ?thesis using False
    by - (rule exI [of _ False], rule exI [of _ "ths (ca_thread c)"], rule exI [of _ g], rule exI [of _ sp], rule exI [of _ regs],
      rule exI [of _ own], rule exI [of _ pend], rule exI [of _ Lq], simp add: log_call_def logged_def below_def)
next
  case True
  have lg: "logged ceiling [c] = [(ca_thread c, call_record c)]" using True by (simp add: logged_def)
  show ?thesis
  proof (cases "ts_buf (ths (ca_thread c))")
    case (Some tb)
    from segmented_call_initialised [OF inv Some c(1) True c(2,3) pol pay cap ft, where o' = "os (ca_thread c)"] show ?thesis
      using True Some lg by (simp add: below_def del: fun_upd_apply) blast
  next
    case None
    obtain tb g1 n sp1 where init: "init_thread_buf (os (ca_thread c)) g = Some (tb, g1)" and n: "n \<notin> set regs"
      and hn: "h_next (g_heap g1) \<le> Suc (h_next (g_heap g))"
      and inv1: "segmented_inv ft cap (Suc k) e os ok sg sp1 (regs @ [n]) (own(n := ca_thread c)) (pend(n := [])) Lq
        (ths(ca_thread c := (ths (ca_thread c))\<lparr>ts_buf := Some tb\<rparr>)) g1"
      using segmented_init [OF inv pol(3) cap ft, of "ca_thread c"] by blast
    have "\<not> ts_active (ths (ca_thread c))" using inv by (auto simp: segmented_inv_def)
    note first = log_call_first [OF None this True init]
    let ?th = "ths(ca_thread c := (ths (ca_thread c))\<lparr>ts_buf := Some tb\<rparr>)"
    have th: "ts_buf (?th (ca_thread c)) = Some tb" "?th (ca_thread c) = (ths (ca_thread c))\<lparr>ts_buf := Some tb\<rparr>"
      "?th(ca_thread c := y) = ths(ca_thread c := y)" for y by simp_all
    from segmented_call_initialised [OF inv1 th(1) c(1) True c(2,3) pol pay cap ft, where o' = "os (ca_thread c)",
        unfolded th(2,3) first [symmetric]]
    obtain slot' g' sp' regs' own' pend' Lq' where
      1: "log_call ft e [] (os (ca_thread c)) (ca_time c) ceiling policy (ca_level c) (ca_site c) (ca_args c) (ths (ca_thread c)) g =
          Some (True, slot', g')"
        "segmented_inv ft cap k e os ok sg sp' regs' own' pend' Lq' (ths(ca_thread c := slot')) g'" "set (regs @ [n]) \<subseteq> set regs'"
        "mset Lq' + mset (in_segments own' pend' regs') = add_mset (ca_thread c, call_record c)
          (mset Lq + mset (in_segments (own(n := ca_thread c)) (pend(n := [])) (regs @ [n])))"
        "ts_buf slot' \<noteq> None" "policy = NanoLog \<longrightarrow> h_next (g_heap g') \<le> h_next (g_heap g1)"
      by (elim exE conjE) (rule that)
    have "policy = NanoLog \<longrightarrow> h_next (g_heap g') \<le> Suc (h_next (g_heap g))" using 1(6) hn by auto
    moreover have "set regs \<subseteq> set regs'" using 1(3) by simp
    ultimately show ?thesis using 1(1,2,4,5) in_segments_simps(1) [OF n, of own "ca_thread c" pend "[]"] True None lg
      by - (rule exI [of _ True], rule exI [of _ slot'], rule exI [of _ g'], rule exI [of _ sp'], rule exI [of _ regs'],
        rule exI [of _ own'], rule exI [of _ pend'], rule exI [of _ Lq'], simp add: below_def del: fun_upd_apply)
  qed
qed

end
