(* ===== verification/Segmented_Run.thy ===== *)
theory Segmented_Run
  imports Segmented
begin

text \<open>
  The segmented process while it runs: turns of the drain that empty every registered segment,
  retire those handed off and deliver the queue of the helpers, and what holds in every state that
  calls and turns reach from \<open>configure!\<close> to the drop of the guard.
\<close>

section \<open>A poll that retires segments\<close>

definition retired :: "nat \<Rightarrow> globals \<Rightarrow> globals" where
  "retired a g = (if rb_recyclable (ring_at g a)
     then (update_ring a (\<lambda>r. r\<lparr>rb_recycled := True\<rparr>) g)\<lparr>g_segments := map_option (recycle a) (g_segments g)\<rparr> else g)"

lemma return_segment_once: "\<not> rb_recycled (ring_at g a) \<Longrightarrow> g_segments g = Some sg \<Longrightarrow> return_segment a g = retired a g"
  by (simp add: return_segment_def drain_recycle_def retired_def mark_recycled_def update_ring_def on_ring_def)

lemma retired_frame [simp]:
  "g_registry (retired a g) = g_registry g" "h_next (g_heap (retired a g)) = h_next (g_heap g)"
  "b \<noteq> a \<Longrightarrow> ring_at (retired a g) b = ring_at g b" "segment_store cap (ring_at (retired a g) b) = segment_store cap (ring_at g b)"
  "rb_serial (ring_at (retired a g) b) = rb_serial (ring_at g b)"
  "g_segments g = Some sg \<Longrightarrow> g_segments (retired a g) = Some (if rb_recyclable (ring_at g a) then recycle a sg else sg)"
  by (simp_all add: retired_def segment_store_def ring_wf_def)

context lossless_sink
begin

definition poll_ring :: "features \<Rightarrow> nat \<Rightarrow> globals \<Rightarrow> (nat \<Rightarrow> bytes list) \<Rightarrow> nat \<Rightarrow> bool" where
  "poll_ring ft k g recs a \<longleftrightarrow> ring_holds ft k (ring_at g a) (recs a) \<and> list_all (valid (ring_at g a)) (recs a) \<and>
     \<not> rb_helper_reserved (ring_at g a) \<and> \<not> rb_recycled (ring_at g a)"

lemma poll_retires:
  assumes "inputs d" "good (dr_sink d, w)" "dr_rings d = ys @ map (current g) as" "distinct as" "g_registry g = Some regs"
    "set as \<subseteq> set regs" "\<forall>a\<in>set as. poll_ring ft k g recs a" "g_segments g = Some sg"
  shows "\<exists>hw' L s' g' w' ret. poll_rings ft io e (length ys) hw d g w = Some (hw', d\<lparr>dr_rings := ys @ L, dr_sink := s'\<rparr>, g', w') \<and>
    good (s', w') \<and> seen (s', w') = seen (dr_sink d, w) @ concat (map (out g recs) (visit_order (retires g) as)) \<and>
    distinct (map fst L) \<and> fst ` set L = {a \<in> set as. \<not> rb_handed_off (ring_at g a)} \<and>
    g_registry g' = Some (filter (\<lambda>a. a \<in> set as \<longrightarrow> \<not> rb_handed_off (ring_at g a)) regs) \<and>
    (\<forall>b. b \<notin> set as \<longrightarrow> ring_at g' b = ring_at g b) \<and>
    (\<forall>b\<in>set as. \<not> rb_handed_off (ring_at g b) \<longrightarrow> ring_at g' b = drained (ring_at g b)) \<and>
    (\<forall>b cap. b \<in> set as \<longrightarrow> segment_store cap (ring_at g' b) = segment_store cap (drained (ring_at g b))) \<and>
    g_segments g' = Some (sg\<lparr>sg_spares := sg_spares sg @ ret\<rparr>) \<and> distinct ret \<and>
    set ret \<subseteq> {a \<in> set as. rb_handed_off (ring_at g a)} \<and> h_next (g_heap g') = h_next (g_heap g)"
  using assms
proof (induction "length as" arbitrary: hw d g w ys as regs sg)
  case 0
  then show ?case by (subst poll_rings.simps) (auto intro!: exI [of _ "dr_sink d"] exI [of _ "[]"])
next
  case (Suc n)
  obtain a as0 where as: "as = a # as0" using Suc(2) by (cases as) auto
  have a: "poll_ring ft k g recs a" "a \<in> set regs" using Suc.prems by (auto simp: as)
  obtain s1 w1 where 1: "drain_at ft io e a d g w = Some (recs a \<noteq> [], d\<lparr>dr_sink := s1\<rparr>, update_ring a drained g, w1)"
    "good (s1, w1)" "seen (s1, w1) = seen (dr_sink d, w) @ out g recs a"
    using drain_at_running [OF Suc.prems(1,2), of ft k g a recs] a(1) by (auto simp: poll_ring_def)
  let ?gone = "rb_handed_off (ring_at g a)"
  define as1 where "as1 = (if ?gone \<and> as0 \<noteq> [] then last as0 # butlast as0 else as0)"
  define ys1 where "ys1 = (if ?gone then ys else ys @ [current g a])"
  define d1 where "d1 = d\<lparr>dr_sink := s1, dr_rings := ys1 @ map (current g) as1\<rparr>"
  define regs1 where "regs1 = (if ?gone then filter (\<lambda>b. b \<noteq> a) regs else regs)"
  define ret1 where "ret1 = (if ?gone \<and> rb_recyclable (ring_at g a) then [a] else [])"
  define g1 where "g1 = (if ?gone then retired a ((update_ring a drained g)\<lparr>g_registry := Some regs1\<rparr>)
    else (update_ring a drained g)\<lparr>g_registry := Some regs1\<rparr>)"
  have rt: "retires g a \<longleftrightarrow> ?gone" using a(2) Suc.prems(5) by (simp add: retires_def)
  have g1: "retires (update_ring a drained g) a \<longleftrightarrow> ?gone"
    "update_ring a drained g = (update_ring a drained g)\<lparr>g_registry := Some regs\<rparr>"
    using rt Suc.prems(5) by (simp_all add: retires_def segment_facts)
  have ret: "return_segment a ((update_ring a drained g)\<lparr>g_registry := X\<rparr>) = retired a ((update_ring a drained g)\<lparr>g_registry := X\<rparr>)" for X
    using a(1) Suc.prems(8) by (intro return_segment_once [of _ _ sg]) (simp_all add: poll_ring_def segment_facts)
  have sw: "swap_remove (length ys) (dr_rings d) = ys @ map (current g) (if as0 \<noteq> [] then last as0 # butlast as0 else as0)"
    using Suc.prems(3) by (simp add: as swap_remove_append last_map map_butlast)
  have "rb_head (drained (ring_at g a)) = rb_tail (drained (ring_at g a))" by (simp add: drained_def)
  then have mr: "maybe_retire (length ys) a (rb_serial (ring_at g a)) (d\<lparr>dr_sink := s1\<rparr>) (update_ring a drained g) = Some (?gone, d1, g1)"
    using maybe_retire_drained [of "update_ring a drained g" a regs "length ys" "d\<lparr>dr_sink := s1\<rparr>"] a(1) Suc.prems(3,5) g1 ret sw
    by (cases ?gone) (simp_all add: poll_ring_def segment_facts d1_def g1_def regs1_def ys1_def as1_def as same_ring_def, simp_all add: drained_def)
  have poll: "poll_rings ft io e (length ys) hw d g w = poll_rings ft io e (length ys1) (hw \<or> recs a \<noteq> []) d1 g1 w1"
    using 1(1) mr a(1) Suc.prems(3) by (subst poll_rings.simps) (simp add: as current_def poll_ring_def ys1_def)
  have m: "mset as1 = mset as0" using mset_last_butlast [of as0] by (simp add: as1_def)
  have sz: "set as1 = set as0" "distinct as1" "a \<notin> set as0" "n = length as1"
    using mset_eq_setD [OF m] mset_eq_imp_distinct_iff [OF m] mset_eq_length [OF m] Suc.prems(4) Suc(2) by (simp_all add: as)
  have cells: "b \<noteq> a \<Longrightarrow> ring_at g1 b = ring_at g b" "current g1 b = current g b" "\<not> ?gone \<Longrightarrow> ring_at g1 a = drained (ring_at g a)"
    "segment_store cap (ring_at g1 a) = segment_store cap (drained (ring_at g a))" for b cap
    by (simp_all add: g1_def current_def) (simp_all add: drained_def)
  have sg1: "g_segments g1 = Some (sg\<lparr>sg_spares := sg_spares sg @ ret1\<rparr>)"
    using Suc.prems(8) by (simp add: g1_def ret1_def recycle_def segment_facts)
  have ne: "b \<noteq> a" if "b \<in> set as0" for b using that sz(3) by auto
  have pre: "inputs d1" "good (dr_sink d1, w1)" "dr_rings d1 = ys1 @ map (current g1) as1" "g_registry g1 = Some regs1"
    "set as1 \<subseteq> set regs1" "\<forall>b\<in>set as1. poll_ring ft k g1 recs b"
  proof -
    show "dr_rings d1 = ys1 @ map (current g1) as1" by (simp add: d1_def cells(2) cong: map_cong)
    show "g_registry g1 = Some regs1" by (simp add: g1_def)
    show "\<forall>b\<in>set as1. poll_ring ft k g1 recs b" using Suc.prems(7) sz(1) ne by (auto simp: poll_ring_def cells as)
  qed (use Suc.prems(1,6) 1(2) sz(1) ne in \<open>auto simp: inputs_def d1_def regs1_def as\<close>)
  from Suc.hyps(1) [OF sz(4) pre(1-3) sz(2) pre(4-6) sg1, of "hw \<or> recs a \<noteq> []", folded poll] obtain hw' L s' g' w' ret' where
    2: "poll_rings ft io e (length ys) hw d g w = Some (hw', d1\<lparr>dr_rings := ys1 @ L, dr_sink := s'\<rparr>, g', w')" "good (s', w')"
      "seen (s', w') = seen (dr_sink d1, w1) @ concat (map (out g1 recs) (visit_order (retires g1) as1))"
      "distinct (map fst L)" "fst ` set L = {b \<in> set as1. \<not> rb_handed_off (ring_at g1 b)}"
      "g_registry g' = Some (filter (\<lambda>b. b \<in> set as1 \<longrightarrow> \<not> rb_handed_off (ring_at g1 b)) regs1)"
      "\<forall>b. b \<notin> set as1 \<longrightarrow> ring_at g' b = ring_at g1 b"
      "\<forall>b\<in>set as1. \<not> rb_handed_off (ring_at g1 b) \<longrightarrow> ring_at g' b = drained (ring_at g1 b)"
      "\<forall>b cap. b \<in> set as1 \<longrightarrow> segment_store cap (ring_at g' b) = segment_store cap (drained (ring_at g1 b))"
      "g_segments g' = Some (sg\<lparr>sg_spares := sg_spares sg @ ret1\<rparr>\<lparr>sg_spares := sg_spares (sg\<lparr>sg_spares := sg_spares sg @ ret1\<rparr>) @ ret'\<rparr>)"
      "distinct ret'" "set ret' \<subseteq> {b \<in> set as1. rb_handed_off (ring_at g1 b)}" "h_next (g_heap g') = h_next (g_heap g1)"
    by (elim exE conjE) (rule that)
  have "visit_order (retires g1) as1 = visit_order (retires g) as1"
    using ne sz(1) Suc.prems(5) by (intro visit_order_cong) (auto simp: retires_def cells g1_def regs1_def)
  moreover have "set (visit_order (retires g) as1) = set as0" using mset_eq_setD [OF visit_order_mset] sz(1) by auto
  ultimately have vo: "map (out g1 recs) (visit_order (retires g1) as1) = map (out g recs) (visit_order (retires g) as1)"
    using ne by (auto simp: out_def cells)
  let ?L = "(if ?gone then [] else [current g a]) @ L" let ?ret = "ret1 @ ret'"
  have "d1\<lparr>dr_rings := ys1 @ L, dr_sink := s'\<rparr> = d\<lparr>dr_rings := ys @ ?L, dr_sink := s'\<rparr>" by (simp add: d1_def ys1_def)
  moreover have "visit_order (retires g) as = a # visit_order (retires g) as1" by (simp add: as as1_def rt)
  then have "seen (s', w') = seen (dr_sink d, w) @ concat (map (out g recs) (visit_order (retires g) as))"
    using 2(3) 1(3) by (simp add: d1_def vo)
  moreover have "distinct (map fst ?L)" "fst ` set ?L = {b \<in> set as. \<not> rb_handed_off (ring_at g b)}"
    using 2(4,5) sz(1,3) ne by (auto simp: current_def cells as)
  moreover have "filter (\<lambda>b. b \<in> set as1 \<longrightarrow> \<not> rb_handed_off (ring_at g1 b)) regs1 = filter (\<lambda>b. b \<in> set as \<longrightarrow> \<not> rb_handed_off (ring_at g b)) regs"
    using sz(1) ne by (auto simp: regs1_def as cells intro!: filter_cong)
  moreover have "\<forall>b. b \<notin> set as \<longrightarrow> ring_at g' b = ring_at g b"
    "\<forall>b\<in>set as. \<not> rb_handed_off (ring_at g b) \<longrightarrow> ring_at g' b = drained (ring_at g b)"
    "\<forall>b cap. b \<in> set as \<longrightarrow> segment_store cap (ring_at g' b) = segment_store cap (drained (ring_at g b))"
    using 2(7-9) sz(1,3) ne by (auto simp: cells as)
  moreover have "g_segments g' = Some (sg\<lparr>sg_spares := sg_spares sg @ ?ret\<rparr>)" "distinct ?ret"
    "set ?ret \<subseteq> {b \<in> set as. rb_handed_off (ring_at g b)}"
    using 2(10-12) sz(1,3) ne by (auto simp: ret1_def cells as)
  moreover have "h_next (g_heap g') = h_next (g_heap g)" using 2(13) by (simp add: g1_def)
  moreover have "g_registry g' = Some (filter (\<lambda>b. b \<in> set as1 \<longrightarrow> \<not> rb_handed_off (ring_at g1 b)) regs1)" by (rule 2(6))
  ultimately show ?case using 2(1,2)
    by - (rule exI [of _ hw'], rule exI [of _ ?L], rule exI [of _ s'], rule exI [of _ g'], rule exI [of _ w'], rule exI [of _ ?ret], simp)
qed

end

section \<open>The running process\<close>

lemma segmented_drained:
  assumes inv: "segmented_inv ft cap k e os ok sg sp regs own pend Lq ths g"
    and g': "g_registry g' = Some (filter (\<lambda>a. \<not> rb_handed_off (ring_at g a)) regs)"
      "\<forall>b. b \<notin> set regs \<longrightarrow> ring_at g' b = ring_at g b"
      "\<forall>b\<in>set regs. \<not> rb_handed_off (ring_at g b) \<longrightarrow> ring_at g' b = drained (ring_at g b)"
      "\<forall>b cap. b \<in> set regs \<longrightarrow> segment_store cap (ring_at g' b) = segment_store cap (drained (ring_at g b))"
      "g_segments g' = Some (pool_state e os sg (sp @ ret) [])" "distinct ret" "set ret \<subseteq> {a \<in> set regs. rb_handed_off (ring_at g a)}"
      "h_next (g_heap g') = h_next (g_heap g)"
  shows "segmented_inv ft cap k e os ok sg (sp @ ret) (filter (\<lambda>a. \<not> rb_handed_off (ring_at g a)) regs) own (\<lambda>_. []) [] ths g'"
proof -
  have seg: "segment_ring ft cap k os ok (own a) (drained (ring_at g a)) []" "segment_store cap (drained (ring_at g a))" "a < h_next (g_heap g)"
    if "a \<in> set regs" for a using inv that segment_facts(3,4) by (auto simp: segmented_inv_def)
  have "\<forall>a\<in>set (sp @ ret). a \<notin> set (filter (\<lambda>a. \<not> rb_handed_off (ring_at g a)) regs) \<and> a < h_next (g_heap g') \<and> segment_store cap (ring_at g' a)"
    using inv g'(2,4,7,8) seg(2,3) by (auto simp: segmented_inv_def dest!: subsetD)
  moreover have "distinct (sp @ ret)" using inv g'(6,7) by (auto simp: segmented_inv_def)
  ultimately show ?thesis using inv g' seg unfolding segmented_inv_def by (auto simp: segment_facts)
qed

text \<open>While every thread is alive, the list after a sync is the registry in some order.\<close>

lemma synced_alive:
  assumes "distinct (map fst rings)" "\<forall>a\<in>set regs. rb_live (ring_at g a)"
  obtains as where "synced g regs rings = map (current g) as" "distinct as" "set as = set regs"
proof -
  have "{a \<in> set regs. keep_ring g a} = set regs" using assms(2) by (auto simp: keep_ring_def)
  note s = synced_set [OF assms(1), of g regs, unfolded this]
  define as where "as = map fst (synced g regs rings)"
  have "synced g regs rings = map (current g) as" unfolding as_def using s(2) by (intro list_current [where A = "set regs"]) simp
  moreover have "set as = set regs" using s(2) by (simp add: as_def image_image current_def)
  moreover have "distinct as" using s(1) by (simp add: as_def)
  ultimately show ?thesis using that by blast
qed

context identity_sink
begin

text \<open>Helpers make of an admissible record what the sink shows of it.\<close>

definition helpers_tell :: "(nat \<Rightarrow> os_thread) \<Rightarrow> segments \<Rightarrow> bool" where
  "helpers_tell os sg \<longleftrightarrow> (\<forall>t x. admissible os t x \<longrightarrow> payable e sg os t x \<and> shown_payload (queued e sg os (t, x)) = told os t x)"

definition segmented_running ::
  "features \<Rightarrow> nat \<Rightarrow> (nat \<Rightarrow> os_thread) \<Rightarrow> nat \<Rightarrow> 'o list \<Rightarrow> segments \<Rightarrow> nat list \<Rightarrow> nat list \<Rightarrow> (nat \<Rightarrow> nat) \<Rightarrow> (nat \<Rightarrow> bytes list)
   \<Rightarrow> (nat \<times> bytes) list \<Rightarrow> (nat \<times> bytes) list \<Rightarrow> 'w process \<Rightarrow> bool"
where
  "segmented_running ft cap os k before sg sp regs own pend Lq D p \<longleftrightarrow>
     segmented_inv ft cap k e os (admissible os) sg sp regs own pend Lq (p_threads p) (p_globals p) \<and> inputs (p_drain p) \<and>
     good (dr_sink (p_drain p), p_world p) \<and>
     seen (dr_sink (p_drain p), p_world p) = before @ concat (map (\<lambda>(t, x). told os t x) D) \<and>
     dr_segmented (p_drain p) \<and> distinct (map fst (dr_rings (p_drain p))) \<and> fst ` set (dr_rings (p_drain p)) \<subseteq> set regs"

lemma segment_out:
  assumes "\<forall>a\<in>set as. segment_ring ft cap k os (admissible os) (own a) (ring_at g a) (pend a)"
  shows "concat (map (out g pend) as) = concat (map (\<lambda>(t, x). told os t x) (in_segments own pend as))"
    "\<forall>a\<in>set as. poll_ring ft k g pend a"
proof -
  have sh: "shown r = line (rb_thread_id r) (rb_thread_name r)" for r by (simp add: fun_eq_iff shown_line)
  show "concat (map (out g pend) as) = concat (map (\<lambda>(t, x). told os t x) (in_segments own pend as))"
    using assms by (induction as) (auto simp: in_segments_def out_def segment_ring_def sh told_def comp_def)
  show "\<forall>a\<in>set as. poll_ring ft k g pend a"
    using assms by (auto simp: poll_ring_def segment_ring_def valid_fits admissible_def list_all_iff)
qed

lemma queue_out:
  assumes "helpers_tell os sg" "\<forall>(t, x)\<in>set Lq. admissible os t x"
  shows "concat (map shown_payload (map (queued e sg os) Lq)) = concat (map (\<lambda>(t, x). told os t x) Lq)"
  using assms(2) by (induction Lq) (use assms(1) in \<open>auto simp: helpers_tell_def\<close>)

lemma segmented_turn:
  assumes inv: "segmented_running ft cap os k before sg sp regs own pend Lq D p" and ht: "helpers_tell os sg"
  shows "\<exists>p' sp' regs' D'. process_turn ft io e p = Some p' \<and>
    segmented_running ft cap os k before sg sp' regs' own (\<lambda>_. []) [] (D @ D') p' \<and>
    mset D' = mset Lq + mset (in_segments own pend regs) \<and>
    p_threads p' = p_threads p \<and> h_next (g_heap (p_globals p')) = h_next (g_heap (p_globals p))"
proof -
  let ?g = "p_globals p" let ?d = "p_drain p" let ?w = "p_world p" let ?sg = "pool_state e os sg sp Lq"
  have S: "segmented_inv ft cap k e os (admissible os) sg sp regs own pend Lq (p_threads p) ?g"
    and M: "inputs ?d" "good (dr_sink ?d, ?w)" "dr_segmented ?d"
    "distinct (map fst (dr_rings ?d))" "fst ` set (dr_rings ?d) \<subseteq> set regs"
    and D: "seen (dr_sink ?d, ?w) = before @ concat (map (\<lambda>(t, x). told os t x) D)" using inv by (auto simp: segmented_running_def)
  have sg: "g_segments ?g = Some ?sg" "g_registry ?g = Some regs" "distinct regs" "\<forall>(t, x)\<in>set Lq. admissible os t x"
    and seg: "\<forall>a\<in>set regs. segment_ring ft cap k os (admissible os) (own a) (ring_at ?g a) (pend a)"
    using S by (auto simp: segmented_inv_def)
  then have live: "\<forall>a\<in>set regs. rb_live (ring_at ?g a)" by (simp add: segment_ring_def ring_holds_def)
  obtain as where as: "synced ?g regs (dr_rings ?d) = map (current ?g) as" "distinct as" "set as = set regs"
    using synced_alive [OF M(4) live] by blast
  define d1 where "d1 = ?d\<lparr>dr_rings := map (current ?g) as\<rparr>"
  have sync: "sync_rings ft io e ?d ?g ?w = Some (d1, ?g, ?w)" using sync_alive [OF sg(2) live M(5)] as(1) by (simp add: d1_def)
  note out = segment_out [of as ft cap k os own ?g pend, unfolded as(3), OF seg]
  have pr: "inputs d1" "good (dr_sink d1, ?w)" "dr_rings d1 = [] @ map (current ?g) as" using M(1,2) by (simp_all add: inputs_def d1_def)
  from poll_retires [OF pr as(2) sg(2) _ _ sg(1), of ft k pend False] as(3) out(2) obtain hw L s g w ret where
    p: "poll_rings ft io e 0 False d1 ?g ?w = Some (hw, d1\<lparr>dr_rings := L, dr_sink := s\<rparr>, g, w)" "good (s, w)"
      "seen (s, w) = seen (dr_sink d1, ?w) @ concat (map (out ?g pend) (visit_order (retires ?g) as))"
      "distinct (map fst L)" "fst ` set L = {a \<in> set regs. \<not> rb_handed_off (ring_at ?g a)}"
      "g_registry g = Some (filter (\<lambda>a. \<not> rb_handed_off (ring_at ?g a)) regs)"
      "\<forall>b. b \<notin> set regs \<longrightarrow> ring_at g b = ring_at ?g b"
      "\<forall>b\<in>set regs. \<not> rb_handed_off (ring_at ?g b) \<longrightarrow> ring_at g b = drained (ring_at ?g b)"
      "\<forall>b cap. b \<in> set regs \<longrightarrow> segment_store cap (ring_at g b) = segment_store cap (drained (ring_at ?g b))"
      "g_segments g = Some (pool_state e os sg (sp @ ret) Lq)" "distinct ret"
      "set ret \<subseteq> {a \<in> set regs. rb_handed_off (ring_at ?g a)}" "h_next (g_heap g) = h_next (g_heap ?g)"
    by (auto cong: filter_cong)
  from takes_payload [OF p(2), of "map (queued e sg os) Lq"] obtain s1 w1 where
    q: "deliver_payloads io (raw_sink s) (map (queued e sg os) Lq) s w = Some (s1, w1)" "good (s1, w1)"
      "seen (s1, w1) = seen (s, w) @ concat (map shown_payload (map (queued e sg os) Lq))" by blast
  let ?regs = "filter (\<lambda>a. \<not> rb_handed_off (ring_at ?g a)) regs"
  define g2 where "g2 = g\<lparr>g_segments := Some (pool_state e os sg (sp @ ret) [])\<rparr>"
  define d2 where "d2 = d1\<lparr>dr_rings := L, dr_sink := s1\<rparr>"
  define hw2 where "hw2 = (hw \<or> Lq \<noteq> [])"
  have po: "poll_once ft io e d1 ?g ?w = Some (hw2, d2, g2, w1)"
    using p(1,10) q(1) M(3) by (simp add: poll_once_def take_lines_def d1_def d2_def g2_def hw2_def)
  define order where "order = visit_order (retires ?g) as"
  have ord: "mset order = mset regs" "set order = set regs"
    using visit_order_mset [of "retires ?g" as] as(2,3) sg(3) mset_eq_setD [OF visit_order_mset, of "retires ?g" as]
    by (simp_all add: order_def set_eq_iff_mset_eq_distinct)
  define D' where "D' = in_segments own pend order @ Lq"
  have seen: "seen (s1, w1) = before @ concat (map (\<lambda>(t, x). told os t x) (D @ D'))"
    using p(3) q(3) D segment_out(1) [of order ft cap k os own ?g pend] seg ord(2) queue_out [OF ht sg(4)]
    by (simp add: D'_def d1_def order_def)
  have md: "mset D' = mset Lq + mset (in_segments own pend regs)"
    using in_segments_simps(3) [OF ord(1), of own pend] by (simp add: D'_def)
  have inv2: "segmented_inv ft cap k e os (admissible os) sg (sp @ ret) ?regs own (\<lambda>_. []) [] (p_threads p) g2"
    by (rule segmented_drained [OF S]) (use p(6-9,11-13) in \<open>simp_all add: g2_def\<close>)
  have inv': "segmented_running ft cap os k before sg (sp @ ret) ?regs own (\<lambda>_. []) [] (D @ D') p'"
    if "p_threads p' = p_threads p" "p_globals p' = g2" "p_drain p' = d2\<lparr>dr_sink := s'\<rparr>" "good (s', p_world p')"
      "seen (s', p_world p') = seen (s1, w1)" for p' s'
    using that inv2 M(1,3) p(4,5) seen by (auto simp: segmented_running_def inputs_def d1_def d2_def)
  have hn: "h_next (g_heap g2) = h_next (g_heap ?g)" using p(13) by (simp add: g2_def)
  obtain d3 w3 where fl: "(if p_dirty p then flush_sink io d2 w1 else (d2, w1)) = (d3, w3)" by fastforce
  have "good (dr_sink d2, w1)" using q(2) by (simp add: d2_def)
  then have "\<exists>s3. d3 = d2\<lparr>dr_sink := s3\<rparr> \<and> good (s3, w3) \<and> seen (s3, w3) = seen (s1, w1)"
    using fl flush_keeps_seen [of d2 w1 d3 w3] by (auto simp: d2_def split: if_splits)
  then obtain s3 where s3: "d3 = d2\<lparr>dr_sink := s3\<rparr>" "good (s3, w3)" "seen (s3, w3) = seen (s1, w1)" by blast
  have turn: "drain_turn ft io e (p_spin p) (p_since p) (p_dirty p) ?d ?g ?w =
      Some (if hw2 then (SPIN_MIN, p_since p + 1, True, d2, g2, w1)
            else (min (push_bit 1 (p_spin p)) SPIN_CAP, p_since p + 1, False, d3, g2, w3))"
    using sync po fl M(3) by (cases hw2) (simp_all add: drain_turn_def)
  show ?thesis
  proof (cases hw2)
    case True
    define p' where "p' = p\<lparr>p_spin := SPIN_MIN, p_since := p_since p + 1, p_dirty := True, p_drain := d2, p_globals := g2, p_world := w1\<rparr>"
    have "process_turn ft io e p = Some p'" "p_threads p' = p_threads p" "h_next (g_heap (p_globals p')) = h_next (g_heap ?g)"
      using turn True hn by (simp_all add: process_turn_def p'_def)
    moreover have "segmented_running ft cap os k before sg (sp @ ret) ?regs own (\<lambda>_. []) [] (D @ D') p'"
      by (rule inv' [where s' = s1]) (simp_all add: p'_def q(2), simp add: d2_def)
    ultimately show ?thesis using md by blast
  next
    case False
    define p' where "p' = p\<lparr>p_spin := min (push_bit 1 (p_spin p)) SPIN_CAP, p_since := p_since p + 1, p_dirty := False,
      p_drain := d3, p_globals := g2, p_world := w3\<rparr>"
    have "process_turn ft io e p = Some p'" "p_threads p' = p_threads p" "h_next (g_heap (p_globals p')) = h_next (g_heap ?g)"
      using turn False hn by (simp_all add: process_turn_def p'_def)
    moreover have "segmented_running ft cap os k before sg (sp @ ret) ?regs own (\<lambda>_. []) [] (D @ D') p'"
      by (rule inv' [where s' = s3]) (simp_all add: p'_def s3)
    ultimately show ?thesis using md by blast
  qed
qed

lemma segmented_start:
  assumes "g_registry g = Some []" "g_segments g = Some (pool_state e os sg sp [])" "distinct sp"
    "\<forall>a\<in>set sp. a < h_next (g_heap g) \<and> segment_store cap (ring_at g a)"
    "inputs d" "good (dr_sink d, w)" "dr_rings d = []" "dr_segmented d"
  shows "segmented_running ft cap os k (seen (dr_sink d, w)) sg sp [] (\<lambda>_. 0) (\<lambda>_. []) [] [] (process_init d g w)"
  using assms by (simp add: segmented_running_def segmented_inv_def process_init_def idle_thread_def)

text \<open>What every reachable state satisfies: nothing is lost, and only Quill takes more memory than a
  segment per thread.\<close>

definition segmented_history ::
  "features \<Rightarrow> nat \<Rightarrow> (nat \<Rightarrow> os_thread) \<Rightarrow> nat \<Rightarrow> 'o list \<Rightarrow> segments \<Rightarrow> level \<Rightarrow> backpressure \<Rightarrow> nat \<Rightarrow> call list \<Rightarrow> 'w process \<Rightarrow> bool"
where
  "segmented_history ft cap os k before sg ceiling policy base cs p \<longleftrightarrow>
     (\<exists>sp regs own pend Lq D. segmented_running ft cap os k before sg sp regs own pend Lq D p \<and>
        mset D + (mset Lq + mset (in_segments own pend regs)) = mset (logged ceiling cs)) \<and>
     (\<forall>t. ts_buf (p_threads p t) \<noteq> None \<longleftrightarrow> t \<in> loggers ceiling cs) \<and>
     (policy = NanoLog \<longrightarrow> h_next (g_heap (p_globals p)) \<le> base + card (loggers ceiling cs))"

lemma segmented_history_call:
  assumes hist: "segmented_history ft cap os (Suc k) before sg ceiling policy base cs p"
    and c: "call_ok c" "slots (length (call_record c)) < cap" "admissible os (ca_thread c) (call_record c)"
    and pol: "policy \<in> {Quill, NanoLog}" "sg_policy sg = policy" "sg_capacity sg = cap" and ht: "helpers_tell os sg"
    and cap: "is_power_of_two cap" "SLOT_SIZE \<le> cap" "cap < 2 ^ 64" and ft: "\<not> watermark_head ft" "Suc k < 2 ^ 46"
  shows "\<exists>p'. process_call ft e os ceiling policy c p = Some p' \<and>
    segmented_history ft cap os k before sg ceiling policy base (cs @ [c]) p'"
proof -
  let ?t = "ca_thread c" let ?ths = "p_threads p" let ?g = "p_globals p"
  obtain sp regs own pend Lq D where R: "segmented_running ft cap os (Suc k) before sg sp regs own pend Lq D p"
    and m: "mset D + (mset Lq + mset (in_segments own pend regs)) = mset (logged ceiling cs)"
    using hist by (auto simp: segmented_history_def)
  have bufs: "\<forall>t. ts_buf (?ths t) \<noteq> None \<longleftrightarrow> t \<in> loggers ceiling cs"
    and mem: "policy = NanoLog \<longrightarrow> h_next (g_heap ?g) \<le> base + card (loggers ceiling cs)"
    using hist by (simp_all add: segmented_history_def)
  have S: "segmented_inv ft cap (Suc k) e os (admissible os) sg sp regs own pend Lq ?ths ?g" using R by (simp add: segmented_running_def)
  have pay: "\<forall>t x. admissible os t x \<longrightarrow> payable e sg os t x" using ht by (simp add: helpers_tell_def)
  obtain b slot g sp' regs' own' pend' Lq' where
    1: "log_call ft e [] (os ?t) (ca_time c) ceiling policy (ca_level c) (ca_site c) (ca_args c) (?ths ?t) ?g = Some (b, slot, g)"
      "segmented_inv ft cap k e os (admissible os) sg sp' regs' own' pend' Lq' (?ths(?t := slot)) g" "set regs \<subseteq> set regs'"
      "mset Lq' + mset (in_segments own' pend' regs') = mset (logged ceiling [c]) + (mset Lq + mset (in_segments own pend regs))"
      "ts_buf slot \<noteq> None \<longleftrightarrow> ca_level c \<le> ceiling \<or> ts_buf (?ths ?t) \<noteq> None"
      "policy = NanoLog \<longrightarrow> h_next (g_heap g) \<le> h_next (g_heap ?g) + (if ca_level c \<le> ceiling \<and> ts_buf (?ths ?t) = None then 1 else 0)"
    using segmented_call [OF S c pol pay cap ft, of ceiling] by (elim exE conjE) (rule that)
  define p' where "p' = p\<lparr>p_threads := ?ths(?t := slot), p_globals := g\<rparr>"
  have "process_call ft e os ceiling policy c p = Some p'" using 1(1) by (simp add: process_call_def p'_def)
  moreover have R': "segmented_running ft cap os k before sg sp' regs' own' pend' Lq' D p'"
    using R 1(2,3) by (auto simp: segmented_running_def p'_def)
  have "mset D + (mset Lq' + mset (in_segments own' pend' regs')) = mset (logged ceiling (cs @ [c]))"
    unfolding 1(4) logged_append mset_append m [symmetric] by (simp add: ac_simps)
  then have "\<exists>sp regs own pend Lq D. segmented_running ft cap os k before sg sp regs own pend Lq D p' \<and>
      mset D + (mset Lq + mset (in_segments own pend regs)) = mset (logged ceiling (cs @ [c]))" using R' by blast
  moreover have "\<forall>t. ts_buf (p_threads p' t) \<noteq> None \<longleftrightarrow> t \<in> loggers ceiling (cs @ [c])"
    using bufs 1(5) by (auto simp: p'_def loggers_append)
  moreover have "finite (loggers ceiling cs)" by (simp add: loggers_def)
  then have "policy = NanoLog \<longrightarrow> h_next (g_heap (p_globals p')) \<le> base + card (loggers ceiling (cs @ [c]))"
    using mem 1(6) spec [OF bufs, of ?t] by (auto simp: p'_def loggers_append card_insert_if split: if_splits)
  ultimately show ?thesis by (simp add: segmented_history_def)
qed

lemma segmented_history_turn:
  assumes hist: "segmented_history ft cap os k before sg ceiling policy base cs p" and ht: "helpers_tell os sg"
  shows "\<exists>p'. process_turn ft io e p = Some p' \<and> segmented_history ft cap os k before sg ceiling policy base cs p'"
proof -
  obtain sp regs own pend Lq D where R: "segmented_running ft cap os k before sg sp regs own pend Lq D p"
    and m: "mset D + (mset Lq + mset (in_segments own pend regs)) = mset (logged ceiling cs)"
    using hist by (auto simp: segmented_history_def)
  obtain p' sp' regs' D' where 1: "process_turn ft io e p = Some p'"
    "segmented_running ft cap os k before sg sp' regs' own (\<lambda>_. []) [] (D @ D') p'"
    "mset D' = mset Lq + mset (in_segments own pend regs)"
    "p_threads p' = p_threads p" "h_next (g_heap (p_globals p')) = h_next (g_heap (p_globals p))"
    using segmented_turn [OF R ht] by (elim exE conjE) (rule that)
  have "mset (D @ D') + (mset [] + mset (in_segments own (\<lambda>_. []) regs')) = mset (logged ceiling cs)"
    using m 1(3) in_segments_simps(4) by simp
  then have "\<exists>sp regs own pend Lq D. segmented_running ft cap os k before sg sp regs own pend Lq D p' \<and>
      mset D + (mset Lq + mset (in_segments own pend regs)) = mset (logged ceiling cs)" using 1(2) by blast
  then show ?thesis using 1(1,4,5) hist by (auto simp: segmented_history_def)
qed

lemma segmented_reaches:
  assumes "running ft io e os ceiling policy ok p0 cs acc p"
    and start: "segmented_history ft cap os N before sg ceiling policy base [] p0" and N: "length cs \<le> N" "N \<le> 2 ^ 45"
    and ok: "\<And>c. ok c \<Longrightarrow> call_ok c \<and> slots (length (call_record c)) < cap \<and> admissible os (ca_thread c) (call_record c)"
    and pol: "policy \<in> {Quill, NanoLog}" "sg_policy sg = policy" "sg_capacity sg = cap" and ht: "helpers_tell os sg"
    and cap: "is_power_of_two cap" "SLOT_SIZE \<le> cap" "cap < 2 ^ 64" and ft: "\<not> watermark_head ft"
  shows "segmented_history ft cap os (N - length cs) before sg ceiling policy base cs p"
  using assms(1) N(1)
proof (induction rule: running.induct)
  case start
  then show ?case using assms(2) by simp
next
  case (call cs acc p c p')
  then have hist: "segmented_history ft cap os (N - length cs) before sg ceiling policy base cs p" by simp
  have k: "N - length cs = Suc (N - length (cs @ [c]))" "Suc (N - length (cs @ [c])) < 2 ^ 46" using call.prems N(2) by auto
  have c: "call_ok c" "slots (length (call_record c)) < cap" "admissible os (ca_thread c) (call_record c)" using ok call(2) by auto
  show ?case using segmented_history_call [OF hist [unfolded k(1)] c pol ht cap ft k(2)] call(3) by auto
next
  case (turn cs acc p p')
  then have "segmented_history ft cap os (N - length cs) before sg ceiling policy base cs p" by simp
  from segmented_history_turn [OF this ht] show ?case using turn(2) by auto
qed

lemma segmented_stop:
  assumes inv: "segmented_running ft cap os k before sg sp regs own pend Lq D p" and ht: "helpers_tell os sg"
  shows "\<exists>d' g' w'. process_stop ft io e p = Some (d', g', w') \<and> good (dr_sink d', w') \<and>
    settled (dr_sink d', w') = before @ concat (map (\<lambda>(t, x). told os t x) (D @ in_segments own pend regs @ Lq))"
proof -
  let ?g = "p_globals p" let ?d = "p_drain p"
  have S: "segmented_inv ft cap k e os (admissible os) sg sp regs own pend Lq (p_threads p) ?g"
    and M: "inputs ?d" "good (dr_sink ?d, p_world p)" "dr_segmented ?d" "distinct (map fst (dr_rings ?d))" "fst ` set (dr_rings ?d) \<subseteq> set regs"
    and D: "seen (dr_sink ?d, p_world p) = before @ concat (map (\<lambda>(t, x). told os t x) D)" using inv by (auto simp: segmented_running_def)
  have sg: "g_registry ?g = Some regs" "distinct regs" "helper_lines ?g = map (queued e sg os) Lq" "dr_segmented ?d \<longleftrightarrow> g_segments ?g \<noteq> None"
    "\<forall>(t, x)\<in>set Lq. admissible os t x" using S M(3) by (simp_all add: segmented_inv_def helper_lines_def)
  have seg: "\<forall>a\<in>set regs. segment_ring ft cap k os (admissible os) (own a) (ring_at ?g a) (pend a)" using S by (simp add: segmented_inv_def)
  note out = segment_out [OF seg]
  have "\<forall>a\<in>set regs. ring_holds ft k (ring_at ?g a) (pend a) \<and> \<not> rb_helper_reserved (ring_at ?g a) \<and>
      list_all (valid (ring_at ?g a)) (pend a)" using out(2) by (simp add: poll_ring_def)
  from dead_pass [OF sg(1,2) this M(1,2,4,5) sg(4)] show ?thesis
    using D out(1) queue_out [OF ht sg(5)] sg(3) by (simp add: process_stop_def)
qed

lemma segmented_summary:
  assumes run: "running ft io e os ceiling policy ok (process_init d g w) cs acc p" "length cs < 2 ^ 45"
    and g: "g_registry g = Some []" "g_segments g = Some (pool_state e os sg sp [])" "distinct sp"
      "\<forall>a\<in>set sp. a < h_next (g_heap g) \<and> segment_store cap (ring_at g a)"
    and d: "inputs d" "good (dr_sink d, w)" "dr_rings d = []" "dr_segmented d"
    and ok: "\<And>c. ok c \<Longrightarrow> call_ok c \<and> slots (length (call_record c)) < cap \<and> admissible os (ca_thread c) (call_record c)"
    and pol: "policy \<in> {Quill, NanoLog}" "sg_policy sg = policy" "sg_capacity sg = cap" and ht: "helpers_tell os sg"
    and cap: "is_power_of_two cap" "SLOT_SIZE \<le> cap" "cap < 2 ^ 64" and ft: "\<not> watermark_head ft"
  shows "ok c \<Longrightarrow> process_call ft e os ceiling policy c p \<noteq> None" "process_turn ft io e p \<noteq> None"
    "policy = NanoLog \<Longrightarrow> h_next (g_heap (p_globals p)) \<le> h_next (g_heap g) + card (loggers ceiling cs)"
    "\<exists>d' g' w' D. process_stop ft io e p = Some (d', g', w') \<and> good (dr_sink d', w') \<and>
      settled (dr_sink d', w') = seen (dr_sink d, w) @ concat (map (\<lambda>(t, x). told os t x) D) \<and> mset D = mset (logged ceiling cs)"
proof -
  let ?before = "seen (dr_sink d, w)"
  have "segmented_history ft cap os (2 ^ 45) ?before sg ceiling policy (h_next (g_heap g)) [] (process_init d g w)"
    using segmented_start [OF g d, of ft "2 ^ 45"] in_segments_simps(4)
    unfolding segmented_history_def by (auto simp: logged_def loggers_def process_init_def idle_thread_def in_segments_def)
  note hist = segmented_reaches [OF run(1) this _ order_refl ok pol ht cap ft]
  have hist: "segmented_history ft cap os (2 ^ 45 - length cs) ?before sg ceiling policy (h_next (g_heap g)) cs p"
    using hist run(2) by simp
  define k where "k = 2 ^ 45 - Suc (length cs)"
  have k: "2 ^ 45 - length cs = Suc k" "Suc k < 2 ^ 46" using run(2) by (simp_all add: k_def)
  show "process_call ft e os ceiling policy c p \<noteq> None" if "ok c"
    using segmented_history_call [OF hist [unfolded k(1)] _ _ _ pol ht cap ft k(2)] ok [OF that] by blast
  show "process_turn ft io e p \<noteq> None" using segmented_history_turn [OF hist ht] by auto
  show "policy = NanoLog \<Longrightarrow> h_next (g_heap (p_globals p)) \<le> h_next (g_heap g) + card (loggers ceiling cs)"
    using hist by (simp add: segmented_history_def)
  obtain sp regs own pend Lq D where R: "segmented_running ft cap os (2 ^ 45 - length cs) ?before sg sp regs own pend Lq D p"
    and m: "mset D + (mset Lq + mset (in_segments own pend regs)) = mset (logged ceiling cs)"
    using hist by (auto simp: segmented_history_def)
  have "mset (D @ in_segments own pend regs @ Lq) = mset (logged ceiling cs)" using m by (simp add: ac_simps)
  then show "\<exists>d' g' w' D. process_stop ft io e p = Some (d', g', w') \<and> good (dr_sink d', w') \<and>
      settled (dr_sink d', w') = ?before @ concat (map (\<lambda>(t, x). told os t x) D) \<and> mset D = mset (logged ceiling cs)"
    using segmented_stop [OF R ht] by blast
qed

end

section \<open>From configuration on\<close>

lemma alloc_pool_facts:
  assumes "alloc_pool n cap h = Some (as, h')" "cap < 2 ^ 64"
  shows "h_next h' = h_next h + n" "distinct as" "\<forall>a\<in>set as. h_next h \<le> a \<and> a < h_next h' \<and> segment_store cap (h_cell h' a)"
    "\<forall>a<h_next h. h_cell h' a = h_cell h a"
proof -
  have "h_next h' = h_next h + n \<and> distinct as \<and> (\<forall>a\<in>set as. h_next h \<le> a \<and> a < h_next h' \<and> segment_store cap (h_cell h' a)) \<and>
      (\<forall>a<h_next h. h_cell h' a = h_cell h a)"
    using assms(1)
  proof (induction n arbitrary: h as)
    case (Suc n)
    obtain r where r: "with_capacity_arena cap True = Some r" using Suc.prems by (auto split: option.splits)
    then have st: "segment_store cap r" using with_capacity_arena_wf [OF r assms(2)]
      by (auto simp: segment_store_def with_capacity_arena_def from_storage_def split: if_splits)
    obtain as1 where as: "as = h_next h # as1" and 1: "alloc_pool n cap (snd (new_ring r h)) = Some (as1, h')"
      using Suc.prems r by (auto simp: new_ring_def split: option.splits)
    note IH = Suc.IH [OF 1]
    have "h_cell h' (h_next h) = r" using IH by (simp add: new_ring_def)
    then show ?case using IH st by (auto simp: as new_ring_def)
  qed simp
  then show "h_next h' = h_next h + n" "distinct as" "\<forall>a\<in>set as. h_next h \<le> a \<and> a < h_next h' \<and> segment_store cap (h_cell h' a)"
    "\<forall>a<h_next h. h_cell h' a = h_cell h a" by blast+
qed

text \<open>The number of segments allocated up front.\<close>

definition pool_size :: "backpressure \<Rightarrow> nat \<Rightarrow> nat" where
  "pool_size policy cap = (if policy = NanoLog then max (NANOLOG_POOL_BUDGET div cap) 1 else 0)"

lemma configure_segmented:
  assumes "configure_rt False bt s tz cap fmt policy g = Some (Inr d, g1)" "g_segments g = None" "policy \<in> {Quill, NanoLog}" "cap < 2 ^ 64"
  shows "is_power_of_two cap" "SLOT_SIZE \<le> cap" "g_registry g1 = Some []" "dr_sink d = s" "dr_rings d = []" "dr_segmented d"
    "h_next (g_heap g1) = h_next (g_heap g) + pool_size policy cap"
    "\<exists>sg. g_segments g1 = Some sg \<and> sg_policy sg = policy \<and> sg_capacity sg = cap \<and> sg_lines sg = [] \<and> sg_raw sg = raw_sink s \<and>
      sg_offset sg = dr_offset d \<and> sg_calib sg = dr_calib d \<and> sg_pattern sg = dr_pattern d \<and> distinct (sg_spares sg) \<and>
      (\<forall>a\<in>set (sg_spares sg). a < h_next (g_heap g1) \<and> segment_store cap (ring_at g1 a))"
proof -
  have k: "is_power_of_two cap \<and> SLOT_SIZE \<le> cap \<and> g_registry g1 = Some [] \<and> dr_sink d = s \<and> dr_rings d = [] \<and> dr_segmented d \<and>
    (\<exists>sg h. segments_init policy cap tz (dr_calib d) (dr_pattern d) (raw_sink s) (g_heap g) = Some (sg, h) \<and> dr_offset d = tz \<and>
      g_segments g1 = Some sg \<and> g_heap g1 = h)"
    using assms(1-3)
    by (auto simp: configure_rt_def drain_new_def install_segments_def Let_def split: if_splits sum.splits option.splits)
  then show "is_power_of_two cap" "SLOT_SIZE \<le> cap" "g_registry g1 = Some []" "dr_sink d = s" "dr_rings d = []" "dr_segmented d"
    by blast+
  obtain sg h where sg: "segments_init policy cap tz (dr_calib d) (dr_pattern d) (raw_sink s) (g_heap g) = Some (sg, h)" "dr_offset d = tz"
    "g_segments g1 = Some sg" "g_heap g1 = h" using k by blast
  show "h_next (g_heap g1) = h_next (g_heap g) + pool_size policy cap"
    "\<exists>sg. g_segments g1 = Some sg \<and> sg_policy sg = policy \<and> sg_capacity sg = cap \<and> sg_lines sg = [] \<and> sg_raw sg = raw_sink s \<and>
      sg_offset sg = dr_offset d \<and> sg_calib sg = dr_calib d \<and> sg_pattern sg = dr_pattern d \<and> distinct (sg_spares sg) \<and>
      (\<forall>a\<in>set (sg_spares sg). a < h_next (g_heap g1) \<and> segment_store cap (ring_at g1 a))"
    using sg assms(3) alloc_pool_facts [OF _ assms(4)]
    by (auto simp: segments_init_def init_with_pool_size_def pool_size_def)
qed

context identity_sink
begin

lemma segmented_configured:
  assumes cfg: "configure_rt False bt s tz0 cap fmt policy g0 = Some (Inr d, g1)" "g_segments g0 = None" "policy \<in> {Quill, NanoLog}"
    "cap < 2 ^ 64" "\<not> watermark_head ft"
    and run: "running ft io e os ceiling policy ok (process_init d g1 w) cs acc p" "length cs < 2 ^ 45"
    and ok: "\<forall>c. ok c \<longrightarrow> call_ok c \<and> slots (length (call_record c)) < cap \<and> admissible os (ca_thread c) (call_record c)"
    and d: "inputs d" "good (s, w)"
    and ht: "\<forall>sg. sg_raw sg = raw_sink s \<and> sg_offset sg = dr_offset d \<and> sg_calib sg = dr_calib d \<and> sg_pattern sg = dr_pattern d \<longrightarrow>
      helpers_tell os sg"
  shows "ok c \<Longrightarrow> process_call ft e os ceiling policy c p \<noteq> None" "process_turn ft io e p \<noteq> None"
    "policy = NanoLog \<Longrightarrow>
      h_next (g_heap (p_globals p)) \<le> h_next (g_heap g0) + pool_size policy cap + card (loggers ceiling cs)"
    "\<exists>d' g' w' D. process_stop ft io e p = Some (d', g', w') \<and> good (dr_sink d', w') \<and>
      settled (dr_sink d', w') = seen (s, w) @ concat (map (\<lambda>(t, x). told os t x) D) \<and> mset D = mset (logged ceiling cs)"
proof -
  note c = configure_segmented [OF cfg(1-4)]
  obtain sg where sg: "g_segments g1 = Some sg" "sg_policy sg = policy" "sg_capacity sg = cap" "sg_lines sg = []" "helpers_tell os sg"
    and sp: "distinct (sg_spares sg)" "\<forall>a\<in>set (sg_spares sg). a < h_next (g_heap g1) \<and> segment_store cap (ring_at g1 a)"
    using c(8) ht by blast
  have "pool_state e os sg (sg_spares sg) [] = sg" using sg(4) by (simp add: pool_state_def)
  then have ps: "g_segments g1 = Some (pool_state e os sg (sg_spares sg) [])" using sg(1) by simp
  have gd: "good (dr_sink d, w)" using d(2) c(4) by simp
  note sum = segmented_summary [OF run c(3) ps sp d(1) gd c(5,6) ok [rule_format] cfg(3) sg(2,3,5) c(1,2) cfg(4,5), unfolded c(4,7)]
  show "ok c \<Longrightarrow> process_call ft e os ceiling policy c p \<noteq> None" "process_turn ft io e p \<noteq> None"
    "policy = NanoLog \<Longrightarrow>
      h_next (g_heap (p_globals p)) \<le> h_next (g_heap g0) + pool_size policy cap + card (loggers ceiling cs)"
    "\<exists>d' g' w' D. process_stop ft io e p = Some (d', g', w') \<and> good (dr_sink d', w') \<and>
      settled (dr_sink d', w') = seen (s, w) @ concat (map (\<lambda>(t, x). told os t x) D) \<and> mset D = mset (logged ceiling cs)"
    by (rule sum; assumption)+
qed

end

text \<open>With the in-memory sink helpers copy the records.\<close>

lemma mem_segmented:
  assumes "configure_rt False bt (InMemorySink mem_new) tz cap fmt policy g0 = Some (Inr d, g1)" "g_segments g0 = None"
    "policy \<in> {Quill, NanoLog}" "cap < 2 ^ 64" "\<not> watermark_head ft"
    "running ft io e os ceiling policy (\<lambda>c. call_ok c \<and> slots (length (call_record c)) < cap) (process_init d g1 w) cs acc p"
    "length cs < 2 ^ 45"
  shows "call_ok c \<and> slots (length (call_record c)) < cap \<Longrightarrow> process_call ft e os ceiling policy c p \<noteq> None"
    "process_turn ft io e p \<noteq> None"
    "policy = NanoLog \<Longrightarrow>
      h_next (g_heap (p_globals p)) \<le> h_next (g_heap g0) + pool_size policy cap + card (loggers ceiling cs)"
    "\<exists>d' g' w' D. process_stop ft io e p = Some (d', g', w') \<and> mem_good (dr_sink d', w') \<and>
      mem_seen (dr_sink d', w') = concat (map (\<lambda>(t, x). mem_id.told os t x) D) \<and> mset D = mset (logged ceiling cs)"
proof -
  have d: "mem.inputs (dr_offset d) (dr_calib d) (dr_pattern d) d" "mem_good (InMemorySink mem_new, w)"
    and s: "mem_seen (InMemorySink mem_new, w) = []" by (simp_all add: mem.inputs_def mem_good_def mem_seen_def)
  have ok: "\<forall>c. call_ok c \<and> slots (length (call_record c)) < cap \<longrightarrow>
      call_ok c \<and> slots (length (call_record c)) < cap \<and> mem_id.admissible os (ca_thread c) (call_record c)"
    by (simp add: mem_id.admissible_def)
  have ht: "\<forall>sg. sg_raw sg = raw_sink (InMemorySink mem_new) \<and> sg_offset sg = dr_offset d \<and> sg_calib sg = dr_calib d \<and>
      sg_pattern sg = dr_pattern d \<longrightarrow> mem_id.helpers_tell e os sg"
    by (simp add: mem_id.helpers_tell_def payable_def queued_def mem_id.told_def capture_line_def)
  note sum = mem_id.segmented_configured [OF assms ok d ht, unfolded s append_Nil]
  show "call_ok c \<and> slots (length (call_record c)) < cap \<Longrightarrow> process_call ft e os ceiling policy c p \<noteq> None"
    "process_turn ft io e p \<noteq> None"
    "policy = NanoLog \<Longrightarrow>
      h_next (g_heap (p_globals p)) \<le> h_next (g_heap g0) + pool_size policy cap + card (loggers ceiling cs)"
    "\<exists>d' g' w' D. process_stop ft io e p = Some (d', g', w') \<and> mem_good (dr_sink d', w') \<and>
      mem_seen (dr_sink d', w') = concat (map (\<lambda>(t, x). mem_id.told os t x) D) \<and> mset D = mset (logged ceiling cs)"
    by (rule sum; assumption)+
qed

context steady_io
begin

text \<open>With a line sink they render the lines the drain would render.\<close>

lemma lines_segmented:
  assumes cfg: "configure_rt False bt s tz cap fmt policy g0 = Some (Inr d, g1)" "g_segments g0 = None"
    "policy \<in> {Quill, NanoLog}" "cap < 2 ^ 64" "\<not> watermark_head ft"
    and run: "running ft io e os ceiling policy
      (\<lambda>c. call_ok c \<and> slots (length (call_record c)) < cap \<and> thread_line e d os (ca_thread c) (call_record c) \<noteq> None)
      (process_init d g1 w) cs acc p" "length cs < 2 ^ 45"
    and s: "writes_to t s"
  shows "(\<forall>c. call_ok c \<and> slots (length (call_record c)) < cap \<and> thread_line e d os (ca_thread c) (call_record c) \<noteq> None \<longrightarrow>
      process_call ft e os ceiling policy c p \<noteq> None) \<and> process_turn ft io e p \<noteq> None \<and>
    (\<exists>d' g' w' D. process_stop ft io e p = Some (d', g', w') \<and> mset D = mset (logged ceiling cs) \<and>
      content t w' = content t w @ pending s @ concat (map (\<lambda>(u, x). the (thread_line e d os u x) @ [NL]) D))"
proof -
  have i: "lines.inputs (dr_offset d) (dr_calib d) (dr_pattern d) d" by (simp add: lines.inputs_def)
  have sw: "case (s, w) of (s, w) \<Rightarrow> writes_to t s" using s by simp
  have nr: "\<not> raw_sink s" using s by (cases s) simp_all
  have ok: "\<forall>c. call_ok c \<and> slots (length (call_record c)) < cap \<and> thread_line e d os (ca_thread c) (call_record c) \<noteq> None \<longrightarrow>
      call_ok c \<and> slots (length (call_record c)) < cap \<and>
      lines_id.admissible e (dr_offset d) (dr_calib d) (dr_pattern d) os (ca_thread c) (call_record c)"
    unfolding lines_id.admissible_def thread_line_def by blast
  have ht: "\<forall>sg. sg_raw sg = raw_sink s \<and> sg_offset sg = dr_offset d \<and> sg_calib sg = dr_calib d \<and>
      sg_pattern sg = dr_pattern d \<longrightarrow> lines_id.helpers_tell e (dr_offset d) (dr_calib d) (dr_pattern d) os sg"
    unfolding lines_id.helpers_tell_def lines_id.admissible_def lines_id.told_def payable_def queued_def using nr by simp
  note sum = lines_id.segmented_configured [OF cfg run ok i sw ht]
  obtain d' g' w' D where f: "process_stop ft io e p = Some (d', g', w')" "mset D = mset (logged ceiling cs)"
    "content t w' = content t w @ pending s @ concat (map (\<lambda>(u, x). the (thread_line e d os u x) @ [NL]) D)"
    using sum(4) unfolding lines_id.told_def prod.case append_assoc
    by (elim exE conjE) (rule that, assumption, assumption, simp add: thread_line_def)
  then show ?thesis using sum(1,2) by blast
qed

end

end
