(* ===== verification/Handoff.thy ===== *)
theory Handoff
  imports Log_Properties
begin

text \<open>
  The handoff loop of \<open>reserve_with_policy\<close> (\<open>src/src/thread_buf.rs\<close>) turn by turn. Under Quill every
  fresh segment has the configured capacity, so a record whose slots fill a whole segment is never
  placed: the loop hands off one empty segment after another.
\<close>

section \<open>Turns of the loop\<close>

text \<open>One turn in which the record finds no room: the next segment is in place. \<open>None\<close> when the turn
  leaves the loop.\<close>

definition handoff_turn ::
  "features \<Rightarrow> env \<Rightarrow> nat \<Rightarrow> backpressure \<Rightarrow> thread_buf \<times> globals \<Rightarrow> (thread_buf \<times> globals) option"
where
  "handoff_turn ft e total_size policy s =
     (case s of (tb, g) \<Rightarrow>
        (case g_segments g of
           None \<Rightarrow> None
         | Some sg \<Rightarrow>
             (case reserve ft [] (ring_at g (tb_ring tb)) total_size policy of
                Some (r1, None) \<Rightarrow>
                  let r2 = mark_handed_off (if watermark_head ft then flush_watermark r1 else r1) in
                  (case next_segment ft e policy sg tb (update_ring (tb_ring tb) (\<lambda>_. r2) g) of
                     Some (Some a, tb1, g2) \<Rightarrow>
                       map_option (\<lambda>g3. (tb1\<lparr>tb_ring := a\<rparr>, g3))
                         (register_ring a (update_ring a (set_thread_info (tb_thread_id tb) (tb_thread_name tb)) g2))
                   | _ \<Rightarrow> None)
              | _ \<Rightarrow> None)))"

fun handoff_turns ::
  "features \<Rightarrow> env \<Rightarrow> nat \<Rightarrow> backpressure \<Rightarrow> nat \<Rightarrow> thread_buf \<times> globals \<Rightarrow> (thread_buf \<times> globals) option"
where
  "handoff_turns ft e total_size policy 0 s = Some s"
| "handoff_turns ft e total_size policy (Suc k) s =
     (case handoff_turn ft e total_size policy s of None \<Rightarrow> None | Some s' \<Rightarrow> handoff_turns ft e total_size policy k s')"

text \<open>A loop that always has a next turn does not return.\<close>

definition turns_forever ::
  "features \<Rightarrow> env \<Rightarrow> nat \<Rightarrow> backpressure \<Rightarrow> (thread_buf \<Rightarrow> globals \<Rightarrow> bool) \<Rightarrow> bool"
where
  "turns_forever ft e n policy P \<longleftrightarrow>
     (\<forall>tb g. P tb g \<longrightarrow> (\<exists>tb' g'. handoff_turn ft e n policy (tb, g) = Some (tb', g') \<and> P tb' g'))"

lemma handoff_loop_no_result:
  assumes "handoff_loop ft e n policy tb g = Some y"
  shows "turns_forever ft e n policy P \<Longrightarrow> P tb g \<Longrightarrow> False"
proof (rule handoff_loop.raw_induct [OF _ assms, where P = "\<lambda>ft e n policy tb g y.
    turns_forever ft e n policy P \<longrightarrow> P tb g \<longrightarrow> False",
    rule_format])
  fix loop ft e n policy tb g y
  assume IH: "\<And>ft e n policy tb g y. loop ft e n policy tb g = Some y \<Longrightarrow>
      turns_forever ft e n policy P \<Longrightarrow> P tb g \<Longrightarrow> False"
    and body: "(case g_segments g of None \<Rightarrow> None | Some sg \<Rightarrow>
        (case reserve ft [] (ring_at g (tb_ring tb)) n policy of
           None \<Rightarrow> None
         | Some (r1, None) \<Rightarrow>
             let r2 = mark_handed_off (if watermark_head ft then flush_watermark r1 else r1);
                 g1 = update_ring (tb_ring tb) (\<lambda>_. r2) g
             in (case next_segment ft e policy sg tb g1 of
                   None \<Rightarrow> None
                 | Some (None, tb1, g2) \<Rightarrow> Some (None, tb1, g2)
                 | Some (Some a, tb1, g2) \<Rightarrow>
                     (case register_ring a (update_ring a (set_thread_info (tb_thread_id tb) (tb_thread_name tb)) g2) of
                        None \<Rightarrow> None
                      | Some g3 \<Rightarrow> loop ft e n policy (tb1\<lparr>tb_ring := a\<rparr>) g3))
         | Some (r1, Some slot) \<Rightarrow> Some (Some slot, tb, update_ring (tb_ring tb) (\<lambda>_. r1) g))) = Some y"
    and step: "turns_forever ft e n policy P" and P: "P tb g"
  obtain tb' g' where t: "handoff_turn ft e n policy (tb, g) = Some (tb', g')" "P tb' g'" using step P unfolding turns_forever_def by blast
  then have "loop ft e n policy tb' g' = Some y" using body by (auto simp: handoff_turn_def Let_def split: option.splits)
  then show False using IH step t(2) by blast
qed

lemma handoff_loop_endless:
  assumes "\<And>tb g. P tb g \<Longrightarrow> \<exists>tb' g'. handoff_turn ft e n policy (tb, g) = Some (tb', g') \<and> P tb' g'" "P tb g"
  shows "handoff_loop ft e n policy tb g = None"
proof (rule ccontr)
  assume "handoff_loop ft e n policy tb g \<noteq> None"
  then obtain y where "handoff_loop ft e n policy tb g = Some y" by blast
  moreover have "turns_forever ft e n policy P" using assms(1) unfolding turns_forever_def by blast
  ultimately show False using handoff_loop_no_result assms(2) by blast
qed

section \<open>A record as large as a segment\<close>

definition filling :: "features \<Rightarrow> segments \<Rightarrow> nat \<Rightarrow> thread_buf \<Rightarrow> globals \<Rightarrow> nat list \<Rightarrow> bool" where
  "filling ft sg n tb g regs \<longleftrightarrow>
    (let r = ring_at g (tb_ring tb) in
     g_segments g = Some sg \<and> g_registry g = Some regs \<and> (\<forall>a\<in>set regs. a < h_next (g_heap g)) \<and>
     ring_wf r \<and> rb_tail_cache r \<le> rb_tail r \<and> rb_tail r \<le> producer_head ft r \<and>
     unat (producer_head ft r) + 131072 < 2 ^ 64 \<and> rb_capacity r = sg_capacity sg)"

lemma filling_turn:
  assumes f: "filling ft sg n tb g regs" and n: "n \<le> MAX_RECORD_SIZE" "sg_capacity sg \<le> slots n"
    and seg: "with_capacity_arena (sg_capacity sg) False = Some r0" "sg_capacity sg < 2 ^ 64"
  shows "\<exists>tb' g'. handoff_turn ft e n Quill (tb, g) = Some (tb', g') \<and>
    filling ft sg n tb' g' (regs @ [h_next (g_heap g)]) \<and> h_next (g_heap g') = Suc (h_next (g_heap g))"
proof -
  define r where "r = ring_at g (tb_ring tb)"
  have g: "g_segments g = Some sg" "g_registry g = Some regs" "\<forall>a\<in>set regs. a < h_next (g_heap g)"
    and r: "ring_wf r" "unat (rb_tail_cache r) \<le> unat (rb_tail r)" "unat (rb_tail r) \<le> unat (producer_head ft r)"
      "unat (producer_head ft r) + 131072 < 2 ^ 64" "rb_capacity r = sg_capacity sg"
    using f by (auto simp: filling_def Let_def r_def word_le_nat_alt)
  have n': "n \<le> 65535" using n(1) by (simp add: record_consts)
  have "unat (producer_head ft r) + slots n \<le> end_pos (rb_capacity r) (unat (producer_head ft r)) n"
    by (simp add: end_pos_def start_pos_def)
  then have "\<not> end_pos (rb_capacity r) (unat (producer_head ft r)) n - unat (rb_tail r) < rb_capacity r"
    "\<not> end_pos (rb_capacity r) (unat (producer_head ft r)) n - unat (rb_tail_cache r) < rb_capacity r"
    using r(2,3,5) n(2) by linarith+
  then have res: "reserve ft [] r n Quill = Some (r\<lparr>rb_tail_cache := rb_tail r\<rparr>, None)"
    unfolding reserve_spec [OF r(1) n' refl r(4,2,3)] by simp
  define r2 where "r2 = mark_handed_off (if watermark_head ft then flush_watermark (r\<lparr>rb_tail_cache := rb_tail r\<rparr>)
    else r\<lparr>rb_tail_cache := rb_tail r\<rparr>)"
  define a where "a = h_next (g_heap g)"
  define g1 where "g1 = update_ring (tb_ring tb) (\<lambda>_. r2) g"
  define g2 where "g2 = g1\<lparr>g_heap := snd (new_ring r0 (g_heap g1))\<rparr>"
  define g3 where "g3 = (update_ring a (set_serial (g_serial g)) (update_ring a (set_thread_info (tb_thread_id tb) (tb_thread_name tb)) g2))
    \<lparr>g_serial := g_serial g + 1, g_registry := Some (regs @ [a])\<rparr>"
  have na: "a \<notin> set regs" using g(3) by (auto simp: a_def)
  have nx: "next_segment ft e Quill sg tb g1 = Some (Some a, tb, g2)"
    using seg(1) by (simp add: next_segment_def alloc_fresh_def g2_def a_def g1_def new_ring_def)
  have reg: "register_ring a (update_ring a (set_thread_info (tb_thread_id tb) (tb_thread_name tb)) g2) = Some g3"
    using g(2) na by (simp add: register_ring_def g3_def g2_def g1_def)
  have turn: "handoff_turn ft e n Quill (tb, g) = Some (tb\<lparr>tb_ring := a\<rparr>, g3)"
    using res g(1) nx reg by (simp add: handoff_turn_def r_def [symmetric] r2_def [symmetric] g1_def [symmetric] Let_def)
  have at: "ring_at g3 a = set_serial (g_serial g) (set_thread_info (tb_thread_id tb) (tb_thread_name tb) r0)"
    by (simp add: g3_def g2_def g1_def a_def)
  have r0: "ring_wf r0" "producer_head ft r0 = 0" "rb_tail r0 = 0" "rb_tail_cache r0 = 0" "rb_capacity r0 = sg_capacity sg"
    using with_capacity_arena_wf [OF seg] seg(1)
    by (auto simp: with_capacity_arena_def from_storage_def producer_head_def split: if_splits)
  have "h_next (g_heap g3) = Suc a" "g_segments g3 = Some sg" "g_registry g3 = Some (regs @ [a])"
    using g(1) by (simp_all add: g3_def g2_def g1_def a_def)
  then have "filling ft sg n (tb\<lparr>tb_ring := a\<rparr>) g3 (regs @ [a])"
    using r0 g(3) at by (auto simp: filling_def Let_def set_serial_def set_thread_info_def ring_wf_def producer_head_def a_def less_Suc_eq)
  then show ?thesis using turn \<open>h_next (g_heap g3) = Suc a\<close> by (auto simp: a_def)
qed

text \<open>C14: A record as large as a segment is never placed under Quill. On a well-formed segment, a
  reservation whose slots take a segment's capacity or more does not return, although no turn of
  its loop fails: after any number of turns the thread has allocated and registered that many
  further segments, all of them empty and of the same capacity.\<close>

theorem quill_oversized_hangs:
  assumes "g_segments g = Some sg" "g_registry g = Some regs" "\<forall>a\<in>set regs. a < h_next (g_heap g)"
    "ring_at g (tb_ring tb) = r" "ring_wf r" "rb_capacity r = sg_capacity sg" "rb_tail_cache r \<le> rb_tail r" "rb_tail r \<le> producer_head ft r"
    "unat (producer_head ft r) + 131072 < 2 ^ 64" "n \<le> MAX_RECORD_SIZE" "sg_capacity sg \<le> slots n"
    "with_capacity_arena (sg_capacity sg) False = Some r0" "sg_capacity sg < 2 ^ 64"
  shows "reserve_with_policy ft e obs tb n Quill g = None \<and>
    (\<forall>k. \<exists>tb' g'. handoff_turns ft e n Quill k (tb, g) = Some (tb', g') \<and>
       g_registry g' = Some (regs @ [h_next (g_heap g)..<h_next (g_heap g) + k]))"
proof -
  note turn = filling_turn [OF _ assms(10-13), of ft _ _ _ e]
  have f: "filling ft sg n tb g regs" using assms(1-9) by (simp add: filling_def)
  have "handoff_loop ft e n Quill tb g = None"
    by (rule handoff_loop_endless [where P = "\<lambda>tb g. \<exists>regs. filling ft sg n tb g regs"]) (use turn f in blast)+
  moreover have "\<exists>tb' g'. handoff_turns ft e n Quill k (tb, g) = Some (tb', g') \<and>
      g_registry g' = Some (regs @ [h_next (g_heap g)..<h_next (g_heap g) + k])" for k
    using f
  proof (induction k arbitrary: tb g regs)
    case 0
    then show ?case by (simp add: filling_def Let_def)
  next
    case (Suc k)
    let ?a = "h_next (g_heap g)"
    obtain tb1 g1 where 1: "handoff_turn ft e n Quill (tb, g) = Some (tb1, g1)" "filling ft sg n tb1 g1 (regs @ [?a])"
      "h_next (g_heap g1) = Suc ?a" using turn [OF Suc.prems] by blast
    obtain tb' g' where "handoff_turns ft e n Quill k (tb1, g1) = Some (tb', g')"
      "g_registry g' = Some ((regs @ [?a]) @ [Suc ?a..<Suc ?a + k])" using Suc.IH [OF 1(2)] unfolding 1(3) by blast
    moreover have "(regs @ [?a]) @ [Suc ?a..<Suc ?a + k] = regs @ [?a..<?a + Suc k]" by (simp add: upt_rec [of ?a])
    ultimately show ?case using 1(1) by simp
  qed
  ultimately show ?thesis using assms(1) by (simp add: reserve_with_policy_def)
qed

theorem quill_oversized_hangs_witness:
  "\<forall>e. reserve_with_policy default_features e [] \<lparr>tb_ring = 0, tb_helper = None, tb_thread_id = 1, tb_thread_name = []\<rparr>
     200 Quill (demo_globals\<lparr>g_segments := Some demo_segments\<rparr>) = None"
proof
  fix e
  let ?g = "demo_globals\<lparr>g_segments := Some demo_segments\<rparr>"
  let ?tb = "\<lparr>tb_ring = 0, tb_helper = None, tb_thread_id = 1, tb_thread_name = []\<rparr>"
  let ?r = "from_storage (replicate 256 0) 256 False"
  have w: "with_capacity 256 = Some ?r" by code_simp
  have f: "with_capacity_arena (sg_capacity demo_segments) False = Some ?r" unfolding demo_segments_def by code_simp
  have wf: "ring_wf ?r" using with_capacity_wf [OF w] by simp
  have s: "g_segments ?g = Some demo_segments" "g_registry ?g = Some [0]" "\<forall>a\<in>set [0]. a < h_next (g_heap ?g)"
    "ring_at ?g (tb_ring ?tb) = ?r" by (simp_all add: demo_globals_def)
  have r: "rb_capacity ?r = sg_capacity demo_segments" "rb_tail_cache ?r \<le> rb_tail ?r" "rb_tail ?r \<le> producer_head default_features ?r"
    "unat (producer_head default_features ?r) + 131072 < 2 ^ 64"
    by (simp_all add: from_storage_def demo_segments_def producer_head_def)
  have n: "200 \<le> MAX_RECORD_SIZE" "sg_capacity demo_segments \<le> slots 200" "sg_capacity demo_segments < 2 ^ 64"
    by (simp_all add: record_consts demo_segments_def slots_def)
  show "reserve_with_policy default_features e [] ?tb 200 Quill ?g = None"
    using quill_oversized_hangs [OF s wf r n(1,2) f n(3), of e "[]"] by blast
qed

end
