(* ===== verification/Platform.thy ===== *)
theory Platform
  imports Tick_Prelude
begin

text \<open>
  The small parts around the platform: the backoff of a spinning wait (\<open>src/src/backoff.rs\<close>), pinning
  a thread to a core (\<open>src/src/affinity.rs\<close>) and the counters of the optional profiler
  (\<open>src/src/hotpath.rs\<close>). The calls of the \<open>spin\<close> and \<open>core_affinity\<close> crates are parameters or
  named outcomes.
\<close>

section \<open>Backoff\<close>

definition SPIN_LOOPS :: "32 word" where "SPIN_LOOPS = 64"

datatype relax = Relax_Spin | Relax_Yield

record backoff =
  bo_counter :: "32 word"

definition backoff_new :: backoff where
  "backoff_new = \<lparr>bo_counter = 0\<rparr>"

text \<open>\<open>Backoff::wait\<close>: which relax strategy runs, and the counter, which wraps.\<close>

definition backoff_wait :: "backoff \<Rightarrow> relax \<times> backoff" where
  "backoff_wait b = (if bo_counter b < SPIN_LOOPS then Relax_Spin else Relax_Yield, b\<lparr>bo_counter := bo_counter b + 1\<rparr>)"

fun backoff_waits :: "nat \<Rightarrow> backoff \<Rightarrow> relax list" where
  "backoff_waits 0 b = []"
| "backoff_waits (Suc n) b = (case backoff_wait b of (x, b') \<Rightarrow> x # backoff_waits n b')"

lemma backoff_waits_nth:
  "i < n \<Longrightarrow> unat (bo_counter b) + n \<le> 2 ^ 32 \<Longrightarrow>
   backoff_waits n b ! i = (if unat (bo_counter b) + i < 64 then Relax_Spin else Relax_Yield)"
proof (induction n arbitrary: i b)
  case (Suc n)
  have u: "unat (SPIN_LOOPS) = 64" by (simp add: SPIN_LOOPS_def)
  show ?case
  proof (cases i)
    case 0
    then show ?thesis using u by (simp add: backoff_wait_def word_less_nat_alt)
  next
    case (Suc j)
    then have "0 < n" using Suc.prems(1) by simp
    then have "unat (bo_counter b + 1) = Suc (unat (bo_counter b))"
      using Suc.prems(2) by (simp add: unat_word_ariths)
    then show ?thesis using Suc.IH [of j "b\<lparr>bo_counter := bo_counter b + 1\<rparr>"] Suc.prems Suc by (simp add: backoff_wait_def)
  qed
qed simp

text \<open>A fresh wait spins 64 times and yields from then on, until the counter wraps after 2 to the 32 steps.\<close>

lemma backoff_profile:
  "n \<le> 2 ^ 32 \<Longrightarrow> i < n \<Longrightarrow> backoff_waits n backoff_new ! i = (if i < 64 then Relax_Spin else Relax_Yield)"
  using backoff_waits_nth [of i n backoff_new] by (simp add: backoff_new_def)

lemma backoff_wraps: "backoff_wait \<lparr>bo_counter = - 1\<rparr> = (Relax_Yield, backoff_new)"
  by (simp add: backoff_wait_def backoff_new_def SPIN_LOOPS_def)

section \<open>Pinning a thread\<close>

datatype pin_outcome = Pin_Nothing | Pin_Unknown_Core nat | Pin_Refused nat | Pinned nat

text \<open>\<open>ids\<close> is what \<open>get_core_ids\<close> reports; \<open>set_core\<close> is \<open>set_for_current\<close>, \<open>None\<close> when it aborts the
  process. The outcomes \<open>Pin_Unknown_Core\<close> and \<open>Pin_Refused\<close> are the two messages on stderr.\<close>

definition pin_thread :: "nat list option \<Rightarrow> (nat \<Rightarrow> bool option) \<Rightarrow> nat list \<Rightarrow> pin_outcome option" where
  "pin_thread ids set_core cores =
     (case cores of
        [] \<Rightarrow> Some Pin_Nothing
      | core # _ \<Rightarrow>
          if \<not> (case ids of None \<Rightarrow> False | Some cs \<Rightarrow> list_ex (\<lambda>c. c = core) cs) then Some (Pin_Unknown_Core core)
          else map_option (\<lambda>ok. if ok then Pinned core else Pin_Refused core) (set_core core))"

text \<open>The drain thread pins itself before its loop when cores were configured.\<close>

definition pin_drain :: "nat list option \<Rightarrow> (nat \<Rightarrow> bool option) \<Rightarrow> nat list option \<Rightarrow> pin_outcome option" where
  "pin_drain ids set_core affinity = (case affinity of None \<Rightarrow> Some Pin_Nothing | Some cores \<Rightarrow> pin_thread ids set_core cores)"

text \<open>The check against the reported cores is what keeps the process alive: the platform call is made
  on a reported core only, on which it does not abort.\<close>

lemma pin_thread_returns:
  assumes "\<And>cs c. ids = Some cs \<Longrightarrow> c \<in> set cs \<Longrightarrow> set_core c \<noteq> None"
  shows "pin_thread ids set_core cores \<noteq> None"
  using assms by (auto simp: pin_thread_def list_ex_iff split: list.splits option.splits)

lemma pin_drain_returns:
  assumes "\<And>cs c. ids = Some cs \<Longrightarrow> c \<in> set cs \<Longrightarrow> set_core c \<noteq> None"
  shows "pin_drain ids set_core affinity \<noteq> None"
  using pin_thread_returns [OF assms] by (simp add: pin_drain_def split: option.splits)

lemma pin_thread_reported:
  "pin_thread ids set_core cores = Some (Pinned c) \<Longrightarrow> \<exists>cs. ids = Some cs \<and> c \<in> set cs \<and> cores \<noteq> [] \<and> c = hd cores"
  by (auto simp: pin_thread_def list_ex_iff split: list.splits option.splits if_splits)

section \<open>The profiler's counters\<close>

definition L_TOTAL :: nat where "L_TOTAL = 0"
definition L_TIMESTAMP :: nat where "L_TIMESTAMP = 1"
definition L_RESERVE :: nat where "L_RESERVE = 2"
definition L_ASSEMBLE :: nat where "L_ASSEMBLE = 3"
definition L_PUBLISH :: nat where "L_PUBLISH = 4"
definition L_COLD_CONFIRM :: nat where "L_COLD_CONFIRM = 5"
definition C_CALLS :: nat where "C_CALLS = 6"
definition C_DROPS :: nat where "C_DROPS = 7"
definition LANES :: nat where "LANES = 8"

text \<open>The lanes of a thread; \<open>enabled\<close> is the Cargo feature. Indexing outside the array panics.\<close>

definition lanes_new :: "u64 list" where
  "lanes_new = replicate LANES 0"

definition lane_tick :: "bool \<Rightarrow> u64 \<Rightarrow> u64" where
  "lane_tick enabled counter = (if enabled then counter else 0)"

definition lane_add :: "bool \<Rightarrow> nat \<Rightarrow> u64 \<Rightarrow> u64 list \<Rightarrow> u64 list option" where
  "lane_add enabled lane delta lanes =
     (if \<not> enabled then Some lanes
      else if lane < length lanes then Some (lanes[lane := lanes ! lane + delta])
      else None)"

definition lane_bump :: "bool \<Rightarrow> nat \<Rightarrow> u64 list \<Rightarrow> u64 list option" where
  "lane_bump enabled lane lanes = lane_add enabled lane 1 lanes"

definition lane_take :: "u64 list \<Rightarrow> u64 list \<times> u64 list" where
  "lane_take lanes = (lanes, lanes_new)"

fun lane_adds :: "bool \<Rightarrow> (nat \<times> u64) list \<Rightarrow> u64 list \<Rightarrow> u64 list option" where
  "lane_adds enabled [] lanes = Some lanes"
| "lane_adds enabled ((lane, delta) # ds) lanes =
     (case lane_add enabled lane delta lanes of None \<Rightarrow> None | Some lanes' \<Rightarrow> lane_adds enabled ds lanes')"

text \<open>After any additions a lane holds the sum of its own deltas, modulo 2 to the 64.\<close>

lemma lane_adds_sum:
  assumes "\<forall>(lane, delta)\<in>set ds. lane < length lanes"
  shows "\<exists>lanes'. lane_adds True ds lanes = Some lanes' \<and> length lanes' = length lanes \<and>
    (\<forall>i<length lanes. lanes' ! i = lanes ! i + sum_list (map snd (filter (\<lambda>d. fst d = i) ds)))"
  using assms
proof (induction ds arbitrary: lanes)
  case (Cons d ds)
  obtain lane delta where d: "d = (lane, delta)" by fastforce
  have "\<forall>(l, x)\<in>set ds. l < length (lanes[lane := lanes ! lane + delta])" using Cons.prems by auto
  from Cons.IH [OF this] Cons.prems show ?case by (auto simp: d lane_add_def nth_list_update add.assoc)
qed simp

lemma lane_adds_off: "lane_adds False ds lanes = Some lanes"
  by (induction ds) (auto simp: lane_add_def)

end
