(* ===== verification/Config_Properties.thy ===== *)
theory Config_Properties
  imports Config
begin

text \<open>When configuration succeeds, what its errors leave behind, and that it happens once.\<close>

definition config_valid :: "32 word \<Rightarrow> nat \<Rightarrow> bytes \<Rightarrow> bool" where
  "config_valid tz cap fmt \<longleftrightarrow> - 43200 \<le> sint tz \<and> sint tz \<le> 50400 \<and> is_power_of_two cap \<and> SLOT_SIZE \<le> cap \<and>
     (\<exists>pat. template_parse (if fmt = [] then DEFAULT_LINE_PATTERN else fmt) = Inr pat)"

lemma tz_bounds: "sint MIN_TZ_OFFSET = - 43200" "sint MAX_TZ_OFFSET = 50400"
  by (simp_all add: MIN_TZ_OFFSET_def MAX_TZ_OFFSET_def)

lemma configure_ok:
  assumes "g_registry g = None" "g_segments g = None" "g_capacity g = None"
    "calibrate (bt_freq bt) (bt_wall bt) (bt_counter bt) \<noteq> None" "bt_spawn bt = None" and valid: "config_valid tz cap fmt"
  shows "\<exists>d g1. configure_rt fifo bt s tz cap fmt policy g = Some (Inr d, g1) \<and> g_registry g1 = Some [] \<and>
      g_capacity g1 = Some cap \<and> dr_sink d = s \<and> dr_rings d = [] \<and>
      (dr_segmented d \<longleftrightarrow> g_segments g1 \<noteq> None) \<and> (g_segments g1 \<noteq> None \<longleftrightarrow> policy \<in> {NanoLog, Quill} \<and> \<not> fifo)"
proof -
  obtain pat where pat: "template_parse (if fmt = [] then DEFAULT_LINE_PATTERN else fmt) = Inr pat"
    and v: "- 43200 \<le> sint tz" "sint tz \<le> 50400" "is_power_of_two cap" "SLOT_SIZE \<le> cap"
    using valid by (auto simp: config_valid_def)
  obtain c where c: "calibrate (bt_freq bt) (bt_wall bt) (bt_counter bt) = Some c" using assms(4) by blast
  have nv: "\<not> cap < SLOT_SIZE" using v(4) by simp
  show ?thesis
  proof (cases "policy \<in> {NanoLog, Quill} \<and> \<not> fifo")
    case seg: True
    define g2 where "g2 = g\<lparr>g_policy := set_once policy (g_policy g), g_registry := Some []\<rparr>"
    obtain sg h where si: "segments_init policy cap tz c pat (raw_sink s) (g_heap g2) = Some (sg, h)"
      using segments_init_ok [OF v(3,4)] seg by blast
    have "install_segments policy cap tz c pat (raw_sink s) g2 = Some (True, g2\<lparr>g_heap := h, g_segments := Some sg\<rparr>)"
      using si assms(2) by (simp add: install_segments_def g2_def)
    then show ?thesis
      using seg v nv pat c assms(1-5) by (simp add: configure_rt_def tz_bounds drain_new_def Let_def g2_def)
  next
    case False
    then show ?thesis
      using v nv pat c assms(1-5) by (auto simp: configure_rt_def tz_bounds drain_new_def Let_def)
  qed
qed

text \<open>C18: Configuring a fresh process never panics and succeeds exactly on valid settings: a timezone
  offset within twelve hours west and fourteen east of UTC, a power-of-two capacity of at least one
  slot, and a pattern that parses. Success claims an empty registry, records the capacity and
  starts a drain that is segmented just when a segment pool was installed, which a FIFO backend
  never does. On invalid settings the error is one without a source and the process is untouched,
  so a corrected call can still succeed.\<close>

theorem configure_valid:
  assumes "g_registry g = None" "g_segments g = None" "g_capacity g = None"
    "calibrate (bt_freq bt) (bt_wall bt) (bt_counter bt) \<noteq> None" "bt_spawn bt = None"
  shows "if config_valid tz cap fmt
    then \<exists>d g1. configure_rt fifo bt s tz cap fmt policy g = Some (Inr d, g1) \<and> g_registry g1 = Some [] \<and>
      g_capacity g1 = Some cap \<and> dr_sink d = s \<and> dr_rings d = [] \<and>
      (dr_segmented d \<longleftrightarrow> g_segments g1 \<noteq> None) \<and> (g_segments g1 \<noteq> None \<longleftrightarrow> policy \<in> {NanoLog, Quill} \<and> \<not> fifo)
    else \<exists>err. configure_rt fifo bt s tz cap fmt policy g = Some (Inl err, g) \<and> error_source err = None"
proof (cases "config_valid tz cap fmt")
  case False
  then show ?thesis
    by (auto simp: config_valid_def configure_rt_def tz_bounds split: sum.splits)
next
  case True
  then show ?thesis using configure_ok [OF assms True, of fifo s policy] by simp
qed

definition demo_boot :: boot where
  "demo_boot = \<lparr>bt_freq = 1000000000, bt_wall = 0, bt_counter = 0, bt_spawn = None\<rparr>"

definition fresh_globals :: globals where
  "fresh_globals = \<lparr>g_heap = \<lparr>h_cell = (\<lambda>_. from_storage [] 0 False), h_next = 0\<rparr>, g_registry = None, g_serial = 0,
     g_capacity = None, g_policy = None, g_segments = None\<rparr>"

lemma demo_boot_calibrates: "calibrate (bt_freq demo_boot) (bt_wall demo_boot) (bt_counter demo_boot) \<noteq> None"
  by (simp add: calibrate_def system_time_to_nanos_def demo_boot_def)

lemma demo_config: "config_valid 3600 4096 []" "\<not> config_valid 3600 1000 []"
proof -
  have "case template_parse DEFAULT_LINE_PATTERN of Inr p \<Rightarrow> True | Inl e \<Rightarrow> False" by code_simp
  then have "\<exists>pat. template_parse DEFAULT_LINE_PATTERN = Inr pat" by (auto split: sum.splits)
  moreover have "is_power_of_two 4096" "\<not> is_power_of_two 1000" "SLOT_SIZE \<le> 4096" by code_simp+
  ultimately show "config_valid 3600 4096 []" "\<not> config_valid 3600 1000 []" by (simp_all add: config_valid_def)
qed

theorem configure_valid_witness:
  "(\<exists>d g1. configure_rt False demo_boot NullSink 3600 4096 [] Drop fresh_globals = Some (Inr d, g1) \<and> g_registry g1 = Some []) \<and>
   (\<exists>err. configure_rt False demo_boot NullSink 3600 1000 [] Drop fresh_globals = Some (Inl err, fresh_globals))"
  using configure_valid [of fresh_globals demo_boot 3600 4096 "[]" False NullSink Drop]
    configure_valid [of fresh_globals demo_boot 3600 1000 "[]" False NullSink Drop] demo_config demo_boot_calibrates
  by (auto simp: fresh_globals_def demo_boot_def)

text \<open>C19: Configuration happens once. After a call that claimed the registry, be it a success or a
  failure to spawn the drain thread, every further call returns an error, whatever its settings, and
  leaves the registry, the rings, the segment pool, the capacity and the policy as they are; with
  valid settings the error is \<open>AlreadyInitialized\<close>. The call itself does not panic, as a comment of
  \<open>configure!\<close> says it does; its caller's \<open>unwrap\<close> may.\<close>

theorem configure_once:
  assumes "configure_rt fifo bt s tz cap fmt policy g = Some (res, g1)"
    "(\<exists>d. res = Inr d) \<or> (\<exists>err. res = Inl (DrainSpawnFailed err))"
  shows "\<exists>err. configure_rt fifo' bt' s' tz' cap' fmt' policy' g1 = Some (Inl err, g1) \<and>
    (config_valid tz' cap' fmt' \<longrightarrow> err = AlreadyInitialized)"
proof -
  have "g_registry g1 \<noteq> None" "g_policy g1 \<noteq> None"
    using assms by (auto simp: configure_rt_def Let_def install_segments_def set_once_def
        split: if_splits sum.splits option.splits prod.splits bool.splits)
  then obtain p where "g1\<lparr>g_policy := set_once x (g_policy g1)\<rparr> = g1" for x by auto
  then show ?thesis
    using \<open>g_registry g1 \<noteq> None\<close>
    by (auto simp: configure_rt_def config_valid_def tz_bounds Let_def not_less split: sum.splits)
qed

theorem configure_once_witness:
  "\<forall>fifo' bt' s' tz' cap' fmt' policy'. \<exists>err g1. configure_rt fifo' bt' s' tz' cap' fmt' policy' g1 = Some (Inl err, g1) \<and>
     g_registry g1 = Some []"
proof (intro allI)
  fix fifo' bt' s' tz' cap' fmt' policy'
  obtain d g1 where "configure_rt False demo_boot NullSink 3600 4096 [] Drop fresh_globals = Some (Inr d, g1)" "g_registry g1 = Some []"
    using configure_ok [of fresh_globals demo_boot 3600 4096 "[]" False NullSink Drop] demo_config demo_boot_calibrates
    by (auto simp: fresh_globals_def demo_boot_def)
  from configure_once [OF this(1)] this(2)
  show "\<exists>err g1. configure_rt fifo' bt' s' tz' cap' fmt' policy' g1 = Some (Inl err, g1) \<and> g_registry g1 = Some []"
    by blast
qed

end
