(* ===== verification/Channel_Properties.thy ===== *)
theory Channel_Properties
  imports Channel Spsc_Properties
begin

text \<open>The channel contract, read off for the buffers that provide it.\<close>

text \<open>C9: The ring is a FIFO channel. Whatever sequence of record writes and whole drain passes
  is run on a fresh ring, under every policy, the records the drain received are a prefix of the
  records the ring accepted, in order and unchanged, and the ring holds exactly the rest.
  The feature \<open>watermark-head\<close> is off; with it a full ring can stall.\<close>

theorem ring_fifo:
  assumes "with_capacity cap = Some r" "cap < 2 ^ 64" "\<not> watermark_head ft" "length ops < 2 ^ 46"
    "puts_ok ops" "chan_run (ring_put ft policy) (ring_take ft) ops r [] [] = Some (r', acc, del)"
  shows "\<exists>rs. acc = del @ rs \<and> map_option fst (ring_take ft r') = Some rs"
  using ring.run_delivers [OF ring_holds_fresh [OF assms(1-4)] assms(5,6)] .

theorem ring_fifo_witness:
  "\<exists>r' acc. chan_run (ring_put default_features Drop) (ring_take default_features) [Put (demo_record 7), Take, Put (demo_record 8)] demo_ring [] [] =
     Some (r', acc, [demo_record 7]) \<and> map_option fst (ring_take default_features r') = Some [demo_record 8]"
proof -
  let ?ops = "[Put (demo_record 7), Take, Put (demo_record 8)]"
  have run: "case chan_run (ring_put default_features Drop) (ring_take default_features) ?ops demo_ring [] [] of None \<Rightarrow> False
    | Some (r', acc, del) \<Rightarrow> acc = [demo_record 7, demo_record 8] \<and> del = [demo_record 7]"
    by code_simp
  then obtain r' acc del where r: "chan_run (ring_put default_features Drop) (ring_take default_features) ?ops demo_ring [] [] = Some (r', acc, del)"
    "acc = [demo_record 7, demo_record 8]" "del = [demo_record 7]"
    by (auto split: option.splits)
  have "puts_ok ?ops" by code_simp
  then show ?thesis
    using ring_fifo [OF demo_ring_ok _ _ _ _ r(1)] r by (auto simp: default_features_def)
qed

end
