(* ===== verification/Text_Properties.thy ===== *)
theory Text_Properties
  imports Decode Channel
begin

text \<open>
  What the text side guarantees: value formatting, format strings, line patterns, timestamps and
  the decoding of records, each statement with a concrete instance where it has hypotheses.
\<close>

section \<open>Integers\<close>

definition spec_radix :: "format_spec \<Rightarrow> nat" where
  "spec_radix spec =
     (if fs_type_char spec \<in> {Some 0x78, Some 0x58} then 16
      else if fs_type_char spec = Some 0x6F then 8
      else if fs_type_char spec = Some 0x62 then 2 else 10)"

definition spec_prefix :: "format_spec \<Rightarrow> nat" where
  "spec_prefix spec = (if fs_alternate spec \<and> spec_radix spec \<noteq> 10 then 2 else 0)"

lemma pad_digits_split:
  assumes "length p = n"
  shows "\<exists>k. pad_digits n prec (p @ s) = p @ replicate k 0x30 @ s \<and>
    (\<forall>q. prec = Some q \<longrightarrow> unat q \<le> k + length s)"
proof (cases prec)
  case None
  then show ?thesis by (intro exI [of _ 0]) (simp add: pad_digits_def)
next
  case (Some q)
  show ?thesis
  proof (cases "length s < unat q")
    case True
    then show ?thesis using Some assms
      by (intro exI [of _ "unat q - length s"]) (simp add: pad_digits_def Let_def)
  next
    case False
    then show ?thesis using Some assms by (intro exI [of _ 0]) (simp add: pad_digits_def Let_def)
  qed
qed

lemma format_unsigned_digits:
  "\<exists>p up. length p = spec_prefix spec \<and>
    format_unsigned_impl v spec buf =
      format_with_spec (pad_digits (spec_prefix spec) (fs_precision spec)
        (p @ radix_digits (spec_radix spec) up (unat v))) spec buf"
proof -
  define t where "t = fs_type_char spec"
  consider "t = Some 0x3F" | "t = Some 0x78" | "t = Some 0x58" | "t = Some 0x6F" | "t = Some 0x62"
    | "t \<notin> {Some 0x3F, Some 0x78, Some 0x58, Some 0x6F, Some 0x62}" by blast
  then show ?thesis
  proof cases
    case 1 then show ?thesis
      by (intro exI [of _ "[]"] exI [of _ False])
        (simp add: format_unsigned_impl_def spec_radix_def spec_prefix_def Let_def decimal_def t_def)
  next
    case 2 then show ?thesis
      by (intro exI [of _ "if fs_alternate spec then bs ''0x'' else []"] exI [of _ False])
        (simp add: format_unsigned_impl_def spec_radix_def spec_prefix_def Let_def t_def)
  next
    case 3 then show ?thesis
      by (intro exI [of _ "if fs_alternate spec then bs ''0x'' else []"] exI [of _ True])
        (simp add: format_unsigned_impl_def spec_radix_def spec_prefix_def Let_def t_def)
  next
    case 4 then show ?thesis
      by (intro exI [of _ "if fs_alternate spec then bs ''0o'' else []"] exI [of _ False])
        (simp add: format_unsigned_impl_def spec_radix_def spec_prefix_def Let_def t_def)
  next
    case 5 then show ?thesis
      by (intro exI [of _ "if fs_alternate spec then bs ''0b'' else []"] exI [of _ False])
        (simp add: format_unsigned_impl_def spec_radix_def spec_prefix_def Let_def t_def)
  next
    case 6 then show ?thesis
      by (intro exI [of _ "[]"] exI [of _ False])
        (simp add: format_unsigned_impl_def spec_radix_def spec_prefix_def Let_def decimal_def t_def)
  qed
qed

lemma format_with_spec_no_width: "fs_width spec = None \<Longrightarrow> format_with_spec v spec buf = buf @ v"
  by (simp add: format_with_spec_def)

text \<open>An unsigned integer survives formatting. Without a width, reading the digits behind the
  \<open>0x\<close>, \<open>0o\<close> or \<open>0b\<close> prefix back in the radix of the type character gives the value,
  whatever the precision, and there are at least as many digits as the precision asks for.\<close>

theorem format_u64_reads_back:
  assumes "fs_width spec = None"
  shows "read_radix (spec_radix spec) (drop (spec_prefix spec) (format_u64 v spec [])) = unat v \<and>
    (\<forall>p. fs_precision spec = Some p \<longrightarrow> unat p \<le> length (format_u64 v spec []) - spec_prefix spec)"
proof -
  obtain p up where p: "length p = spec_prefix spec"
    and f: "format_u64 v spec [] = pad_digits (spec_prefix spec) (fs_precision spec)
        (p @ radix_digits (spec_radix spec) up (unat v))"
    using format_unsigned_digits [of spec v "[]"] assms
    by (auto simp: format_u64_def format_with_spec_no_width)
  obtain k where k: "format_u64 v spec [] = p @ replicate k 0x30 @ radix_digits (spec_radix spec) up (unat v)"
    "\<forall>q. fs_precision spec = Some q \<longrightarrow> unat q \<le> k + length (radix_digits (spec_radix spec) up (unat v))"
    using pad_digits_split [OF p] f by metis
  have "read_radix (spec_radix spec) (radix_digits (spec_radix spec) up (unat v)) = unat v"
    by (rule radix_digits_read) (simp_all add: spec_radix_def)
  then show ?thesis using k p by (auto simp: read_radix_zeros)
qed

theorem format_u64_reads_back_witness:
  "read_radix 16 (drop 2 (format_u64 48879 (default_spec\<lparr>fs_alternate := True, fs_type_char := Some 0x78\<rparr>) [])) = 48879"
  using format_u64_reads_back [of "default_spec\<lparr>fs_alternate := True, fs_type_char := Some 0x78\<rparr>" 48879]
  by (simp add: default_spec_def spec_radix_def spec_prefix_def)

text \<open>A signed integer survives formatting: without a width, reading the sign and the digits
  back gives the two's complement value of the argument, at any precision.\<close>

theorem format_i64_reads_back:
  assumes "fs_width spec = None"
  shows "read_signed (format_i64 w spec []) = sint w"
proof -
  define i where "i = sint w"
  define p where "p = (if i < 0 then [MINUS] else [])"
  have sd: "signed_decimal i = p @ decimal (nat \<bar>i\<bar>)" by (simp add: signed_decimal_def p_def)
  have "length p = (if i < 0 then 1 else 0)" by (simp add: p_def)
  from pad_digits_split [OF this, of "fs_precision spec" "decimal (nat \<bar>i\<bar>)"] obtain k where
    "format_i64 w spec [] = p @ replicate k 0x30 @ decimal (nat \<bar>i\<bar>)"
    using assms by (auto simp: format_i64_def format_signed_impl_def format_with_spec_no_width Let_def
        i_def [symmetric] sd)
  moreover have "\<not> starts MINUS (replicate k 0x30 @ decimal (nat \<bar>i\<bar>))"
    using radix_digits_hd [of 10 False] by (cases k) (auto simp: decimal_def)
  moreover have "read_radix 10 (decimal n) = n" for n by (simp add: decimal_def radix_digits_read)
  ultimately show ?thesis
    by (auto simp: read_signed_def p_def read_radix_zeros i_def)
qed

theorem format_i64_reads_back_witness:
  "read_signed (format_i64 (- 42) (default_spec\<lparr>fs_precision := Some 5\<rparr>) []) = - 42"
  using format_i64_reads_back [of "default_spec\<lparr>fs_precision := Some 5\<rparr>" "- 42"]
  by (simp add: default_spec_def)

text \<open>Padding never cuts a value: the value appears whole between runs of the fill byte, and
  the field is exactly as wide as the larger of the width and the value.\<close>

theorem format_with_spec_pads:
  "\<exists>l r. format_with_spec v spec buf =
      buf @ replicate l (spec_fill spec) @ v @ replicate r (spec_fill spec) \<and>
    l + length v + r = max (spec_width spec) (length v)"
proof -
  obtain l r where "format_with_spec v spec buf =
      buf @ replicate l (spec_fill spec) @ v @ replicate r (spec_fill spec)"
    "l + r = spec_width spec - length v" using format_with_spec_shape by blast
  then show ?thesis by (intro exI [of _ l] exI [of _ r]) auto
qed

section \<open>Format specs\<close>

text \<open>The text of a spec, and which specs have one.\<close>

definition align_char :: "align \<Rightarrow> bytes" where
  "align_char a = (case a of AlignNone \<Rightarrow> [] | AlignLeft \<Rightarrow> [0x3C] | AlignRight \<Rightarrow> [0x3E] | AlignCenter \<Rightarrow> [0x5E])"

definition print_fill_align :: "format_spec \<Rightarrow> bytes" where
  "print_fill_align fs = (if fs_fill fs = 0x20 then [] else [fs_fill fs]) @ align_char (fs_align fs)"

definition print_num :: "u16 option \<Rightarrow> bytes" where
  "print_num w = (case w of None \<Rightarrow> [] | Some n \<Rightarrow> decimal (unat n))"

definition print_tail :: "format_spec \<Rightarrow> bytes" where
  "print_tail fs = (if fs_alternate fs then [HASH] else []) @
     (case fs_type_char fs of None \<Rightarrow> [] | Some c \<Rightarrow> [c])"

definition print_prec :: "format_spec \<Rightarrow> bytes" where
  "print_prec fs = (if fs_precision fs = None then [] else DOT # print_num (fs_precision fs)) @ print_tail fs"

definition print_spec :: "format_spec \<Rightarrow> bytes" where
  "print_spec fs = print_fill_align fs @ (if fs_zero_fill fs then [ZERO] else []) @
     print_num (fs_width fs) @ print_prec fs"

definition spec_ok :: "format_spec \<Rightarrow> bool" where
  "spec_ok fs \<longleftrightarrow> (fs_align fs = AlignNone \<longrightarrow> fs_fill fs = 0x20) \<and> is_valid_fill (fs_fill fs) \<and>
     fs_fill fs \<noteq> RBRACE \<and> (fs_width fs = Some 0 \<longrightarrow> fs_zero_fill fs) \<and>
     (\<forall>c. fs_type_char fs = Some c \<longrightarrow> is_type_char c)"

lemma sat_digit_char:
  assumes "10 * n + d \<le> 65535" "d < 10"
  shows "sat_digit (word_of_nat n) (digit_char False d) = word_of_nat (10 * n + d)"
proof -
  have "unat (word_of_nat n :: u16) = n" using assms by (simp add: unat_of_nat)
  moreover have "unat (digit_char False d) = 48 + d" by (rule unat_digit_char [OF assms(2)])
  ultimately show ?thesis using assms by (simp add: sat_digit_def mult.commute)
qed

lemma sat_decimal: "n \<le> 65535 \<Longrightarrow> foldl sat_digit 0 (decimal n) = word_of_nat n"
  unfolding decimal_def
proof (induction n rule: less_induct)
  case (less n)
  show ?case
  proof (cases "n < 10")
    case True
    then show ?thesis using sat_digit_char [of 0 n] by (subst radix_digits.simps) simp
  next
    case False
    have "foldl sat_digit 0 (radix_digits 10 False (n div 10)) = word_of_nat (n div 10)"
      using False less.prems by (intro less.IH) simp_all
    moreover have "10 * (n div 10) + n mod 10 = n" by simp
    ultimately show ?thesis
      using False less.prems sat_digit_char [of "n div 10" "n mod 10"] by (subst radix_digits.simps) simp
  qed
qed

lemma takeWhile_decimal:
  assumes "r = [] \<or> \<not> is_digit (hd r)"
  shows "takeWhile is_digit (decimal n @ r) = decimal n" "dropWhile is_digit (decimal n @ r) = r"
proof -
  have all: "\<And>c. c \<in> set (decimal n) \<Longrightarrow> is_digit c" using decimal_digits by (simp add: list_all_iff)
  have "takeWhile is_digit r = []" "dropWhile is_digit r = r" using assms by (cases r; simp)+
  then show "takeWhile is_digit (decimal n @ r) = decimal n" "dropWhile is_digit (decimal n @ r) = r"
    using all by (simp_all add: takeWhile_append2 dropWhile_append2)
qed

lemma parse_num_decimal:
  assumes "r = [] \<or> \<not> is_digit (hd r)"
  shows "parse_num (decimal (unat (w :: u16)) @ r) = w"
  using sat_decimal [of "unat w"] unat_lt [of w] takeWhile_decimal(1) [OF assms]
  by (simp add: parse_num_def)

lemma align_class:
  "is_digit c \<Longrightarrow> \<not> is_align_char c" "is_type_char c \<Longrightarrow> \<not> is_align_char c"
  "is_type_char c \<Longrightarrow> \<not> is_digit c \<and> c \<noteq> ZERO \<and> c \<noteq> DOT \<and> c \<noteq> HASH"
  "\<not> is_align_char HASH" "\<not> is_align_char DOT" "\<not> is_align_char ZERO"
  by (auto simp: is_digit_def is_align_char_def is_type_char_def word_le_nat_alt)

lemma spec_fill_align_plain:
  "\<forall>c\<in>set s. \<not> is_align_char c \<Longrightarrow> spec_fill_align s = (default_spec, s)"
  by (cases s rule: spec_fill_align.cases) auto

lemma spec_fill_align_print:
  assumes "spec_ok fs" and r: "\<forall>c\<in>set r. \<not> is_align_char c"
  shows "spec_fill_align (print_fill_align fs @ r) =
    (default_spec\<lparr>fs_fill := fs_fill fs, fs_align := fs_align fs\<rparr>, r)"
proof -
  have al: "\<exists>c. align_char a = [c] \<and> is_align_char c \<and> align_of c = a" if "a \<noteq> AlignNone" for a
    using that by (cases a) (auto simp: align_char_def is_align_char_def align_of_def)
  show ?thesis
  proof (cases "fs_align fs = AlignNone")
    case True
    then show ?thesis
      using assms by (simp add: print_fill_align_def spec_ok_def align_char_def spec_fill_align_plain)
        (simp add: default_spec_def)
  next
    case False
    then obtain c where c: "align_char (fs_align fs) = [c]" "is_align_char c" "align_of c = fs_align fs"
      using al by blast
    show ?thesis
    proof (cases "fs_fill fs = 0x20")
      case True
      then show ?thesis using c r by (cases r) (auto simp: print_fill_align_def default_spec_def)
    next
      case False
      then show ?thesis using c by (simp add: print_fill_align_def)
    qed
  qed
qed

text \<open>The parts behind the alignment: none of their bytes is mistaken for another part.\<close>

lemma print_tail_chars:
  assumes "spec_ok fs"
  shows "\<forall>c\<in>set (print_tail fs). \<not> is_align_char c \<and> \<not> is_digit c \<and> c \<noteq> ZERO \<and> c \<noteq> DOT"
    "starts HASH (print_tail fs) \<longleftrightarrow> fs_alternate fs"
    "skip_hash (print_tail fs) = (case fs_type_char fs of None \<Rightarrow> [] | Some c \<Rightarrow> [c])"
proof -
  have ty: "fs_type_char fs = Some c \<Longrightarrow> is_type_char c" for c using assms by (simp add: spec_ok_def)
  show "\<forall>c\<in>set (print_tail fs). \<not> is_align_char c \<and> \<not> is_digit c \<and> c \<noteq> ZERO \<and> c \<noteq> DOT"
    "starts HASH (print_tail fs) \<longleftrightarrow> fs_alternate fs"
    "skip_hash (print_tail fs) = (case fs_type_char fs of None \<Rightarrow> [] | Some c \<Rightarrow> [c])"
  proof (atomize (full), cases "fs_type_char fs")
    case (Some c)
    have "\<not> is_align_char c" "\<not> is_digit c" "c \<noteq> ZERO" "c \<noteq> DOT" "c \<noteq> HASH"
      using align_class(2,3) ty [OF Some] by blast+
    then show "(\<forall>c\<in>set (print_tail fs). \<not> is_align_char c \<and> \<not> is_digit c \<and> c \<noteq> ZERO \<and> c \<noteq> DOT) \<and>
        (starts HASH (print_tail fs) \<longleftrightarrow> fs_alternate fs) \<and>
        skip_hash (print_tail fs) = (case fs_type_char fs of None \<Rightarrow> [] | Some c \<Rightarrow> [c])"
      using Some align_class(4) by (auto simp: print_tail_def skip_hash_def)
  qed (use align_class(4) in \<open>auto simp: print_tail_def skip_hash_def\<close>)
qed

lemma print_num_chars: "\<forall>c\<in>set (print_num w). is_digit c"
  using decimal_digits by (auto simp: print_num_def list_all_iff split: option.splits)

lemma print_prec_chars:
  assumes "spec_ok fs"
  shows "\<forall>c\<in>set (print_prec fs). \<not> is_align_char c" "print_prec fs = [] \<or> \<not> is_digit (hd (print_prec fs))"
    "\<not> starts ZERO (print_prec fs)"
proof -
  note t = print_tail_chars(1) [OF assms] note n = print_num_chars [of "fs_precision fs"]
  show "\<forall>c\<in>set (print_prec fs). \<not> is_align_char c"
    using t n align_class(1,5) by (auto simp: print_prec_def)
  have "print_tail fs = [] \<or> \<not> is_digit (hd (print_tail fs)) \<and> hd (print_tail fs) \<noteq> ZERO"
    using t by (cases "print_tail fs") auto
  then show "print_prec fs = [] \<or> \<not> is_digit (hd (print_prec fs))" "\<not> starts ZERO (print_prec fs)"
    by (auto simp: print_prec_def starts_def)
qed

lemma print_num_parse:
  assumes "r = [] \<or> \<not> is_digit (hd r)"
  shows "dropWhile is_digit (print_num w @ r) = r"
    "w \<noteq> None \<Longrightarrow> parse_num (print_num w @ r) = the w"
    "w \<noteq> None \<Longrightarrow> print_num w @ r \<noteq> [] \<and> is_digit (hd (print_num w @ r))"
    "w = None \<Longrightarrow> print_num w @ r = r"
proof -
  show "dropWhile is_digit (print_num w @ r) = r"
    using assms takeWhile_decimal(2) [OF assms] by (cases w; cases r) (auto simp: print_num_def)
  show "w \<noteq> None \<Longrightarrow> parse_num (print_num w @ r) = the w"
    using parse_num_decimal [OF assms] by (auto simp: print_num_def)
  show "w \<noteq> None \<Longrightarrow> print_num w @ r \<noteq> [] \<and> is_digit (hd (print_num w @ r))"
    using decimal_hd(2) decimal_digits list.set_sel(1) by (fastforce simp: print_num_def list_all_iff)
  show "w = None \<Longrightarrow> print_num w @ r = r" by (simp add: print_num_def)
qed

text \<open>C25: Printing and parsing a format spec are inverse: every part (fill, alignment, zero flag,
  width, precision, alternate flag, type character) is read back as written.\<close>

theorem parse_print_spec:
  assumes "spec_ok fs"
  shows "parse_spec_body (print_spec fs) = fs"
proof -
  define P where "P = print_prec fs"
  define W where "W = print_num (fs_width fs) @ P"
  define Z where "Z = (if fs_zero_fill fs then [ZERO] else []) @ W"
  note pc = print_prec_chars [OF assms, folded P_def]
  note w = print_num_parse [OF pc(2), of "fs_width fs", folded W_def]
  have zs: "\<forall>c\<in>set Z. \<not> is_align_char c"
    using pc(1) print_num_chars [of "fs_width fs"] align_class(1,6) by (auto simp: Z_def W_def)
  have fa: "spec_fill_align (print_spec fs) =
      (default_spec\<lparr>fs_fill := fs_fill fs, fs_align := fs_align fs\<rparr>, Z)"
    using spec_fill_align_print [OF assms zs] by (simp add: print_spec_def Z_def W_def P_def)
  have z0: "starts ZERO Z \<longleftrightarrow> fs_zero_fill fs" and zW: "skip_zero Z = W"
  proof -
    have "\<not> starts ZERO W" if "\<not> fs_zero_fill fs"
    proof (cases "fs_width fs")
      case None
      then show ?thesis using pc(3) w(4) by simp
    next
      case (Some n)
      then have "0 < unat n" using assms that by (auto simp: spec_ok_def unat_gt_0)
      then show ?thesis using Some decimal_hd by (auto simp: W_def print_num_def starts_def)
    qed
    then show "starts ZERO Z \<longleftrightarrow> fs_zero_fill fs" "skip_zero Z = W"
      by (auto simp: Z_def skip_zero_def)
  qed
  have wd: "W \<noteq> [] \<and> is_digit (hd W) \<longleftrightarrow> fs_width fs \<noteq> None" and wP: "skip_width W = P"
    using w pc(2) by (cases "fs_width fs"; auto simp: skip_width_def)+
  note tc = print_tail_chars [OF assms]
  have tl: "print_tail fs = [] \<or> \<not> is_digit (hd (print_tail fs))" "\<not> starts DOT (print_tail fs)"
    using tc(1) by (cases "print_tail fs"; auto)+
  note pn = print_num_parse [OF tl(1), of "fs_precision fs"]
  have dot: "starts DOT P \<longleftrightarrow> fs_precision fs \<noteq> None"
    and after: "(if starts DOT P then dropWhile is_digit (tl P) else P) = print_tail fs"
    using tl(2) pn(1) by (auto simp: P_def print_prec_def)
  have prec: "fs_precision fs \<noteq> None \<Longrightarrow> parse_num (tl P) = the (fs_precision fs)"
    using pn(2) by (auto simp: P_def print_prec_def)
  have ty: "fs_type_char fs = Some c \<Longrightarrow> is_type_char c" for c using assms by (simp add: spec_ok_def)
  show ?thesis
    unfolding parse_spec_body_def fa Let_def prod.case z0 zW wd wP dot after [unfolded dot] tc(2,3)
    using w(2) prec ty
    by (cases fs; cases "fs_width fs"; cases "fs_precision fs"; cases "fs_type_char fs")
      (auto simp: default_spec_def)
qed

theorem parse_print_spec_witness:
  "parse_spec_body (print_spec (default_spec\<lparr>fs_fill := 0x2A, fs_align := AlignCenter,
      fs_width := Some 12, fs_precision := Some 3, fs_alternate := True, fs_type_char := Some 0x78\<rparr>)) =
    default_spec\<lparr>fs_fill := 0x2A, fs_align := AlignCenter,
      fs_width := Some 12, fs_precision := Some 3, fs_alternate := True, fs_type_char := Some 0x78\<rparr>"
  by (rule parse_print_spec)
    (simp add: spec_ok_def default_spec_def is_valid_fill_def is_type_char_def)

text \<open>C24: The run-time spec validator and the compile-time one agree. For a body without a closing
  brace, \<open>validate_spec_rt\<close> accepts exactly when \<open>parse_spec_const\<close> stops at the brace behind
  the body, reports the same error when that one fails, and trailing characters otherwise.\<close>

theorem spec_validators_agree:
  assumes "RBRACE \<notin> set body"
  shows "validate_spec_rt body =
    (case parse_spec_const (body @ RBRACE # rest) of
       Inl e \<Rightarrow> Inl e
     | Inr s \<Rightarrow> if starts RBRACE s then Inr () else Inl Trailing)"
  using assms by (rule spec_validators)

theorem spec_validators_agree_witness:
  "validate_spec_rt (bs ''*>08.3#x'') = Inr () \<and> validate_spec_rt (bs ''x9'') = Inl Trailing"
  using spec_validators_agree [of "bs ''*>08.3#x''" "[]"] spec_validators_agree [of "bs ''x9''" "[]"]
  by (simp add: parse_spec_const_def skip_zero_def skip_width_def skip_precision_def skip_hash_def
      is_align_char_def is_valid_fill_def is_digit_def is_type_char_def Let_def word_le_nat_alt)

text \<open>C21: A format string that passes \<open>check_fmt\<close> for \<open>n\<close> arguments has exactly \<open>n\<close> places to
  fill, so formatting any \<open>n\<close> values succeeds with no argument missing or left over, and the
  drain's \<open>interleave\<close> produces that text from the encoded arguments and consumes them exactly.\<close>

theorem checked_format_total:
  assumes "check_fmt fmt (length as) = Some ()" "list_all arg_ok as"
  shows "places (fmt_items fmt) = length as \<and>
    (\<exists>line. format_message sf (fmt_items fmt) as buf = Some line \<and>
      interleave sf fmt (map type_tag as) True (concat (map payload as) @ c) buf = Some (c, line))"
proof -
  have "validate_loop fmt 0 = Inr (length as)"
    using assms(1) by (auto simp: check_fmt_def validate_fmt_def split: sum.splits if_splits)
  then have "places (fmt_items fmt) = length as" using validate_loop_places by fastforce
  moreover obtain line where "format_message sf (fmt_items fmt) as buf = Some line"
    "interleave sf fmt (map type_tag as) True (concat (map payload as) @ c) buf = Some (c, line)"
    using checked_message [OF assms] by metis
  ultimately show ?thesis by blast
qed

definition demo_fmt :: bytes where "demo_fmt = bs ''id={:>4} {{ok}} {name}''"
definition demo_args :: "arg list" where "demo_args = [U32 7, Str (bs ''bob'')]"
definition demo_std :: std_fmt where
  "demo_std = \<lparr>str_debug = (\<lambda>_ s. s), f64_debug = (\<lambda>_ _. []), f64_exp = (\<lambda>_ _ _. []),
     f64_display = (\<lambda>_ _. [])\<rparr>"

lemma demo_checked: "check_fmt demo_fmt (length demo_args) = Some ()"
  by code_simp

lemma demo_args_ok: "list_all arg_ok demo_args"
  by code_simp

theorem checked_format_total_witness:
  "\<exists>line. interleave demo_std demo_fmt (map type_tag demo_args) True
     (concat (map payload demo_args) @ [1]) [] = Some ([1], line)"
  using checked_format_total [OF demo_checked demo_args_ok] by blast

text \<open>A line pattern that parses names the message at most once.\<close>

theorem pattern_one_message:
  assumes "template_parse pat = Inr segs"
  shows "length (filter is_message segs) \<le> 1"
  using assms template_loop_message [of pat "[]" "[]" False segs] by (simp add: template_parse_def)

definition demo_pattern :: bytes where
  "demo_pattern = bs ''{timestamp} [{level:<5}] {thread_name} {message}''"

lemma demo_pattern_parses: "\<exists>segs. template_parse demo_pattern = Inr segs"
proof -
  have "case template_parse demo_pattern of Inl e \<Rightarrow> False | Inr segs \<Rightarrow> True" by code_simp
  then show ?thesis by (auto split: sum.splits)
qed

theorem pattern_one_message_witness:
  "\<exists>segs. template_parse demo_pattern = Inr segs \<and> length (filter is_message segs) \<le> 1"
  using demo_pattern_parses pattern_one_message by blast

text \<open>The text a spec asks for, before padding: under \<open>?\<close> the library's debug form, otherwise the
  first characters of the string, as many as the precision says.\<close>

definition string_body :: "std_fmt \<Rightarrow> format_spec \<Rightarrow> bytes \<Rightarrow> bytes" where
  "string_body sf spec s =
     (if fs_type_char spec = Some 0x3F then str_debug sf (fs_alternate spec) s
      else case fs_precision spec of None \<Rightarrow> s | Some p \<Rightarrow> concat (take (unat p) (utf8_chars s)))"

lemma parsed_fill: "utf8_valid body \<Longrightarrow> spec_fill (parse_spec_body body) < 0x80"
proof -
  assume v: "utf8_valid body"
  have "fs_fill (fst (spec_fill_align body)) < 0x80"
  proof (cases body rule: spec_fill_align.cases)
    case (1 a b s)
    have "utf8_step body = (fst (utf8_step body), True)"
      using v by (cases "utf8_step body") (simp add: 1 utf8_valid.simps [of "a # b # s"])
    moreover have "\<not> second_ok a b" if "is_align_char b"
      using that by (auto simp: is_align_char_def second_ok_def is_cont_def)
    ultimately have "a < 0x80" if "is_align_char b"
      using that by (auto simp: 1 utf8_step_def Let_def at_def char_width_def split: if_splits)
    then show ?thesis by (auto simp: 1 default_spec_def)
  qed (auto simp: default_spec_def)
  then show ?thesis
    by (auto simp: parse_spec_body_def Let_def spec_fill_def split: prod.splits)
qed

text \<open>C27: A string argument prints as text under every spec, whatever its bytes are. For a spec read
  from UTF-8 text the drain consumes exactly the argument's payload and appends valid UTF-8: the
  debug form or the first characters, whole and as many as the precision says, of the argument,
  padded on its sides to the width. Invalid bytes were replaced before, a valid argument is
  taken as it is. The debug form is the standard library's and is itself UTF-8.\<close>

theorem string_argument_text:
  assumes "length s < 65536" "utf8_valid body" "spec = parse_spec_body body"
    "\<forall>alt v. utf8_valid v \<longrightarrow> utf8_valid (str_debug sf alt v)"
  shows "\<exists>t l r. format_arg sf TAG_STR spec (payload (Str s) @ c) buf = Some (True, c, buf @ t) \<and> utf8_valid t \<and>
    t = replicate l (spec_fill spec) @ string_body sf spec (utf8_lossy s) @ replicate r (spec_fill spec) \<and>
    l + r = spec_width spec - length (string_body sf spec (utf8_lossy s)) \<and> (utf8_valid s \<longrightarrow> utf8_lossy s = s)"
proof -
  let ?s = "utf8_lossy s" let ?b = "string_body sf spec ?s"
  have s: "utf8_valid ?s" by (rule utf8_lossy_is_valid)
  have "format_str sf ?s spec buf = format_with_spec ?b spec buf"
    by (simp add: format_str_def string_body_def take_chars_whole [OF s] Let_def split: option.split)
  then have "format_arg sf TAG_STR spec (payload (Str s) @ c) buf = Some (True, c, format_with_spec ?b spec buf)"
    using assms(1) by (simp add: format_arg_def fmt_str_def)
  moreover obtain l r where "format_with_spec ?b spec buf = buf @ replicate l (spec_fill spec) @ ?b @ replicate r (spec_fill spec)"
    "l + r = spec_width spec - length ?b" using format_with_spec_shape by blast
  moreover have "utf8_valid ?b"
    using assms(4) s utf8_chars_valid [OF s]
    by (auto simp: string_body_def list_all_iff split: option.split intro!: utf8_valid_concat) (meson in_set_takeD)
  moreover have "utf8_valid (replicate n (spec_fill spec))" for n using parsed_fill [OF assms(2)] assms(3) by (simp add: utf8_valid_replicate)
  ultimately show ?thesis using utf8_lossy_valid [of s] by (auto intro!: utf8_valid_append)
qed

theorem string_argument_text_witness:
  "\<exists>t. format_arg demo_std TAG_STR (parse_spec_body (bs ''*>6.2'')) (payload (Str [0x61, 0xC3, 0xA9, 0xFF]) @ []) [] = Some (True, [], t) \<and>
    utf8_valid t \<and> t = bs ''***'' @ [0x61, 0xC3, 0xA9]"
proof -
  let ?spec = "parse_spec_body (bs ''*>6.2'')"
  have "utf8_valid (bs ''*>6.2'')" by code_simp
  from string_argument_text [OF _ this refl, of "[0x61, 0xC3, 0xA9, 0xFF]" demo_std "[]" "[]"] obtain t where
    t: "format_arg demo_std TAG_STR ?spec (payload (Str [0x61, 0xC3, 0xA9, 0xFF]) @ []) [] = Some (True, [], t)" "utf8_valid t"
    by (auto simp: demo_std_def)
  moreover have "format_arg demo_std TAG_STR ?spec (payload (Str [0x61, 0xC3, 0xA9, 0xFF]) @ []) [] =
      Some (True, [], bs ''***'' @ [0x61, 0xC3, 0xA9])" by code_simp
  ultimately show ?thesis by simp
qed

section \<open>Timestamps\<close>

text \<open>C23: \<open>civil_from_days\<close> is correct for every day whose year fits its \<open>i32\<close>, from the first of
  January of the year -2147483648 to the last of December of 2147483647: the result is a date of the
  proleptic Gregorian calendar, and counting the days from 1970-01-01 to it gives the input back.
  Beyond these days the year is cut to 32 bits.\<close>

theorem civil_date:
  assumes "day_number (- (2 ^ 31)) 1 1 \<le> sint n" "sint n \<le> day_number (2 ^ 31 - 1) 12 31"
  shows "case civil_from_days n of (y, m, d) \<Rightarrow> valid_date (sint y) (uint m) (uint d) \<and>
    day_number (sint y) (uint m) (uint d) = sint n"
proof -
  obtain y m d where c: "civil_from_days n = (word_of_int y, word_of_int m, word_of_int d)" "valid_date y m d"
    "day_number y m d = sint n" "- (2 ^ 31) \<le> y" "y < 2 ^ 31" by (rule civil_from_days_correct [OF assms])
  have "1 \<le> m" "m \<le> 12" "1 \<le> d" "d \<le> 31" using c(2) by (auto simp: valid_date_def month_days_def split: if_splits)
  then have "uint (word_of_int m :: u32) = m" "uint (word_of_int d :: u32) = d" by (simp_all add: uint_word_of_int)
  moreover have "sint (word_of_int y :: u32) = y"
    using signed_take_bit_int_eq_self [of 31 y] c(4,5) by (simp only: signed_of_int) simp
  ultimately show ?thesis using c(1-3) by simp
qed

theorem civil_date_witness:
  "civil_from_days 19675 = (2023, 11, 14) \<and> valid_date 2023 11 14 \<and> day_number 2023 11 14 = 19675"
proof -
  have "civil_from_days 19675 = (2023, 11, 14)" by code_simp
  moreover have "case civil_from_days 19675 of (y, m, d) \<Rightarrow> valid_date (sint y) (uint m) (uint d) \<and>
      day_number (sint y) (uint m) (uint d) = sint (19675 :: u64)"
    by (rule civil_date) (simp_all add: day_number_def leaps_def days_before_def leap_def)
  ultimately show ?thesis by simp
qed

text \<open>C22: An ISO 8601 timestamp denotes the instant it was rendered from: reading date, time and
  offset back gives the nanoseconds since the epoch, for every instant before 2262 and every
  whole-minute offset below 100 hours. The text has 30 bytes in UTC and 35 otherwise.\<close>

theorem iso8601_round_trip:
  assumes "unat ns < 2 ^ 63" "- (2 ^ 63) \<le> int (unat ns) + sint off * 1000000000"
    "int (unat ns) + sint off * 1000000000 < 2 ^ 63" "\<bar>sint off\<bar> < 360000" "60 dvd sint off"
  shows "iso_instant (format_iso8601 ns off []) = int (unat ns) \<and>
    length (format_iso8601 ns off []) = (if off = 0 then 30 else 35)"
  using format_iso8601_instant [OF assms] by blast

theorem iso8601_round_trip_witness:
  "iso_instant (format_iso8601 1700000000123456789 19800 []) = 1700000000123456789"
proof -
  have "sint (19800 :: 32 word) = 19800" "unat (1700000000123456789 :: u64) = 1700000000123456789"
    by simp_all
  then show ?thesis using iso8601_round_trip [of 1700000000123456789 19800] by simp
qed

text \<open>C26: Later ticks never give earlier times: relative to the calibration point, the converted
  nanoseconds grow with the tick count, through all three floating-point roundings.\<close>

theorem ticks_monotone:
  assumes "t1 - counter_base calib \<le> t2 - counter_base calib"
  shows "ticks_to_ns t1 calib - wall_base_ns calib \<le> ticks_to_ns t2 calib - wall_base_ns calib"
  using elapsed_ns_mono [OF assms, of calib] by (simp add: ticks_to_ns_elapsed)

theorem ticks_monotone_witness:
  "ticks_to_ns 1000 \<lparr>counter_to_ns = counter_to_ns_from_freq 3000000000, counter_base = 10, wall_base_ns = 5\<rparr> - 5
   \<le> ticks_to_ns 5000 \<lparr>counter_to_ns = counter_to_ns_from_freq 3000000000, counter_base = 10, wall_base_ns = 5\<rparr> - 5"
  using ticks_monotone [of 1000 "\<lparr>counter_to_ns = counter_to_ns_from_freq 3000000000, counter_base = 10, wall_base_ns = 5\<rparr>" 5000]
  by (simp add: word_le_nat_alt)

text \<open>With a counter of one tick per nanosecond (also the fallback for an unreported
  frequency), the conversion is exact for the first \<open>2 ^ 53\<close> ticks after calibration.\<close>

theorem ticks_exact_ghz:
  assumes "calibrate freq wall counter = Some calib" "freq \<in> {0, 1000000000}"
    "unat (t - counter) < 2 ^ 53"
  shows "ticks_to_ns t calib = t - counter + wall_base_ns calib"
proof -
  have "counter_to_ns_from_freq 0 = counter_to_ns_from_freq 1000000000"
    by (simp add: counter_to_ns_from_freq_def FALLBACK_COUNTER_HZ_def)
  then have "counter_to_ns calib = counter_to_ns_from_freq 1000000000" "counter_base calib = counter"
    using assms(1,2) by (auto simp: calibrate_def split: option.splits)
  then show ?thesis using elapsed_ns_ghz [of calib "t - counter"] assms(3)
    by (simp add: ticks_to_ns_elapsed)
qed

theorem ticks_exact_ghz_witness:
  "\<exists>calib. calibrate 0 1000 500 = Some calib \<and> ticks_to_ns 700 calib = 200 + wall_base_ns calib"
proof -
  obtain calib where c: "calibrate 0 1000 500 = Some calib"
    by (simp add: calibrate_def system_time_to_nanos_def)
  then show ?thesis using ticks_exact_ghz [OF c, of 700] by simp
qed

text \<open>The TSC frequency from CPUID leaf 0x15 is the exact integer quotient: the saturating
  product of two 32-bit registers never saturates.\<close>

theorem tsc_freq_exact:
  "tsc_freq_from_cpuid_0x15 eax ebx ecx =
    (if eax = 0 \<or> ebx = 0 \<or> ecx = 0 then None
     else Some (word_of_nat (unat ecx * unat ebx div unat eax)))"
proof -
  have lt: "unat ecx * unat ebx < 2 ^ 64"
  proof -
    have "unat ecx * unat ebx \<le> (2 ^ 32 - 1) * (2 ^ 32 - 1)"
      using unat_lt [of ecx] unat_lt [of ebx] by (intro mult_le_mono) simp_all
    then show ?thesis by simp
  qed
  have z: "(ucast w :: u64) = 0 \<longleftrightarrow> w = 0" for w :: u32
    using unat_ucast_up(6) [of w] by (metis unat_0 unat_eq_zero)
  have "(word_of_nat (unat ecx * unat ebx) :: u64) div ucast eax =
      word_of_nat (unat ecx * unat ebx div unat eax)"
  proof -
    have "unat ((word_of_nat (unat ecx * unat ebx) :: u64) div ucast eax) = unat ecx * unat ebx div unat eax"
      using unat_u64_of_nat [OF lt] by (simp only: unat_div unat_ucast_up)
    moreover have "unat ecx * unat ebx div unat eax < 2 ^ 64"
      using lt div_le_dividend order.strict_trans1 by blast
    ultimately show ?thesis by (simp only: word_unat_eq_iff unat_u64_of_nat)
  qed
  moreover have "min (2 ^ 64 - 1) (unat ecx * unat ebx) = unat ecx * unat ebx" using lt by simp
  ultimately show ?thesis
    unfolding tsc_freq_from_cpuid_0x15_def Let_def unat_ucast_up z by (simp only:)
qed

section \<open>Records\<close>

text \<open>\<open>assemble\<close> writes, in two packed 64-bit stores and the argument closure, exactly the
  documented field-by-field layout: version, type, size, level, flags, padding, timestamp, site
  pointer, argument count, the tags and then the payloads.\<close>

theorem assemble_layout:
  assumes "length as \<le> 255" "n = BASE_RECORD_SIZE + length as + args_size as" "length dst = n"
  shows "assemble dst l ts FLAG_SITE p (word_of_nat (length as)) n
      (\<lambda>buf. map_option fst (write_args as buf 0 (length as))) =
    Some ([VERSION, LOG_RECORD] @ u16_to_le (word_of_nat n) @ [to_u8 l] @ u16_to_le FLAG_SITE @ [0] @
      u64_to_le ts @ u64_to_le p @ [word_of_nat (length as)] @ map type_tag as @ concat (map payload as))"
  using assemble_wire_record [OF assms] assms(2)
  by (simp add: wire_record_def header_fields_def args_bytes_def)

theorem assemble_layout_witness:
  "assemble (replicate 36 0) Warn 99 FLAG_SITE 4096 (word_of_nat (length demo_args)) 36
      (\<lambda>buf. map_option fst (write_args demo_args buf 0 (length demo_args))) \<noteq> None"
proof -
  have "length demo_args \<le> 255" "36 = BASE_RECORD_SIZE + length demo_args + args_size demo_args"
    by (simp_all add: demo_args_def record_consts STR_LEN_PREFIX_def)
  from assemble_layout [OF this, of "replicate 36 0"] show ?thesis by simp
qed

text \<open>C8: End to end. A record assembled for a checked call site is a well-formed ring record of
  its level, and the drain turns it into exactly the line the pattern describes: the message is
  the format string with every argument formatted by its own spec, and timestamp, level, file,
  line and thread come from the record, the site and the ring.\<close>

theorem record_round_trip:
  assumes "env_sites e p = Some st" "check_fmt (site_fmt st) (length as) = Some ()"
    "list_all arg_ok as" "length as \<le> 255" "template_parse pat = Inr segs"
    "n = BASE_RECORD_SIZE + length as + args_size as" "n \<le> MAX_RECORD_SIZE" "length dst = n"
  shows "\<exists>rec msg. assemble dst l ts FLAG_SITE p (word_of_nat (length as)) n
        (\<lambda>buf. map_option fst (write_args as buf 0 (length as))) = Some rec \<and>
      wire_ok rec \<and> record_level rec = l \<and>
      format_message (env_fmt e) (fmt_items (site_fmt st)) as [] = Some msg \<and>
      decode_and_format e rec off calib segs tid nm buf =
        Some (buf @ concat (map (segment_text (env_fmt e) (site_ctx l ts st as off calib tid nm) msg) segs))"
  using assemble_wire_record [OF assms(4,6,8)] wire_record_ok [of as] assms(6,7)
    decode_wire_record [OF assms(1-5)] by fastforce

definition demo_env :: env where
  "demo_env = \<lparr>env_fmt = demo_std,
     env_sites = [4096 \<mapsto> \<lparr>site_fmt = demo_fmt, site_file = bs ''main.rs'', site_line = 12\<rparr>],
     env_rodata = (\<lambda>_ _. None)\<rparr>"

theorem record_round_trip_witness:
  "\<exists>segs rec msg line calib. template_parse demo_pattern = Inr segs \<and>
     assemble (replicate 36 0) Warn 99 FLAG_SITE 4096 (word_of_nat (length demo_args)) 36
       (\<lambda>buf. map_option fst (write_args demo_args buf 0 (length demo_args))) = Some rec \<and>
     wire_ok rec \<and> format_message demo_std (fmt_items demo_fmt) demo_args [] = Some msg \<and>
     decode_and_format demo_env rec 0 calib segs 1 (bs ''main'') [] = Some line"
proof -
  obtain segs where segs: "template_parse demo_pattern = Inr segs" using demo_pattern_parses by blast
  let ?st = "\<lparr>site_fmt = demo_fmt, site_file = bs ''main.rs'', site_line = 12\<rparr>"
  let ?calib = "\<lparr>counter_to_ns = (1, 0), counter_base = 0, wall_base_ns = 0\<rparr>"
  have st: "env_sites demo_env 4096 = Some ?st" by (simp add: demo_env_def)
  have ck: "check_fmt (site_fmt ?st) (length demo_args) = Some ()" using demo_checked by simp
  have n: "length demo_args \<le> 255" "36 = BASE_RECORD_SIZE + length demo_args + args_size demo_args"
    "(36 :: nat) \<le> MAX_RECORD_SIZE"
    by (simp_all add: demo_args_def record_consts STR_LEN_PREFIX_def)
  have e: "env_fmt demo_env = demo_std" by (simp add: demo_env_def)
  from record_round_trip [OF st ck demo_args_ok n(1) segs n(2,3), of "replicate 36 0" Warn 99 0 ?calib 1 "bs ''main''" "[]"]
  show ?thesis unfolding e using segs by (simp del: bs_Cons) blast
qed

end
