(* ===== verification/Sink_Properties.thy ===== *)
theory Sink_Properties
  imports Sink
begin

text \<open>What the sinks guarantee to whoever configured them.\<close>

lemma push_line_kept:
  assumes "0 < cap"
  shows "push_lines_mem xs (mem_with_capacity cap ov) =
    (mem_with_capacity cap ov)\<lparr>ms_lines := kept ov cap xs,
       ms_dropped_lines := word_of_nat (lost ov cap xs)\<rparr>"
proof (induction xs rule: rev_induct)
  case Nil
  then show ?case by (cases ov) (simp_all add: push_lines_mem_def mem_with_capacity_def kept_def lost_def)
next
  case (snoc x xs)
  show ?case
    using snoc unfolding kept_snoc [OF assms] lost_snoc [OF assms]
    by (cases x) (auto simp: push_lines_mem_def push_line_def mem_with_capacity_def add.commute)
qed

lemma push_record_kept:
  assumes "0 < cap"
  shows "foldl (\<lambda>st (r, l). push_record r l st) (mem_with_capacity cap ov) xs =
    (mem_with_capacity cap ov)\<lparr>ms_records := map (\<lambda>(r, l). \<lparr>cr_level = l, cr_bytes = r\<rparr>) (kept ov cap xs),
       ms_dropped_records := word_of_nat (lost ov cap xs)\<rparr>"
proof (induction xs rule: rev_induct)
  case Nil
  then show ?case by (cases ov) (simp_all add: mem_with_capacity_def kept_def lost_def)
next
  case (snoc x xs)
  show ?case
    using snoc unfolding kept_snoc [OF assms] lost_snoc [OF assms]
    by (cases x) (auto simp: push_record_def Let_def mem_with_capacity_def map_tl add.commute)
qed

text \<open>C35: The test sink accounts for every capture. A bounded store keeps the first \<open>capacity\<close>
  lines under \<open>DropNewest\<close> and the last \<open>capacity\<close> under \<open>DropOldest\<close>, in arrival order, an
  unbounded one keeps all; kept and dropped add up to what was pushed; raw records behave alike.\<close>

theorem memory_sink_retention:
  assumes "mem_bounded capacity ov = Some st"
  shows "ms_lines (push_lines_mem xs st) = kept ov capacity xs \<and>
    ms_dropped_lines (push_lines_mem xs st) = word_of_nat (length xs - lines_len (push_lines_mem xs st)) \<and>
    (let st' = foldl (\<lambda>st (r, l). push_record r l st) st xs in
      map cr_bytes (ms_records st') = map fst (kept ov capacity xs) \<and>
      mem_levels st' = map snd (kept ov capacity xs) \<and>
      ms_dropped_records st' = word_of_nat (length xs - records_len st')) \<and>
    (ov \<noteq> Unbounded \<longrightarrow> length (kept ov capacity xs) = min capacity (length xs))"
proof -
  have c: "0 < capacity" and st: "st = mem_with_capacity capacity ov"
    using assms by (auto simp: mem_bounded_def split: if_splits)
  show ?thesis
    unfolding st push_line_kept [OF c] push_record_kept [OF c] Let_def
    by (auto simp: lines_len_def records_len_def mem_levels_def kept_def lost_def split: overflow.splits)
qed

theorem memory_sink_retention_witness:
  "ms_lines (push_lines_mem [([1], Info), ([2], Warn), ([3], Info)] (mem_with_capacity 2 DropOldest)) =
     [([2], Warn), ([3], Info)]"
proof -
  have "mem_bounded 2 DropOldest = Some (mem_with_capacity 2 DropOldest)" by (simp add: mem_bounded_def)
  from memory_sink_retention [OF this, of "[([1], Info), ([2], Warn), ([3], Info)]"]
  show ?thesis by (simp add: kept_def)
qed

text \<open>C36: Isolation in a fan-out. A child behind a level adapter receives exactly the lines at or
  below its level, in order, whatever its siblings are, how they fail, and what the outside world
  does.\<close>

theorem fan_out_isolation:
  assumes "i < length es" "es ! i = with_max_level lv (InMemorySink st)"
  shows "\<exists>es'. fst (accept_lines io xs (FanOut es) w) = FanOut es' \<and> i < length es' \<and>
    es' ! i = with_max_level lv (InMemorySink (push_lines_mem (filter (\<lambda>(line, l). l \<le> lv) xs) st))"
  using fan_lines_mem [OF assms(1), of st lv io xs w] assms(2) by (simp add: with_max_level_def)

theorem fan_out_isolation_witness:
  "\<exists>es'. fst (accept_lines disk_io [(bs ''a'', Info), (bs ''b'', Error)]
      (FanOut [WriterSink (Handle 0), with_max_level Warn (InMemorySink mem_new)])
      \<lparr>disk_content = (\<lambda>t. []), disk_free = 0\<rparr>) = FanOut es' \<and>
    es' ! 1 = with_max_level Warn (InMemorySink (push_lines_mem [(bs ''b'', Error)] mem_new))"
  using fan_out_isolation [of 1 "[WriterSink (Handle 0), with_max_level Warn (InMemorySink mem_new)]" Warn mem_new
      disk_io "[(bs ''a'', Info), (bs ''b'', Error)]" "\<lparr>disk_content = (\<lambda>t. []), disk_free = 0\<rparr>"]
  by auto

text \<open>C37: The writer, file and plain console sinks are one: let the target be a file or a wrapped
  writer, or the stream of a console sink without colours. If no call reports an error, then after
  a flush the target has grown by exactly what the sink still had in its buffer and the accepted
  lines, each with one newline, in order. The 64 KiB buffer of the file sink neither loses,
  reorders nor repeats a byte.\<close>

theorem line_sinks_output:
  assumes "append_io io content" "writes_to t s"
    "accept_lines io xs s w = (s', w', [])" "sink_flush io s' w' = (s'', w'', None)"
  shows "content t w'' = content t w @ pending s @ concat (map (\<lambda>(line, l). line @ [NL]) xs)"
  using append_io.accept_lines_appends [OF assms(1-3)] append_io.flush_appends [OF assms(1) _ assms(4)] by simp

theorem line_sinks_output_witness:
  "\<exists>s' w' w''. accept_lines disk_io [(bs ''ab'', Info), (bs ''c'', Error)] (FileSink (Handle 0) (bs ''y''))
       \<lparr>disk_content = (\<lambda>t. bs ''x''), disk_free = 100\<rparr> = (s', w', []) \<and>
     sink_flush disk_io s' w' = (FileSink (Handle 0) [], w'', None) \<and>
     disk_content w'' (Handle 0) = bs ''xy'' @ concat (map (\<lambda>(line, l). line @ [NL]) [(bs ''ab'', Info), (bs ''c'', Error)])"
proof -
  let ?w = "\<lparr>disk_content = (\<lambda>t. bs ''x''), disk_free = 100\<rparr>"
  let ?xs = "[(bs ''ab'', Info), (bs ''c'', Error)]"
  obtain s' w' where a: "accept_lines disk_io ?xs (FileSink (Handle 0) (bs ''y'')) ?w = (s', w', [])"
    and s': "s' = FileSink (Handle 0) (bs ''y'' @ bs ''ab'' @ [NL] @ bs ''c'' @ [NL])" "w' = ?w"
    by (auto simp: buf_line_def buf_write_all_def FILE_BUF_CAPACITY_def)
  obtain w'' where f: "sink_flush disk_io s' w' = (FileSink (Handle 0) [], w'', None)"
    by (auto simp: s' file_flush_def buf_flush_def disk_io_def disk_write_def)
  show ?thesis
    using line_sinks_output [OF disk.append_io_axioms _ a f, of "Handle 0"] a f by auto
qed

text \<open>A captured record gives the header fields of the record it was taken from.\<close>

theorem captured_fields:
  "cr_total_size \<lparr>cr_level = l, cr_bytes = wire_record l ts p as\<rparr> =
     word_of_nat (BASE_RECORD_SIZE + length as + args_size as) \<and>
   cr_flags \<lparr>cr_level = l, cr_bytes = wire_record l ts p as\<rparr> = FLAG_SITE \<and>
   cr_timestamp_ticks \<lparr>cr_level = l, cr_bytes = wire_record l ts p as\<rparr> = ts"
proof -
  define n where "n = (word_of_nat (BASE_RECORD_SIZE + length as + args_size as) :: u16)"
  obtain rest where r: "wire_record l ts p as =
      [VERSION, LOG_RECORD] @ u16_to_le n @ [to_u8 l] @ u16_to_le FLAG_SITE @ [0] @ u64_to_le ts @ rest"
    by (auto simp: wire_record_def header_fields_def n_def)
  have "length (wire_record l ts p as) \<ge> 16" unfolding r by simp
  then show ?thesis
    unfolding cr_total_size_def cr_flags_def cr_timestamp_ticks_def le_u16_def le_u64_def r n_def [symmetric]
    by (simp add: drop_Cons')
qed

end
