(* ===== verification/Fifo_Drain.thy ===== *)
theory Fifo_Drain
  imports Channel Decode
begin

text \<open>
  What the byte-FIFO backends share: the drain's pass over the popped bytes (\<open>drain_ring\<close> under
  \<open>fifo-backend\<close> in \<open>src/src/drain.rs\<close>) and the wait for room of their \<open>reserve\<close>. The
  pass is written on the bytes from the cursor on, \<open>staging[pos..]\<close>.
\<close>

section \<open>The pass\<close>

partial_function (option) fifo_loop ::
  "(bytes \<Rightarrow> level \<Rightarrow> 'k \<Rightarrow> 'k option) \<Rightarrow> bytes \<Rightarrow> bool \<Rightarrow> 'k \<Rightarrow> (bytes \<times> bool \<times> 'k) option"
where
  "fifo_loop deliver s had_work k =
    (if length s < HEADER_SIZE then Some (s, had_work, k)
     else let version = s ! 0; rectype = s ! 1; total_size = unat (u16_of_le [s ! 2, s ! 3]) in
       if rectype = END_OF_BUFFER then
         if length s < total_size then Some (s, had_work, k)
         else fifo_loop deliver (drop total_size s) had_work k
       else if version \<noteq> VERSION \<or> rectype \<noteq> LOG_RECORD \<or> total_size < HEADER_SIZE then
         fifo_loop deliver (drop 1 s) had_work k
       else if length s < total_size then Some (s, had_work, k)
       else let rec = take total_size s in
         Option.bind (deliver rec (record_level rec) k) (fifo_loop deliver (drop total_size s) True))"

declare fifo_loop.simps [code]

text \<open>\<open>pop\<close> moves the buffered bytes behind what \<open>staging\<close> still holds.\<close>

definition fifo_drain_ring ::
  "('r \<Rightarrow> bytes \<times> 'r) \<Rightarrow> (bytes \<Rightarrow> level \<Rightarrow> 'k \<Rightarrow> 'k option) \<Rightarrow> 'r \<Rightarrow> bytes \<Rightarrow> 'k
   \<Rightarrow> (bool \<times> 'r \<times> bytes \<times> 'k) option"
where
  "fifo_drain_ring pop deliver r staging k =
     (case pop r of (popped, r') \<Rightarrow>
        map_option (\<lambda>(rest, had_work, k'). (had_work, r', rest, k'))
          (fifo_loop deliver (staging @ popped) False k))"

text \<open>As the poll loop runs it: it clears the staging buffer before every ring.\<close>

definition fifo_take :: "('r \<Rightarrow> bytes \<times> 'r) \<Rightarrow> 'r \<Rightarrow> (bytes list \<times> 'r) option" where
  "fifo_take pop r =
     map_option (\<lambda>(had_work, r', rest, rs). (rs, r'))
       (fifo_drain_ring pop (\<lambda>x l rs. Some (rs @ [x])) r [] [])"

lemma wire_ok_fields:
  assumes "wire_ok x"
  shows "\<exists>b2 b3 xs. x = VERSION # LOG_RECORD # b2 # b3 # xs \<and> 16 \<le> length x \<and>
    unat (u16_of_le [b2, b3]) = length x"
proof -
  have l: "16 \<le> length x" "length x < 65536" and t: "take 4 x = [VERSION, LOG_RECORD] @ u16_to_le (word_of_nat (length x))"
    using assms by (auto simp: wire_ok_def record_consts)
  obtain b2 b3 where b: "u16_to_le (word_of_nat (length x)) = [b2, b3]"
    by (simp add: u16_to_le_def le_eval)
  have "x = take 4 x @ drop 4 x" by simp
  then have "x = VERSION # LOG_RECORD # b2 # b3 # drop 4 x" using t b by simp
  moreover have "u16_of_le [b2, b3] = word_of_nat (length x)" using b by (metis le_roundtrip(1))
  then have "unat (u16_of_le [b2, b3]) = length x" using l by (simp add: unat_of_nat)
  ultimately show ?thesis using l by blast
qed

lemma fifo_loop_record:
  assumes "wire_ok x"
  shows "fifo_loop deliver (x @ s) hw k =
    Option.bind (deliver x (record_level x) k) (fifo_loop deliver s True)"
proof -
  obtain b2 b3 xs where x: "x = VERSION # LOG_RECORD # b2 # b3 # xs" and l: "16 \<le> length x"
    and n: "unat (u16_of_le [b2, b3]) = length x"
    using wire_ok_fields [OF assms] by blast
  have 0: "(x @ s) ! 0 = VERSION" "(x @ s) ! 1 = LOG_RECORD" "(x @ s) ! 2 = b2" "(x @ s) ! 3 = b3"
    unfolding x by simp_all
  have "\<not> length x < 16" "\<not> length x + length s < 16" using l by simp_all
  then show ?thesis
    by (subst fifo_loop.simps) (simp add: 0 [simplified] n Let_def record_consts)
qed

lemma fifo_loop_records:
  assumes "list_all wire_ok rs" "length s < HEADER_SIZE"
  shows "fifo_loop deliver (concat rs @ s) hw k =
    map_option (\<lambda>k'. (s, hw \<or> rs \<noteq> [], k')) (deliver_all deliver rs k)"
  using assms
proof (induction rs arbitrary: hw k)
  case Nil
  then show ?case by (simp add: fifo_loop.simps)
next
  case (Cons x rs)
  then show ?case
    by (cases "deliver x (record_level x) k") (simp_all add: fifo_loop_record)
qed

lemma deliver_collect: "deliver_all (\<lambda>x l rs. Some (rs @ [x])) ws rs = Some (rs @ ws)"
  by (induction ws arbitrary: rs) auto

lemma fifo_take_records:
  "pop r = (concat rs, r') \<Longrightarrow> list_all wire_ok rs \<Longrightarrow> fifo_take pop r = Some (rs, r')"
  using fifo_loop_records [of rs "[]" "\<lambda>x l rs. Some (rs @ [x])" False "[]"]
  by (simp add: fifo_take_def fifo_drain_ring_def deliver_collect record_consts)

text \<open>Away from fillers the pass always ends.\<close>

lemma fifo_loop_total:
  assumes "\<forall>i. Suc i < length s \<longrightarrow> s ! Suc i \<noteq> END_OF_BUFFER" "\<And>x l k. deliver x l k \<noteq> None"
  shows "fifo_loop deliver s hw k \<noteq> None"
  using assms(1)
proof (induction "length s" arbitrary: s hw k rule: less_induct)
  case less
  let ?n = "unat (u16_of_le [s ! 2, s ! 3])"
  have suffix: "fifo_loop deliver (drop m s) hw' k' \<noteq> None" if "0 < m" "16 \<le> length s" for m hw' k'
    using that less.prems by (intro less.hyps) (auto simp: less_diff_conv)
  show ?case
  proof (cases "length s < 16")
    case True
    then show ?thesis by (subst fifo_loop.simps) (simp add: record_consts)
  next
    case False
    moreover from this have "s ! 1 \<noteq> END_OF_BUFFER" using less.prems [rule_format, of 0] by simp
    moreover obtain k' where "deliver (take ?n s) (record_level (take ?n s)) k = Some k'"
      using assms(2) by (meson not_Some_eq)
    ultimately show ?thesis
      using suffix [of 1 hw k] suffix [of ?n True k']
      by (subst fifo_loop.simps) (auto simp: record_consts Let_def)
  qed
qed

section \<open>Waiting for room\<close>

definition saturating_add :: "nat \<Rightarrow> nat \<Rightarrow> nat" where
  "saturating_add a b = min (a + b) (2 ^ 64 - 1)"

text \<open>The loop of \<open>reserve\<close> over the fill levels and live flags it observes; \<open>None\<close>: still
  waiting at the end of the observations.\<close>

fun fifo_wait :: "(nat \<times> bool) list \<Rightarrow> nat \<Rightarrow> nat \<Rightarrow> backpressure \<Rightarrow> bool option" where
  "fifo_wait [] capacity total_size policy = None"
| "fifo_wait ((len, live) # obs) capacity total_size policy =
     (if saturating_add len total_size < capacity then Some True
      else case policy of
        Drop \<Rightarrow> Some False
      | _ \<Rightarrow> if \<not> live then Some False else fifo_wait obs capacity total_size policy)"

lemma fifo_wait_room:
  "fifo_wait [(len, live)] cap n policy = Some True \<Longrightarrow> cap < 2 ^ 64 \<Longrightarrow> len + n < cap"
  by (auto simp: saturating_add_def min_def split: if_splits backpressure.splits)

end
