(* ===== verification/Fifo_Backends.thy ===== *)
theory Fifo_Backends
  imports Fifo_Drain
begin

text \<open>
  The alternative buffers behind the \<open>backend-*\<close> features. Each wraps a queue of a third-party
  crate: its operations are a parameter, a record of functions on the queue's type \<open>'q\<close>, and a
  locale states what the crate documents of them. Inside the locale each backend is shown to be a
  record channel. Each locale is interpreted on an array of bytes with a capacity.
\<close>

text \<open>The scratch buffer of a record: \<open>f\<close> fills the \<open>len\<close> uninitialised bytes \<open>dst\<close>.\<close>

definition fill_scratch :: "nat \<Rightarrow> (bytes \<Rightarrow> bytes option) \<Rightarrow> bytes \<Rightarrow> bytes option" where
  "fill_scratch len f spare = map_option (take len) (f (take len spare))"

section \<open>\<open>backend-ringbuffer\<close>\<close>

record 'q ringbuffer_crate =
  arb_new :: "nat \<Rightarrow> 'q"
  arb_len :: "'q \<Rightarrow> nat"
  arb_enqueue :: "u8 \<Rightarrow> 'q \<Rightarrow> 'q"
  arb_dequeue :: "'q \<Rightarrow> u8 option \<times> 'q"

record 'q fifo_ring =
  fr_fifo :: 'q
  fr_live :: bool
  fr_capacity :: nat
  fr_thread_id :: u64
  fr_thread_name :: bytes

definition fr_set_thread_info :: "u64 \<Rightarrow> bytes \<Rightarrow> 'q fifo_ring \<Rightarrow> 'q fifo_ring" where
  "fr_set_thread_info tid nm r = r\<lparr>fr_thread_id := tid, fr_thread_name := nm\<rparr>"

definition fr_set_dead :: "'q fifo_ring \<Rightarrow> 'q fifo_ring" where
  "fr_set_dead r = r\<lparr>fr_live := False\<rparr>"

definition rbf_with_capacity :: "'q ringbuffer_crate \<Rightarrow> nat \<Rightarrow> 'q fifo_ring option" where
  "rbf_with_capacity api capacity =
     (if is_power_of_two capacity \<and> SLOT_SIZE \<le> capacity
      then Some \<lparr>fr_fifo = arb_new api capacity, fr_live = True, fr_capacity = capacity,
                 fr_thread_id = 0, fr_thread_name = []\<rparr>
      else None)"

definition rbf_reserve ::
  "'q ringbuffer_crate \<Rightarrow> (nat \<times> bool) list \<Rightarrow> 'q fifo_ring \<Rightarrow> nat \<Rightarrow> backpressure \<Rightarrow> bool option" where
  "rbf_reserve api obs r total_size policy =
     fifo_wait ((arb_len api (fr_fifo r), fr_live r) # obs) (fr_capacity r) total_size policy"

definition rbf_commit :: "'q ringbuffer_crate \<Rightarrow> bytes \<Rightarrow> 'q fifo_ring \<Rightarrow> 'q fifo_ring" where
  "rbf_commit api xs r = r\<lparr>fr_fifo := fold (arb_enqueue api) xs (fr_fifo r)\<rparr>"

definition rbf_write_record ::
  "'q ringbuffer_crate \<Rightarrow> nat \<Rightarrow> bytes \<Rightarrow> (bytes \<Rightarrow> bytes option) \<Rightarrow> 'q fifo_ring \<Rightarrow> 'q fifo_ring option" where
  "rbf_write_record api len scratch f r =
     map_option (\<lambda>x. rbf_commit api x r) (fill_scratch len f scratch)"

text \<open>\<open>while let Some(b) = fifo.dequeue()\<close>, as far as \<open>fuel\<close> elements.\<close>

fun rbf_dequeue_all :: "'q ringbuffer_crate \<Rightarrow> nat \<Rightarrow> 'q \<Rightarrow> bytes \<Rightarrow> bytes \<times> 'q" where
  "rbf_dequeue_all api 0 q out = (out, q)"
| "rbf_dequeue_all api (Suc fuel) q out =
     (case arb_dequeue api q of
        (None, q') \<Rightarrow> (out, q')
      | (Some b, q') \<Rightarrow> rbf_dequeue_all api fuel q' (out @ [b]))"

definition rbf_pop_available :: "'q ringbuffer_crate \<Rightarrow> 'q fifo_ring \<Rightarrow> bytes \<times> 'q fifo_ring" where
  "rbf_pop_available api r =
     (case rbf_dequeue_all api (Suc (arb_len api (fr_fifo r))) (fr_fifo r) [] of
        (out, q) \<Rightarrow> (out, r\<lparr>fr_fifo := q\<rparr>))"

text \<open>The macro path: reserve, then write the record.\<close>

definition rbf_put ::
  "'q ringbuffer_crate \<Rightarrow> backpressure \<Rightarrow> bytes \<Rightarrow> 'q fifo_ring \<Rightarrow> ('q fifo_ring \<times> bool) option" where
  "rbf_put api policy x r =
     (case rbf_reserve api [] r (length x) policy of
        None \<Rightarrow> None
      | Some False \<Rightarrow> Some (r, False)
      | Some True \<Rightarrow>
          map_option (\<lambda>r'. (r', True)) (rbf_write_record api (length x) (replicate (length x) 0) (\<lambda>dst. Some x) r))"

text \<open>What the crate documents: a FIFO of at most its capacity.\<close>

locale ringbuffer_api =
  fixes api :: "'q ringbuffer_crate" and content :: "'q \<Rightarrow> bytes" and room :: "'q \<Rightarrow> nat"
  assumes arb_new: "content (arb_new api c) = []" "room (arb_new api c) = c"
    and arb_len: "arb_len api q = length (content q)"
    and arb_enqueue: "length (content q) < room q \<Longrightarrow>
      content (arb_enqueue api b q) = content q @ [b] \<and> room (arb_enqueue api b q) = room q"
    and arb_dequeue_empty: "content q = [] \<Longrightarrow> arb_dequeue api q = (None, q)"
    and arb_dequeue: "content q = b # xs \<Longrightarrow>
      \<exists>q'. arb_dequeue api q = (Some b, q') \<and> content q' = xs \<and> room q' = room q"
begin

definition rbf_holds :: "nat \<Rightarrow> 'q fifo_ring \<Rightarrow> bytes list \<Rightarrow> bool" where
  "rbf_holds k r rs \<longleftrightarrow> content (fr_fifo r) = concat rs \<and> list_all wire_ok rs \<and>
     room (fr_fifo r) = fr_capacity r \<and> fr_capacity r < 2 ^ 64"

lemma enqueue_all:
  "length (content q) + length xs \<le> room q \<Longrightarrow>
   content (fold (arb_enqueue api) xs q) = content q @ xs \<and> room (fold (arb_enqueue api) xs q) = room q"
proof (induction xs arbitrary: q)
  case (Cons b xs)
  have "content (arb_enqueue api b q) = content q @ [b] \<and> room (arb_enqueue api b q) = room q"
    using Cons.prems by (intro arb_enqueue) simp
  then show ?case using Cons.IH [of "arb_enqueue api b q"] Cons.prems by simp
qed simp

lemma dequeue_all:
  "length (content q) < fuel \<Longrightarrow>
   \<exists>q'. rbf_dequeue_all api fuel q out = (out @ content q, q') \<and> content q' = [] \<and> room q' = room q"
proof (induction fuel arbitrary: q out)
  case (Suc fuel)
  show ?case
  proof (cases "content q")
    case Nil
    then show ?thesis using arb_dequeue_empty by simp
  next
    case (Cons b xs)
    then obtain q' where q': "arb_dequeue api q = (Some b, q')" "content q' = xs" "room q' = room q"
      using arb_dequeue by blast
    then show ?thesis using Suc.IH [of q' "out @ [b]"] Suc.prems Cons by simp
  qed
qed simp

lemma pop_available:
  "\<exists>r'. rbf_pop_available api r = (content (fr_fifo r), r') \<and> content (fr_fifo r') = [] \<and>
     room (fr_fifo r') = room (fr_fifo r) \<and> fr_capacity r' = fr_capacity r"
  using dequeue_all [of "fr_fifo r" "Suc (length (content (fr_fifo r)))" "[]"]
  by (auto simp: rbf_pop_available_def arb_len)

sublocale chan: record_channel rbf_holds "rbf_put api policy" "fifo_take (rbf_pop_available api)" for policy
proof unfold_locales
  fix k r rs x r'
  assume h: "rbf_holds (Suc k) r rs" and x: "wire_ok x" and p: "rbf_put api policy x r = Some (r', True)"
  have w: "fifo_wait [(length (content (fr_fifo r)), fr_live r)] (fr_capacity r) (length x) policy = Some True"
    and r': "r' = rbf_commit api x r"
    using p by (auto simp: rbf_put_def rbf_reserve_def arb_len rbf_write_record_def fill_scratch_def
        simp del: fifo_wait.simps split: option.splits bool.splits)
  then have "length (content (fr_fifo r)) + length x \<le> room (fr_fifo r)"
    using h fifo_wait_room by (fastforce simp: rbf_holds_def)
  from enqueue_all [OF this] show "rbf_holds k r' (rs @ [x])"
    using h x by (simp add: rbf_holds_def r' rbf_commit_def)
next
  fix k r rs x r'
  assume "rbf_holds (Suc k) r rs" "rbf_put api policy x r = Some (r', False)"
  then show "rbf_holds (Suc k) r' rs"
    by (auto simp: rbf_put_def split: option.splits bool.splits)
next
  fix k r rs
  assume h: "rbf_holds k r rs"
  then show "\<exists>r'. fifo_take (rbf_pop_available api) r = Some (rs, r') \<and> rbf_holds k r' []"
    using pop_available [of r] fifo_take_records [of "rbf_pop_available api" r rs]
    by (auto simp: rbf_holds_def)
qed (simp add: rbf_holds_def)

lemma holds_new: "rbf_with_capacity api cap = Some r \<Longrightarrow> cap < 2 ^ 64 \<Longrightarrow> rbf_holds k r []"
  by (auto simp: rbf_with_capacity_def rbf_holds_def arb_new split: if_splits)

lemma delivers:
  "rbf_with_capacity api cap = Some r \<Longrightarrow> cap < 2 ^ 64 \<Longrightarrow> puts_ok ops \<Longrightarrow>
   chan_run (rbf_put api policy) (fifo_take (rbf_pop_available api)) ops r [] [] = Some (r', acc, del) \<Longrightarrow>
   \<exists>rs. acc = del @ rs \<and> map_option fst (fifo_take (rbf_pop_available api) r') = Some rs"
  by (rule chan.run_delivers [OF holds_new])

end

text \<open>An array-backed queue: contents and capacity.\<close>

type_synonym array_queue = "bytes \<times> nat"

definition array_ringbuffer :: "array_queue ringbuffer_crate" where
  "array_ringbuffer = \<lparr>arb_new = (\<lambda>c. ([], c)), arb_len = (\<lambda>(q, c). length q),
     arb_enqueue = (\<lambda>b (q, c). (if length q < c then q @ [b] else tl q @ [b], c)),
     arb_dequeue = (\<lambda>(q, c). case q of [] \<Rightarrow> (None, (q, c)) | b # q' \<Rightarrow> (Some b, (q', c)))\<rparr>"

interpretation array_rbf: ringbuffer_api array_ringbuffer fst snd
  by unfold_locales (auto simp: array_ringbuffer_def split: list.splits prod.splits)

section \<open>\<open>backend-ringbuf\<close>\<close>

text \<open>The two halves of the split ring share one queue.\<close>

record 'q ringbuf_crate =
  hrb_new :: "nat \<Rightarrow> 'q"
  hrb_occupied_len :: "'q \<Rightarrow> nat"
  hrb_push_slice :: "bytes \<Rightarrow> 'q \<Rightarrow> nat \<times> 'q"
  hrb_pop_slice :: "nat \<Rightarrow> 'q \<Rightarrow> bytes \<times> 'q"
  hrb_is_empty :: "'q \<Rightarrow> bool"

type_synonym 'q ringbuf_ring = "'q fifo_ring"

definition rbu_with_capacity :: "'q ringbuf_crate \<Rightarrow> nat \<Rightarrow> 'q ringbuf_ring option" where
  "rbu_with_capacity api capacity =
     (if is_power_of_two capacity \<and> SLOT_SIZE \<le> capacity
      then Some \<lparr>fr_fifo = hrb_new api capacity, fr_live = True, fr_capacity = capacity,
                 fr_thread_id = 0, fr_thread_name = []\<rparr>
      else None)"

definition rbu_set_thread_info :: "u64 \<Rightarrow> bytes \<Rightarrow> 'q ringbuf_ring \<Rightarrow> 'q ringbuf_ring" where
  "rbu_set_thread_info tid nm r = r\<lparr>fr_thread_id := tid, fr_thread_name := nm\<rparr>"

definition rbu_set_dead :: "'q ringbuf_ring \<Rightarrow> 'q ringbuf_ring" where
  "rbu_set_dead r = r\<lparr>fr_live := False\<rparr>"

definition rbu_reserve ::
  "'q ringbuf_crate \<Rightarrow> (nat \<times> bool) list \<Rightarrow> 'q ringbuf_ring \<Rightarrow> nat \<Rightarrow> backpressure \<Rightarrow> bool option" where
  "rbu_reserve api obs r total_size policy =
     fifo_wait ((hrb_occupied_len api (fr_fifo r), fr_live r) # obs) (fr_capacity r) total_size policy"

text \<open>The number of bytes pushed is only looked at by a debug assertion.\<close>

definition rbu_commit :: "'q ringbuf_crate \<Rightarrow> bytes \<Rightarrow> 'q ringbuf_ring \<Rightarrow> 'q ringbuf_ring" where
  "rbu_commit api xs r = (case hrb_push_slice api xs (fr_fifo r) of (pushed, q) \<Rightarrow> r\<lparr>fr_fifo := q\<rparr>)"

definition rbu_write_record ::
  "'q ringbuf_crate \<Rightarrow> nat \<Rightarrow> bytes \<Rightarrow> (bytes \<Rightarrow> bytes option) \<Rightarrow> 'q ringbuf_ring \<Rightarrow> 'q ringbuf_ring option" where
  "rbu_write_record api len scratch f r =
     map_option (\<lambda>x. rbu_commit api x r) (fill_scratch len f scratch)"

definition rbu_pop_available :: "'q ringbuf_crate \<Rightarrow> 'q ringbuf_ring \<Rightarrow> bytes \<times> 'q ringbuf_ring" where
  "rbu_pop_available api r =
     (if hrb_is_empty api (fr_fifo r) then ([], r)
      else let avail = hrb_occupied_len api (fr_fifo r) in
        if avail = 0 then ([], r)
        else case hrb_pop_slice api avail (fr_fifo r) of (popped, q) \<Rightarrow> (popped, r\<lparr>fr_fifo := q\<rparr>))"

definition rbu_put ::
  "'q ringbuf_crate \<Rightarrow> backpressure \<Rightarrow> bytes \<Rightarrow> 'q ringbuf_ring \<Rightarrow> ('q ringbuf_ring \<times> bool) option" where
  "rbu_put api policy x r =
     (case rbu_reserve api [] r (length x) policy of
        None \<Rightarrow> None
      | Some False \<Rightarrow> Some (r, False)
      | Some True \<Rightarrow>
          map_option (\<lambda>r'. (r', True)) (rbu_write_record api (length x) (replicate (length x) 0) (\<lambda>dst. Some x) r))"

locale ringbuf_api =
  fixes api :: "'q ringbuf_crate" and content :: "'q \<Rightarrow> bytes" and room :: "'q \<Rightarrow> nat"
  assumes hrb_new: "content (hrb_new api c) = []" "room (hrb_new api c) = c"
    and hrb_occupied_len: "hrb_occupied_len api q = length (content q)"
    and hrb_is_empty: "hrb_is_empty api q \<longleftrightarrow> content q = []"
    and hrb_push_slice: "length (content q) + length xs \<le> room q \<Longrightarrow>
      \<exists>q'. hrb_push_slice api xs q = (length xs, q') \<and> content q' = content q @ xs \<and> room q' = room q"
    and hrb_pop_slice: "n \<le> length (content q) \<Longrightarrow>
      \<exists>q'. hrb_pop_slice api n q = (take n (content q), q') \<and> content q' = drop n (content q) \<and> room q' = room q"
begin

definition rbu_holds :: "nat \<Rightarrow> 'q ringbuf_ring \<Rightarrow> bytes list \<Rightarrow> bool" where
  "rbu_holds k r rs \<longleftrightarrow> content (fr_fifo r) = concat rs \<and> list_all wire_ok rs \<and>
     room (fr_fifo r) = fr_capacity r \<and> fr_capacity r < 2 ^ 64"

lemma pop_available:
  "\<exists>r'. rbu_pop_available api r = (content (fr_fifo r), r') \<and> content (fr_fifo r') = [] \<and>
     room (fr_fifo r') = room (fr_fifo r) \<and> fr_capacity r' = fr_capacity r"
proof (cases "content (fr_fifo r) = []")
  case True
  then show ?thesis by (simp add: rbu_pop_available_def hrb_is_empty)
next
  case False
  then show ?thesis
    using hrb_pop_slice [of "length (content (fr_fifo r))" "fr_fifo r"]
    by (auto simp: rbu_pop_available_def hrb_is_empty hrb_occupied_len)
qed

sublocale chan: record_channel rbu_holds "rbu_put api policy" "fifo_take (rbu_pop_available api)" for policy
proof unfold_locales
  fix k r rs x r'
  assume h: "rbu_holds (Suc k) r rs" and x: "wire_ok x" and p: "rbu_put api policy x r = Some (r', True)"
  have w: "fifo_wait [(length (content (fr_fifo r)), fr_live r)] (fr_capacity r) (length x) policy = Some True"
    and r': "r' = rbu_commit api x r"
    using p by (auto simp: rbu_put_def rbu_reserve_def hrb_occupied_len rbu_write_record_def fill_scratch_def
        simp del: fifo_wait.simps split: option.splits bool.splits)
  then have "length (content (fr_fifo r)) + length x \<le> room (fr_fifo r)"
    using h fifo_wait_room by (fastforce simp: rbu_holds_def)
  from hrb_push_slice [OF this] show "rbu_holds k r' (rs @ [x])"
    using h x by (auto simp: rbu_holds_def r' rbu_commit_def)
next
  fix k r rs x r'
  assume "rbu_holds (Suc k) r rs" "rbu_put api policy x r = Some (r', False)"
  then show "rbu_holds (Suc k) r' rs"
    by (auto simp: rbu_put_def split: option.splits bool.splits)
next
  fix k r rs
  assume h: "rbu_holds k r rs"
  then show "\<exists>r'. fifo_take (rbu_pop_available api) r = Some (rs, r') \<and> rbu_holds k r' []"
    using pop_available [of r] fifo_take_records [of "rbu_pop_available api" r rs]
    by (auto simp: rbu_holds_def)
qed (simp add: rbu_holds_def)

lemma holds_new: "rbu_with_capacity api cap = Some r \<Longrightarrow> cap < 2 ^ 64 \<Longrightarrow> rbu_holds k r []"
  by (auto simp: rbu_with_capacity_def rbu_holds_def hrb_new split: if_splits)

lemma delivers:
  "rbu_with_capacity api cap = Some r \<Longrightarrow> cap < 2 ^ 64 \<Longrightarrow> puts_ok ops \<Longrightarrow>
   chan_run (rbu_put api policy) (fifo_take (rbu_pop_available api)) ops r [] [] = Some (r', acc, del) \<Longrightarrow>
   \<exists>rs. acc = del @ rs \<and> map_option fst (fifo_take (rbu_pop_available api) r') = Some rs"
  by (rule chan.run_delivers [OF holds_new])

end

definition array_ringbuf :: "array_queue ringbuf_crate" where
  "array_ringbuf = \<lparr>hrb_new = (\<lambda>c. ([], c)), hrb_occupied_len = (\<lambda>(q, c). length q),
     hrb_push_slice = (\<lambda>xs (q, c). let n = min (length xs) (c - length q) in (n, (q @ take n xs, c))),
     hrb_pop_slice = (\<lambda>n (q, c). (take n q, (drop n q, c))), hrb_is_empty = (\<lambda>(q, c). q = [])\<rparr>"

interpretation array_rbu: ringbuf_api array_ringbuf fst snd
  by unfold_locales (auto simp: array_ringbuf_def split: prod.splits)

section \<open>\<open>backend-triple-buffer\<close>\<close>

record 'q triple_crate =
  tb_new :: "bytes \<Rightarrow> 'q"
  tb_consumed :: "'q \<Rightarrow> bool"
  tb_publish :: "bytes \<Rightarrow> 'q \<Rightarrow> 'q"
  tb_update :: "'q \<Rightarrow> bool \<times> 'q"
  tb_output :: "'q \<Rightarrow> bytes"

record 'q triple_ring =
  tr_exchange :: 'q
  tr_live :: bool
  tr_thread_id :: u64
  tr_thread_name :: bytes

definition tr_with_capacity :: "'q triple_crate \<Rightarrow> nat \<Rightarrow> 'q triple_ring" where
  "tr_with_capacity api capacity =
     \<lparr>tr_exchange = tb_new api (replicate MAX_RECORD_SIZE 0), tr_live = True,
      tr_thread_id = 0, tr_thread_name = []\<rparr>"

definition tr_set_thread_info :: "u64 \<Rightarrow> bytes \<Rightarrow> 'q triple_ring \<Rightarrow> 'q triple_ring" where
  "tr_set_thread_info tid nm r = r\<lparr>tr_thread_id := tid, tr_thread_name := nm\<rparr>"

definition tr_set_dead :: "'q triple_ring \<Rightarrow> 'q triple_ring" where
  "tr_set_dead r = r\<lparr>tr_live := False\<rparr>"

text \<open>The wait for the single slot, the same under every policy.\<close>

fun tr_wait :: "(bool \<times> bool) list \<Rightarrow> bool option" where
  "tr_wait [] = None"
| "tr_wait ((consumed, live) # obs) =
     (if consumed then Some True else if \<not> live then Some False else tr_wait obs)"

definition tr_reserve ::
  "'q triple_crate \<Rightarrow> (bool \<times> bool) list \<Rightarrow> 'q triple_ring \<Rightarrow> nat \<Rightarrow> backpressure \<Rightarrow> bool option" where
  "tr_reserve api obs r total_size policy = tr_wait ((tb_consumed api (tr_exchange r), tr_live r) # obs)"

definition tr_commit :: "'q triple_crate \<Rightarrow> bytes \<Rightarrow> 'q triple_ring \<Rightarrow> 'q triple_ring" where
  "tr_commit api xs r = r\<lparr>tr_exchange := tb_publish api xs (tr_exchange r)\<rparr>"

definition tr_write_record ::
  "'q triple_crate \<Rightarrow> nat \<Rightarrow> bytes \<Rightarrow> (bytes \<Rightarrow> bytes option) \<Rightarrow> 'q triple_ring \<Rightarrow> 'q triple_ring option" where
  "tr_write_record api len scratch f r =
     map_option (\<lambda>x. tr_commit api x r) (fill_scratch len f scratch)"

definition tr_pop_available :: "'q triple_crate \<Rightarrow> 'q triple_ring \<Rightarrow> bytes \<times> 'q triple_ring" where
  "tr_pop_available api r =
     (case tb_update api (tr_exchange r) of
        (updated, q) \<Rightarrow> (if updated then tb_output api q else [], r\<lparr>tr_exchange := q\<rparr>))"

definition tr_put ::
  "'q triple_crate \<Rightarrow> backpressure \<Rightarrow> bytes \<Rightarrow> 'q triple_ring \<Rightarrow> ('q triple_ring \<times> bool) option" where
  "tr_put api policy x r =
     (case tr_reserve api [] r (length x) policy of
        None \<Rightarrow> None
      | Some False \<Rightarrow> Some (r, False)
      | Some True \<Rightarrow>
          map_option (\<lambda>r'. (r', True)) (tr_write_record api (length x) (replicate (length x) 0) (\<lambda>dst. Some x) r))"

text \<open>What the crate documents: the value published last, and whether it was fetched.\<close>

locale triple_api =
  fixes api :: "'q triple_crate" and outstanding :: "'q \<Rightarrow> bytes option"
  assumes tb_new: "outstanding (tb_new api v) = None"
    and tb_consumed: "tb_consumed api q \<longleftrightarrow> outstanding q = None"
    and tb_publish: "outstanding (tb_publish api v q) = Some v"
    and tb_update_none: "outstanding q = None \<Longrightarrow> \<exists>q'. tb_update api q = (False, q') \<and> outstanding q' = None"
    and tb_update: "outstanding q = Some v \<Longrightarrow>
      \<exists>q'. tb_update api q = (True, q') \<and> tb_output api q' = v \<and> outstanding q' = None"
begin

definition tr_holds :: "nat \<Rightarrow> 'q triple_ring \<Rightarrow> bytes list \<Rightarrow> bool" where
  "tr_holds k r rs \<longleftrightarrow> list_all wire_ok rs \<and>
     (case outstanding (tr_exchange r) of None \<Rightarrow> rs = [] | Some v \<Rightarrow> rs = [v])"

sublocale chan: record_channel tr_holds "tr_put api policy" "fifo_take (tr_pop_available api)" for policy
proof unfold_locales
  fix k r rs x r'
  assume "tr_holds (Suc k) r rs" "wire_ok x" "tr_put api policy x r = Some (r', True)"
  then show "tr_holds k r' (rs @ [x])"
    by (auto simp: tr_holds_def tr_put_def tr_reserve_def tb_consumed tr_write_record_def fill_scratch_def
        tr_commit_def tb_publish split: option.splits bool.splits if_splits)
next
  fix k r rs x r'
  assume "tr_holds (Suc k) r rs" "tr_put api policy x r = Some (r', False)"
  then show "tr_holds (Suc k) r' rs"
    by (auto simp: tr_put_def split: option.splits bool.splits)
next
  fix k r rs
  assume h: "tr_holds k r rs"
  have "\<exists>r'. tr_pop_available api r = (concat rs, r') \<and> tr_holds k r' []"
  proof (cases "outstanding (tr_exchange r)")
    case None
    then show ?thesis using h tb_update_none [OF None] by (auto simp: tr_holds_def tr_pop_available_def)
  next
    case (Some v)
    then show ?thesis using h tb_update [OF Some] by (auto simp: tr_holds_def tr_pop_available_def)
  qed
  then show "\<exists>r'. fifo_take (tr_pop_available api) r = Some (rs, r') \<and> tr_holds k r' []"
    using h fifo_take_records [of "tr_pop_available api" r rs] by (auto simp: tr_holds_def)
qed (simp add: tr_holds_def)

lemma commit_overwrites: "fst (tr_pop_available api (tr_commit api y (tr_commit api x r))) = y"
  using tb_update [OF tb_publish [of y "tb_publish api x (tr_exchange r)"]]
  by (auto simp: tr_pop_available_def tr_commit_def)

lemma holds_new: "tr_holds k (tr_with_capacity api cap) []"
  by (simp add: tr_holds_def tr_with_capacity_def tb_new)

lemma delivers:
  "r = tr_with_capacity api cap \<Longrightarrow> puts_ok ops \<Longrightarrow>
   chan_run (tr_put api policy) (fifo_take (tr_pop_available api)) ops r [] [] = Some (r', acc, del) \<Longrightarrow>
   \<exists>rs. acc = del @ rs \<and> map_option fst (fifo_take (tr_pop_available api) r') = Some rs"
  using chan.run_delivers [OF holds_new] by simp

end

text \<open>One outstanding value and the last one fetched.\<close>

definition slot_triple :: "(bytes option \<times> bytes) triple_crate" where
  "slot_triple = \<lparr>tb_new = (\<lambda>v. (None, v)), tb_consumed = (\<lambda>(p, v). p = None),
     tb_publish = (\<lambda>x (p, v). (Some x, v)),
     tb_update = (\<lambda>(p, v). case p of None \<Rightarrow> (False, (p, v)) | Some x \<Rightarrow> (True, (None, x))),
     tb_output = snd\<rparr>"

interpretation slot_tr: triple_api slot_triple fst
  by unfold_locales (auto simp: slot_triple_def split: prod.splits)

end
