(* ===== verification/Rtrb_Backend.thy ===== *)
theory Rtrb_Backend
  imports Fifo_Backends
begin

text \<open>
  The \<open>backend-rtrb\<close> buffer (\<open>src/src/rtrb_backend.rs\<close>): records are staged by the producer
  and flushed to the crate's queue as one chunk every \<open>chunk_size\<close> records. The producer half, the
  consumer half and the shared state of one ring are one record here. A write chunk is a pair of
  slices of the queue's memory; \<open>None\<close> is the failing \<open>expect\<close> of a chunk that does not fit.
\<close>

record 'q rtrb_crate =
  rt_new :: "nat \<Rightarrow> 'q"
  rt_slots :: "'q \<Rightarrow> nat"
  rt_write_chunk :: "nat \<Rightarrow> 'q \<Rightarrow> (nat \<times> nat) option"
  rt_commit_write :: "bytes \<Rightarrow> bytes \<Rightarrow> 'q \<Rightarrow> 'q"
  rt_readable :: "'q \<Rightarrow> nat"
  rt_is_empty :: "'q \<Rightarrow> bool"
  rt_read_chunk :: "nat \<Rightarrow> 'q \<Rightarrow> (bytes \<times> bytes) option"
  rt_commit_read :: "nat \<Rightarrow> 'q \<Rightarrow> 'q"

record 'q rtrb_ring =
  rr_queue :: 'q
  rr_staged :: bytes
  rr_staged_records :: nat
  rr_chunk_size :: nat
  rr_live :: bool
  rr_capacity :: nat
  rr_thread_id :: u64
  rr_thread_name :: bytes

definition rt_split :: "'q rtrb_crate \<Rightarrow> nat \<Rightarrow> nat \<Rightarrow> 'q rtrb_ring option" where
  "rt_split api default_chunk_size capacity =
    (let effective = (if capacity < SLOT_SIZE then SLOT_SIZE else capacity); usable = effective - 1 in
     if is_power_of_two effective
     then Some \<lparr>rr_queue = rt_new api usable, rr_staged = [], rr_staged_records = 0,
                rr_chunk_size = max default_chunk_size 1, rr_live = True, rr_capacity = usable,
                rr_thread_id = 0, rr_thread_name = []\<rparr>
     else None)"

definition rt_set_thread_info :: "u64 \<Rightarrow> bytes \<Rightarrow> 'q rtrb_ring \<Rightarrow> 'q rtrb_ring" where
  "rt_set_thread_info tid nm r = r\<lparr>rr_thread_id := tid, rr_thread_name := nm\<rparr>"

definition rt_set_dead :: "'q rtrb_ring \<Rightarrow> 'q rtrb_ring" where
  "rt_set_dead r = r\<lparr>rr_live := False\<rparr>"

definition rt_set_chunk_size :: "nat \<Rightarrow> 'q rtrb_ring \<Rightarrow> 'q rtrb_ring" where
  "rt_set_chunk_size n r = (if 0 < n then r\<lparr>rr_chunk_size := n\<rparr> else r)"

text \<open>The bytes to place are the staged ones and the record; the occupied bytes are the declared
  capacity less the free slots.\<close>

definition rt_reserve ::
  "'q rtrb_crate \<Rightarrow> (nat \<times> bool) list \<Rightarrow> 'q rtrb_ring \<Rightarrow> nat \<Rightarrow> backpressure \<Rightarrow> bool option" where
  "rt_reserve api obs r total_size policy =
     fifo_wait ((rr_capacity r - rt_slots api (rr_queue r), rr_live r) # obs) (rr_capacity r)
       (saturating_add (length (rr_staged r)) total_size) policy"

text \<open>Requesting a chunk, copying into its two slices and committing it.\<close>

definition rt_flush :: "'q rtrb_crate \<Rightarrow> bytes \<Rightarrow> 'q \<Rightarrow> 'q option" where
  "rt_flush api xs q =
     (case rt_write_chunk api (length xs) q of
        None \<Rightarrow> None
      | Some (a, b) \<Rightarrow> Some (rt_commit_write api (take a xs) (if b = 0 then [] else drop a xs) q))"

definition rt_flush_staged :: "'q rtrb_crate \<Rightarrow> nat \<Rightarrow> 'q rtrb_ring \<Rightarrow> 'q rtrb_ring option" where
  "rt_flush_staged api chunk_size r =
     (if chunk_size \<le> rr_staged_records r \<and> rr_staged r \<noteq> []
      then map_option (\<lambda>q. r\<lparr>rr_queue := q, rr_staged := [], rr_staged_records := 0\<rparr>)
             (rt_flush api (rr_staged r) (rr_queue r))
      else Some r)"

definition rt_commit :: "'q rtrb_crate \<Rightarrow> bytes \<Rightarrow> 'q rtrb_ring \<Rightarrow> 'q rtrb_ring option" where
  "rt_commit api xs r =
    (let chunk_size = max (rr_chunk_size r) 1 in
     if rr_staged r = [] \<and> chunk_size = 1 then
       if xs = [] then Some r
       else map_option (\<lambda>q. r\<lparr>rr_queue := q\<rparr>) (rt_flush api xs (rr_queue r))
     else rt_flush_staged api chunk_size
            (r\<lparr>rr_staged := rr_staged r @ xs, rr_staged_records := rr_staged_records r + 1\<rparr>))"

text \<open>\<open>mem\<close> is the memory \<open>f\<close> is handed: the first slice of the chunk, or the room behind the
  staged bytes; a wrapped chunk goes through \<open>scratch\<close>.\<close>

definition rt_write_record ::
  "'q rtrb_crate \<Rightarrow> nat \<Rightarrow> bytes \<Rightarrow> bytes \<Rightarrow> (bytes \<Rightarrow> bytes option) \<Rightarrow> 'q rtrb_ring \<Rightarrow> 'q rtrb_ring option" where
  "rt_write_record api len mem scratch f r =
    (let chunk_size = max (rr_chunk_size r) 1 in
     if rr_staged r = [] \<and> chunk_size = 1 then
       if len = 0 then Some r
       else case rt_write_chunk api len (rr_queue r) of
         None \<Rightarrow> None
       | Some (a, b) \<Rightarrow>
           if b = 0
           then map_option (\<lambda>x. r\<lparr>rr_queue := rt_commit_write api x [] (rr_queue r)\<rparr>) (f (take a mem))
           else map_option (\<lambda>x. r\<lparr>rr_queue := rt_commit_write api (take a x) (drop a x) (rr_queue r)\<rparr>)
                  (fill_scratch len f scratch)
     else case f (take len mem) of
       None \<Rightarrow> None
     | Some x \<Rightarrow> rt_flush_staged api chunk_size
         (r\<lparr>rr_staged := rr_staged r @ x, rr_staged_records := rr_staged_records r + 1\<rparr>))"

text \<open>The chunk-by-chunk read of \<open>remaining\<close> bytes; every turn moves at least one.\<close>

fun rt_read_all :: "'q rtrb_crate \<Rightarrow> nat \<Rightarrow> nat \<Rightarrow> 'q \<Rightarrow> bytes \<Rightarrow> bytes \<times> 'q" where
  "rt_read_all api 0 left q out = (out, q)"
| "rt_read_all api (Suc fuel) left q out =
     (if left = 0 then (out, q)
      else case rt_read_chunk api left q of
        None \<Rightarrow> (out, q)
      | Some (a, b) \<Rightarrow>
          let n = length a + length b; q' = rt_commit_read api n q; out' = out @ a @ b in
          if left \<le> n then (out', q') else rt_read_all api fuel (left - n) q' out')"

definition rt_pop_available :: "'q rtrb_crate \<Rightarrow> 'q rtrb_ring \<Rightarrow> bytes \<times> 'q rtrb_ring" where
  "rt_pop_available api r =
     (if rt_is_empty api (rr_queue r) then ([], r)
      else let available = rt_readable api (rr_queue r) in
        case rt_read_all api available available (rr_queue r) [] of (out, q) \<Rightarrow> (out, r\<lparr>rr_queue := q\<rparr>))"

definition rt_put ::
  "'q rtrb_crate \<Rightarrow> backpressure \<Rightarrow> bytes \<Rightarrow> 'q rtrb_ring \<Rightarrow> ('q rtrb_ring \<times> bool) option" where
  "rt_put api policy x r =
     (case rt_reserve api [] r (length x) policy of
        None \<Rightarrow> None
      | Some False \<Rightarrow> Some (r, False)
      | Some True \<Rightarrow> map_option (\<lambda>r'. (r', True)) (rt_write_record api (length x) (replicate (length x) 0) (replicate (length x) 0) (\<lambda>dst. Some x) r))"

section \<open>What the crate documents\<close>

locale rtrb_api =
  fixes api :: "'q rtrb_crate" and content :: "'q \<Rightarrow> bytes" and room :: "'q \<Rightarrow> nat"
  assumes rt_new: "content (rt_new api c) = []" "room (rt_new api c) = c"
    and rt_slots: "rt_slots api q = room q - length (content q)"
    and rt_write_chunk: "0 < n \<Longrightarrow> n \<le> room q - length (content q) \<Longrightarrow>
      \<exists>a b. rt_write_chunk api n q = Some (a, b) \<and> a + b = n"
    and rt_commit_write: "length xs + length ys \<le> room q - length (content q) \<Longrightarrow>
      content (rt_commit_write api xs ys q) = content q @ xs @ ys \<and>
      room (rt_commit_write api xs ys q) = room q"
    and rt_readable: "rt_readable api q = length (content q)"
    and rt_is_empty: "rt_is_empty api q \<longleftrightarrow> content q = []"
    and rt_read_chunk: "n \<le> length (content q) \<Longrightarrow>
      \<exists>xs ys. rt_read_chunk api n q = Some (xs, ys) \<and> xs @ ys = take n (content q)"
    and rt_commit_read: "n \<le> length (content q) \<Longrightarrow>
      content (rt_commit_read api n q) = drop n (content q) \<and> room (rt_commit_read api n q) = room q"
begin

lemma flush:
  assumes "0 < length xs" "length xs \<le> room q - length (content q)"
  shows "\<exists>q'. rt_flush api xs q = Some q' \<and> content q' = content q @ xs \<and> room q' = room q"
proof -
  obtain a b where ab: "rt_write_chunk api (length xs) q = Some (a, b)" "a + b = length xs"
    using rt_write_chunk [OF assms] by blast
  have "take a xs @ (if b = 0 then [] else drop a xs) = xs" using ab(2) by simp
  then show ?thesis
    using ab assms rt_commit_write [of "take a xs" "if b = 0 then [] else drop a xs" q]
    by (simp add: rt_flush_def)
qed

text \<open>Assembling in place is the same as assembling aside and committing.\<close>

lemma write_record_commit:
  assumes "\<And>dst. length dst = length x \<Longrightarrow> f dst = Some x"
    "length mem = length x" "length scratch = length x"
    "length (rr_staged r) + length x \<le> room (rr_queue r) - length (content (rr_queue r))"
  shows "rt_write_record api (length x) mem scratch f r = rt_commit api x r"
proof (cases "rr_staged r = [] \<and> max (rr_chunk_size r) 1 = 1")
  case False
  moreover have "f mem = Some x" using assms(1,2) by simp
  ultimately show ?thesis
    using assms(2) unfolding rt_write_record_def rt_commit_def Let_def if_not_P [OF False] by simp
next
  case True
  show ?thesis
  proof (cases "x = []")
    case False
    then obtain a b where ab: "rt_write_chunk api (length x) (rr_queue r) = Some (a, b)" "a + b = length x"
      using rt_write_chunk [of "length x" "rr_queue r"] assms(4) True by auto
    have "f (take a mem) = Some x" if "b = 0" using that assms(1,2) ab(2) by simp
    moreover have "f scratch = Some x" using assms(1,3) by simp
    ultimately show ?thesis
      using True False ab assms(2,3) unfolding rt_write_record_def rt_commit_def Let_def if_P [OF True]
      by (simp add: rt_flush_def fill_scratch_def)
  qed (use True in \<open>simp add: rt_write_record_def rt_commit_def\<close>)
qed

lemma pop_available:
  "\<exists>q'. rt_pop_available api r = (content (rr_queue r), r\<lparr>rr_queue := q'\<rparr>) \<and> content q' = [] \<and>
     room q' = room (rr_queue r)"
proof (cases "content (rr_queue r) = []")
  case True
  then show ?thesis by (intro exI [of _ "rr_queue r"]) (simp add: rt_pop_available_def rt_is_empty)
next
  case False
  let ?q = "rr_queue r" let ?n = "length (content ?q)"
  obtain m where m: "?n = Suc m" using False by (cases "?n") auto
  obtain xs ys where c: "rt_read_chunk api ?n ?q = Some (xs, ys)" "xs @ ys = content ?q"
    using rt_read_chunk [of ?n ?q] by auto
  have "length xs + length ys = ?n" using c(2) by (metis length_append)
  then have "rt_read_all api ?n ?n ?q [] = (content ?q, rt_commit_read api ?n ?q)"
    using c m by (simp add: Let_def)
  then show ?thesis
    using False rt_commit_read [of ?n ?q]
    by (intro exI [of _ "rt_commit_read api ?n ?q"]) (simp add: rt_pop_available_def rt_is_empty rt_readable Let_def)
qed

lemma reserve_room:
  assumes "rt_reserve api [] r n policy = Some True" "rr_capacity r = room (rr_queue r)" "rr_capacity r < 2 ^ 64"
    "length (content (rr_queue r)) \<le> room (rr_queue r)"
  shows "length (rr_staged r) + n < room (rr_queue r) - length (content (rr_queue r))"
proof -
  have "room (rr_queue r) - (room (rr_queue r) - length (content (rr_queue r))) +
      saturating_add (length (rr_staged r)) n < room (rr_queue r)"
    using fifo_wait_room assms(1-3) unfolding rt_reserve_def rt_slots by metis
  then show ?thesis using assms(2-4) by (auto simp: saturating_add_def min_def split: if_splits)
qed

section \<open>One record per chunk\<close>

definition rt_holds :: "nat \<Rightarrow> 'q rtrb_ring \<Rightarrow> bytes list \<Rightarrow> bool" where
  "rt_holds k r rs \<longleftrightarrow> content (rr_queue r) = concat rs \<and> list_all wire_ok rs \<and>
     rr_staged r = [] \<and> rr_chunk_size r = 1 \<and> room (rr_queue r) = rr_capacity r \<and>
     length (content (rr_queue r)) \<le> room (rr_queue r) \<and> rr_capacity r < 2 ^ 64"

lemma put_one:
  assumes h: "rt_holds k r rs" and x: "wire_ok x" and p: "rt_put api policy x r = Some (r', True)"
  shows "rt_holds k' r' (rs @ [x])"
proof -
  have w: "rt_reserve api [] r (length x) policy = Some True"
    and r': "rt_write_record api (length x) (replicate (length x) 0) (replicate (length x) 0) (\<lambda>dst. Some x) r = Some r'"
    using p by (auto simp: rt_put_def split: option.splits bool.splits)
  have room: "length x < room (rr_queue r) - length (content (rr_queue r))"
    using reserve_room [OF w] h by (auto simp: rt_holds_def)
  have "0 < length x" using wire_ok_size [OF x] by simp
  then obtain q' where q': "rt_flush api x (rr_queue r) = Some q'"
    "content q' = content (rr_queue r) @ x" "room q' = room (rr_queue r)"
    using flush [of x "rr_queue r"] room by auto
  have "rt_commit api x r = Some r'"
    using write_record_commit [of x "\<lambda>dst. Some x" "replicate (length x) 0" "replicate (length x) 0" r] r' room h by (simp add: rt_holds_def)
  then have "r' = r\<lparr>rr_queue := q'\<rparr>"
    using h q' \<open>0 < length x\<close> by (simp add: rt_commit_def rt_holds_def)
  then show ?thesis using h x q' room by (simp add: rt_holds_def)
qed

sublocale chan: record_channel rt_holds "rt_put api policy" "fifo_take (rt_pop_available api)" for policy
proof unfold_locales
  fix k r rs x r'
  assume "rt_holds (Suc k) r rs" "wire_ok x" "rt_put api policy x r = Some (r', True)"
  then show "rt_holds k r' (rs @ [x])" by (rule put_one)
next
  fix k r rs x r'
  assume "rt_holds (Suc k) r rs" "rt_put api policy x r = Some (r', False)"
  then show "rt_holds (Suc k) r' rs"
    by (auto simp: rt_put_def split: option.splits bool.splits)
next
  fix k r rs
  assume h: "rt_holds k r rs"
  then show "\<exists>r'. fifo_take (rt_pop_available api) r = Some (rs, r') \<and> rt_holds k r' []"
    using pop_available [of r] fifo_take_records [of "rt_pop_available api" r rs]
    by (auto simp: rt_holds_def)
qed (auto simp: rt_holds_def)

lemma holds_new: "rt_split api c cap = Some r \<Longrightarrow> c \<le> 1 \<Longrightarrow> cap < 2 ^ 64 \<Longrightarrow> rt_holds k r []"
  by (auto simp: rt_split_def rt_holds_def rt_new Let_def SLOT_SIZE_def CACHE_LINE_SIZE_def split: if_splits)

lemma delivers:
  "rt_split api c cap = Some r \<Longrightarrow> c \<le> 1 \<Longrightarrow> cap < 2 ^ 64 \<Longrightarrow> puts_ok ops \<Longrightarrow>
   chan_run (rt_put api policy) (fifo_take (rt_pop_available api)) ops r [] [] = Some (r', acc, del) \<Longrightarrow>
   \<exists>rs. acc = del @ rs \<and> map_option fst (fifo_take (rt_pop_available api) r') = Some rs"
  by (rule chan.run_delivers [OF holds_new])

section \<open>Several records per chunk\<close>

lemma put_staged:
  assumes "rt_put api policy x r = Some (r', ok)" "Suc (rr_staged_records r) < rr_chunk_size r"
  shows "rr_queue r' = rr_queue r \<and> rr_chunk_size r' = rr_chunk_size r \<and>
    rr_staged_records r' \<le> Suc (rr_staged_records r)"
  using assms
  by (auto simp: rt_put_def rt_write_record_def rt_flush_staged_def Let_def
      split: option.splits bool.splits if_splits)

lemma puts_staged:
  assumes "chan_run (rt_put api policy) tk (map Put xs) r acc del = Some (r', acc', del')"
    "rr_staged_records r + length xs < rr_chunk_size r"
  shows "rr_queue r' = rr_queue r"
  using assms
proof (induction xs arbitrary: r acc)
  case (Cons x xs)
  then obtain r1 ok where p: "rt_put api policy x r = Some (r1, ok)"
    and run: "chan_run (rt_put api policy) tk (map Put xs) r1 (if ok then acc @ [x] else acc) del = Some (r', acc', del')"
    by (auto split: option.splits)
  have "rr_queue r1 = rr_queue r \<and> rr_chunk_size r1 = rr_chunk_size r \<and> rr_staged_records r1 \<le> Suc (rr_staged_records r)"
    using Cons.prems(2) by (intro put_staged [OF p]) simp
  with Cons.IH [OF run] Cons.prems(2) show ?case by auto
qed simp

end

definition array_rtrb :: "array_queue rtrb_crate" where
  "array_rtrb = \<lparr>rt_new = (\<lambda>c. ([], c)), rt_slots = (\<lambda>(q, c). c - length q),
     rt_write_chunk = (\<lambda>n (q, c). if n \<le> c - length q then Some (n, 0) else None),
     rt_commit_write = (\<lambda>xs ys (q, c). (q @ xs @ ys, c)), rt_readable = (\<lambda>(q, c). length q),
     rt_is_empty = (\<lambda>(q, c). q = []),
     rt_read_chunk = (\<lambda>n (q, c). if n \<le> length q then Some (take n q, []) else None),
     rt_commit_read = (\<lambda>n (q, c). (drop n q, c))\<rparr>"

interpretation array_rt: rtrb_api array_rtrb fst snd
  by unfold_locales (auto simp: array_rtrb_def split: prod.splits)

end
