(* ===== verification/Fifo_Properties.thy ===== *)
theory Fifo_Properties
  imports Rtrb_Backend
begin

text \<open>The alternative backends deliver records as the custom ring does, and where they differ.\<close>

definition tiny_record :: "u8 \<Rightarrow> bytes" where
  "tiny_record b = [VERSION, LOG_RECORD, 16, 0] @ replicate 12 b"

definition tiny_ops :: "chan_op list" where
  "tiny_ops = [Put (tiny_record 7), Take, Put (tiny_record 8)]"

lemma tiny_ops_ok: "puts_ok tiny_ops"
  by code_simp

text \<open>C30: The \<open>ringbuffer\<close> backend is a FIFO channel for every crate that keeps its documented
  contract: delivered records are a prefix of the accepted ones and the next pass delivers the
  rest. The byte of slack keeps the crate's overwriting of the oldest element from ever firing.\<close>

theorem ringbuffer_fifo:
  assumes "ringbuffer_api api content room" "rbf_with_capacity api cap = Some r" "cap < 2 ^ 64"
    "puts_ok ops"
    "chan_run (rbf_put api policy) (fifo_take (rbf_pop_available api)) ops r [] [] = Some (r', acc, del)"
  shows "\<exists>rs. acc = del @ rs \<and> map_option fst (fifo_take (rbf_pop_available api) r') = Some rs"
  by (rule ringbuffer_api.delivers [OF assms])

theorem ringbuffer_fifo_witness:
  "\<exists>r r' acc del rs. rbf_with_capacity array_ringbuffer 64 = Some r \<and>
     chan_run (rbf_put array_ringbuffer Drop) (fifo_take (rbf_pop_available array_ringbuffer)) tiny_ops r [] [] =
       Some (r', acc, del) \<and> del = [tiny_record 7] \<and> acc = del @ rs \<and>
     map_option fst (fifo_take (rbf_pop_available array_ringbuffer) r') = Some rs"
proof -
  let ?r = "\<lparr>fr_fifo = ([], 64), fr_live = True, fr_capacity = 64, fr_thread_id = 0, fr_thread_name = []\<rparr>"
  have w: "rbf_with_capacity array_ringbuffer 64 = Some ?r" by code_simp
  have "case chan_run (rbf_put array_ringbuffer Drop) (fifo_take (rbf_pop_available array_ringbuffer)) tiny_ops ?r [] [] of
      None \<Rightarrow> False | Some (r', acc, del) \<Rightarrow> del = [tiny_record 7]"
    by code_simp
  then obtain r' acc del where
    r: "chan_run (rbf_put array_ringbuffer Drop) (fifo_take (rbf_pop_available array_ringbuffer)) tiny_ops ?r [] [] =
      Some (r', acc, del)" "del = [tiny_record 7]" by (auto split: option.splits)
  show ?thesis
    using ringbuffer_fifo [OF array_rbf.ringbuffer_api_axioms w _ tiny_ops_ok r(1)] w r by auto
qed

text \<open>C31: So is the \<open>ringbuf\<close> backend: after a successful \<open>reserve\<close> the slice push copies the
  whole record, so the drain never sees a part of one.\<close>

theorem ringbuf_fifo:
  assumes "ringbuf_api api content room" "rbu_with_capacity api cap = Some r" "cap < 2 ^ 64"
    "puts_ok ops"
    "chan_run (rbu_put api policy) (fifo_take (rbu_pop_available api)) ops r [] [] = Some (r', acc, del)"
  shows "\<exists>rs. acc = del @ rs \<and> map_option fst (fifo_take (rbu_pop_available api) r') = Some rs"
  by (rule ringbuf_api.delivers [OF assms])

theorem ringbuf_fifo_witness:
  "\<exists>r r' acc del rs. rbu_with_capacity array_ringbuf 64 = Some r \<and>
     chan_run (rbu_put array_ringbuf Block) (fifo_take (rbu_pop_available array_ringbuf)) tiny_ops r [] [] =
       Some (r', acc, del) \<and> del = [tiny_record 7] \<and> acc = del @ rs \<and>
     map_option fst (fifo_take (rbu_pop_available array_ringbuf) r') = Some rs"
proof -
  let ?r = "\<lparr>fr_fifo = ([], 64), fr_live = True, fr_capacity = 64, fr_thread_id = 0, fr_thread_name = []\<rparr>"
  have w: "rbu_with_capacity array_ringbuf 64 = Some ?r" by code_simp
  have "case chan_run (rbu_put array_ringbuf Block) (fifo_take (rbu_pop_available array_ringbuf)) tiny_ops ?r [] [] of
      None \<Rightarrow> False | Some (r', acc, del) \<Rightarrow> del = [tiny_record 7]"
    by code_simp
  then obtain r' acc del where
    r: "chan_run (rbu_put array_ringbuf Block) (fifo_take (rbu_pop_available array_ringbuf)) tiny_ops ?r [] [] =
      Some (r', acc, del)" "del = [tiny_record 7]" by (auto split: option.splits)
  show ?thesis
    using ringbuf_fifo [OF array_rbu.ringbuf_api_axioms w _ tiny_ops_ok r(1)] w r by auto
qed

text \<open>C32: For records that are put through \<open>reserve\<close>, as every logging call does, the single-slot
  exchange is lossless and ordered under every policy: a record is only accepted once the previous
  one was fetched. The lossy exchange the crate's documentation describes is what a commit without
  a reservation does: it replaces the value that is still outstanding.\<close>

theorem triple_fifo:
  assumes "triple_api api outstanding" "r = tr_with_capacity api cap" "puts_ok ops"
    "chan_run (tr_put api policy) (fifo_take (tr_pop_available api)) ops r [] [] = Some (r', acc, del)"
  shows "(\<exists>rs. acc = del @ rs \<and> map_option fst (fifo_take (tr_pop_available api) r') = Some rs) \<and>
    (\<forall>x y. fst (tr_pop_available api (tr_commit api y (tr_commit api x r'))) = y)"
  using triple_api.delivers [OF assms] triple_api.commit_overwrites [OF assms(1)] by blast

theorem triple_fifo_witness:
  "\<exists>r' acc del rs.
     chan_run (tr_put slot_triple Drop) (fifo_take (tr_pop_available slot_triple)) tiny_ops
       (tr_with_capacity slot_triple 64) [] [] = Some (r', acc, del) \<and> acc = del @ rs \<and>
     map_option fst (fifo_take (tr_pop_available slot_triple) r') = Some rs"
proof -
  have t: "fifo_take (tr_pop_available slot_triple) \<lparr>tr_exchange = (Some (tiny_record 7), v), tr_live = True,
      tr_thread_id = 0, tr_thread_name = []\<rparr> =
    Some ([tiny_record 7], \<lparr>tr_exchange = (None, tiny_record 7), tr_live = True, tr_thread_id = 0, tr_thread_name = []\<rparr>)"
    for v
    by (rule fifo_take_records) (use tiny_ops_ok in \<open>simp_all add: tiny_ops_def tr_pop_available_def slot_triple_def\<close>)
  obtain r' acc del where run:
    "chan_run (tr_put slot_triple Drop) (fifo_take (tr_pop_available slot_triple)) tiny_ops
       (tr_with_capacity slot_triple 64) [] [] = Some (r', acc, del)"
    by (auto simp: tiny_ops_def tr_with_capacity_def tr_put_def tr_reserve_def slot_triple_def
        tr_write_record_def fill_scratch_def tr_commit_def t [unfolded slot_triple_def])
  from triple_fifo [OF slot_tr.triple_api_axioms refl tiny_ops_ok run] run show ?thesis by blast
qed

text \<open>C33: With one record per chunk, its default, the \<open>rtrb\<close> backend is a FIFO channel as well.\<close>

theorem rtrb_fifo:
  assumes "rtrb_api api content room" "rt_split api c cap = Some r" "c \<le> 1" "cap < 2 ^ 64" "puts_ok ops"
    "chan_run (rt_put api policy) (fifo_take (rt_pop_available api)) ops r [] [] = Some (r', acc, del)"
  shows "\<exists>rs. acc = del @ rs \<and> map_option fst (fifo_take (rt_pop_available api) r') = Some rs"
  by (rule rtrb_api.delivers [OF assms])

theorem rtrb_fifo_witness:
  "\<exists>r r' acc del rs. rt_split array_rtrb 1 64 = Some r \<and>
     chan_run (rt_put array_rtrb Drop) (fifo_take (rt_pop_available array_rtrb)) tiny_ops r [] [] =
       Some (r', acc, del) \<and> del = [tiny_record 7] \<and> acc = del @ rs \<and>
     map_option fst (fifo_take (rt_pop_available array_rtrb) r') = Some rs"
proof -
  let ?r = "\<lparr>rr_queue = ([], 63), rr_staged = [], rr_staged_records = 0, rr_chunk_size = 1, rr_live = True,
    rr_capacity = 63, rr_thread_id = 0, rr_thread_name = []\<rparr>"
  have w: "rt_split array_rtrb 1 64 = Some ?r" by code_simp
  have "case chan_run (rt_put array_rtrb Drop) (fifo_take (rt_pop_available array_rtrb)) tiny_ops ?r [] [] of
      None \<Rightarrow> False | Some (r', acc, del) \<Rightarrow> del = [tiny_record 7]"
    by code_simp
  then obtain r' acc del where
    r: "chan_run (rt_put array_rtrb Drop) (fifo_take (rt_pop_available array_rtrb)) tiny_ops ?r [] [] =
      Some (r', acc, del)" "del = [tiny_record 7]" by (auto split: option.splits)
  show ?thesis
    using rtrb_fifo [OF array_rt.rtrb_api_axioms w _ _ tiny_ops_ok r(1)] w r by auto
qed

text \<open>Assembling a record in the ring's own memory, split over two slices or behind the staged
  bytes is the same as assembling it aside and committing the bytes: \<open>write_record\<close> and the
  reference \<open>commit\<close> leave the same ring, whatever the memory held before.\<close>

theorem rtrb_write_in_place:
  assumes "rtrb_api api content room" "\<And>dst. length dst = length x \<Longrightarrow> f dst = Some x"
    "length mem = length x" "length scratch = length x"
    "length (rr_staged r) + length x \<le> room (rr_queue r) - length (content (rr_queue r))"
  shows "rt_write_record api (length x) mem scratch f r = rt_commit api x r"
  by (rule rtrb_api.write_record_commit [OF assms])

theorem rtrb_write_in_place_witness:
  "\<exists>r. rt_split array_rtrb 1 64 = Some r \<and>
     rt_write_record array_rtrb 16 (replicate 16 1) (replicate 16 2) (\<lambda>dst. Some (tiny_record 7)) r =
       rt_commit array_rtrb (tiny_record 7) r"
proof -
  let ?r = "\<lparr>rr_queue = ([], 63), rr_staged = [], rr_staged_records = 0, rr_chunk_size = 1, rr_live = True,
    rr_capacity = 63, rr_thread_id = 0, rr_thread_name = []\<rparr>"
  have "rt_split array_rtrb 1 64 = Some ?r" by code_simp
  moreover have "length (tiny_record 7) = 16" by (simp add: tiny_record_def)
  ultimately show ?thesis
    using rtrb_write_in_place [OF array_rt.rtrb_api_axioms, of "tiny_record 7" "\<lambda>dst. Some (tiny_record 7)"
        "replicate 16 1" "replicate 16 2" ?r] by simp
qed

text \<open>C39: With several records per chunk the last ones are lost. Records a thread logs without
  completing a chunk are accepted but stay staged: once the thread has exited and its ring is
  marked dead, the drain's final pass delivers none of them.\<close>

theorem rtrb_staged_lost:
  assumes "rtrb_api api content room" "rt_split api c cap = Some r" "length xs < c"
    "chan_run (rt_put api policy) (fifo_take (rt_pop_available api)) (map Put xs) r [] [] = Some (r', acc, del)"
  shows "map_option fst (fifo_take (rt_pop_available api) (rt_set_dead r')) = Some []"
proof -
  have r: "rr_queue r = rt_new api (rr_capacity r)" "rr_staged_records r = 0" "length xs < rr_chunk_size r"
    using assms(2,3) by (auto simp: rt_split_def Let_def split: if_splits)
  have "rr_queue r' = rr_queue r"
    using r by (intro rtrb_api.puts_staged [OF assms(1,4)]) simp
  then have "content (rr_queue (rt_set_dead r')) = []"
    using r rtrb_api.rt_new(1) [OF assms(1)] by (simp add: rt_set_dead_def)
  then obtain r'' where "rt_pop_available api (rt_set_dead r') = ([], r'')"
    using rtrb_api.pop_available [OF assms(1), of "rt_set_dead r'"] by auto
  then show ?thesis
    using fifo_take_records [of "rt_pop_available api" "rt_set_dead r'" "[]" r''] by simp
qed

theorem rtrb_staged_lost_witness:
  "\<exists>r r'. rt_split array_rtrb 4 64 = Some r \<and>
     chan_run (rt_put array_rtrb Block) (fifo_take (rt_pop_available array_rtrb)) (map Put [tiny_record 7]) r [] [] =
       Some (r', [tiny_record 7], []) \<and>
     map_option fst (fifo_take (rt_pop_available array_rtrb) (rt_set_dead r')) = Some []"
proof -
  let ?r = "\<lparr>rr_queue = ([], 63), rr_staged = [], rr_staged_records = 0, rr_chunk_size = 4, rr_live = True,
    rr_capacity = 63, rr_thread_id = 0, rr_thread_name = []\<rparr>"
  have w: "rt_split array_rtrb 4 64 = Some ?r" by code_simp
  have "case chan_run (rt_put array_rtrb Block) (fifo_take (rt_pop_available array_rtrb)) (map Put [tiny_record 7]) ?r [] [] of
      None \<Rightarrow> False | Some (r', acc, del) \<Rightarrow> acc = [tiny_record 7] \<and> del = []"
    by code_simp
  then obtain r' acc del where
    r: "chan_run (rt_put array_rtrb Block) (fifo_take (rt_pop_available array_rtrb)) (map Put [tiny_record 7]) ?r [] [] =
      Some (r', acc, del)" "acc = [tiny_record 7]" "del = []" by (auto split: option.splits)
  show ?thesis
    using rtrb_staged_lost [OF array_rt.rtrb_api_axioms w _ r(1)] w r by auto
qed

lemma fifo_loop_no_result:
  assumes "fifo_loop deliver s hw k = Some y"
  shows "HEADER_SIZE \<le> length s \<Longrightarrow> s ! 1 = END_OF_BUFFER \<Longrightarrow> s ! 2 = 0 \<Longrightarrow> s ! 3 = 0 \<Longrightarrow> False"
proof (rule fifo_loop.raw_induct [OF _ assms, where P = "\<lambda>deliver s hw k y.
    HEADER_SIZE \<le> length s \<longrightarrow> s ! 1 = END_OF_BUFFER \<longrightarrow> s ! 2 = 0 \<longrightarrow> s ! 3 = 0 \<longrightarrow> False",
    rule_format])
qed (simp_all add: Let_def u16_of_le_def, blast)

text \<open>C40: A filler of size zero stops the FIFO drain for good: the pass neither advances nor
  returns.\<close>

theorem fifo_zero_filler_hangs:
  assumes "12 \<le> length s"
  shows "fifo_loop deliver (VERSION # END_OF_BUFFER # 0 # 0 # s) had_work k = None"
proof (rule ccontr)
  assume "fifo_loop deliver (VERSION # END_OF_BUFFER # 0 # 0 # s) had_work k \<noteq> None"
  then obtain y where "fifo_loop deliver (VERSION # END_OF_BUFFER # 0 # 0 # s) had_work k = Some y" by blast
  from fifo_loop_no_result [OF this] show False using assms by (simp add: record_consts)
qed

theorem fifo_zero_filler_hangs_witness:
  "fifo_loop (\<lambda>x l k. Some (k @ [x])) (VERSION # END_OF_BUFFER # 0 # 0 # replicate 12 0) False [] = None"
  using fifo_zero_filler_hangs [of "replicate 12 0" "\<lambda>x l k. Some (k @ [x])" False "[]"] by simp

end
