(* ===== verification/Fifo_Call.thy ===== *)
theory Fifo_Call
  imports Rtrb_Backend Log_Properties
begin

text \<open>
  The logging call of a build with a FIFO backend (\<open>src/src/macros.rs\<close>, \<open>dispatch\<close>): a yes or no from
  \<open>reserve\<close>, then the backend assembles the record where its layout wants it. \<open>mem\<close> is the
  memory it hands to the assembler.
\<close>

definition fifo_dispatch ::
  "('r \<Rightarrow> nat \<Rightarrow> backpressure \<Rightarrow> bool option) \<Rightarrow> (nat \<Rightarrow> bytes \<Rightarrow> (bytes \<Rightarrow> bytes option) \<Rightarrow> 'r \<Rightarrow> 'r option) \<Rightarrow> bytes
   \<Rightarrow> u64 \<Rightarrow> level \<Rightarrow> u64 \<Rightarrow> u8 \<Rightarrow> nat \<Rightarrow> backpressure \<Rightarrow> (bytes \<Rightarrow> bytes option) \<Rightarrow> 'r \<Rightarrow> 'r option"
where
  "fifo_dispatch rsv wr mem timestamp level site n_args args_total policy write r =
     (if MAX_RECORD_SIZE < args_total then Some r
      else case rsv r args_total policy of
             None \<Rightarrow> None
           | Some False \<Rightarrow> Some r
           | Some True \<Rightarrow>
               wr args_total mem (\<lambda>dst. assemble dst level timestamp FLAG_SITE site n_args args_total write) r)"

definition fifo_log_call ::
  "('r \<Rightarrow> nat \<Rightarrow> backpressure \<Rightarrow> bool option) \<Rightarrow> (nat \<Rightarrow> bytes \<Rightarrow> (bytes \<Rightarrow> bytes option) \<Rightarrow> 'r \<Rightarrow> 'r option) \<Rightarrow> bytes
   \<Rightarrow> u64 \<Rightarrow> level \<Rightarrow> backpressure \<Rightarrow> level \<Rightarrow> u64 \<Rightarrow> arg list \<Rightarrow> 'r \<Rightarrow> 'r option"
where
  "fifo_log_call rsv wr mem timestamp ceiling policy level site args r =
     (if level \<le> ceiling then
        if args = [] then fifo_dispatch rsv wr mem timestamp level site 0 BASE_RECORD_SIZE policy Some r
        else fifo_dispatch rsv wr mem timestamp level site (n_args_u8 args) (call_size args) policy
               (\<lambda>buf. map_option fst (write_args args buf 0 (unat (n_args_u8 args)))) r
      else Some r)"

text \<open>What the call relies on: a backend that said yes places the assembled bytes, wherever it lets
  them be assembled.\<close>

locale fifo_backend =
  fixes ok :: "'r \<Rightarrow> bool"
    and rsv :: "'r \<Rightarrow> nat \<Rightarrow> backpressure \<Rightarrow> bool option"
    and wr :: "nat \<Rightarrow> bytes \<Rightarrow> (bytes \<Rightarrow> bytes option) \<Rightarrow> 'r \<Rightarrow> 'r option"
    and put :: "backpressure \<Rightarrow> bytes \<Rightarrow> 'r \<Rightarrow> ('r \<times> bool) option"
  assumes put_eq: "put policy x r =
      (case rsv r (length x) policy of
         None \<Rightarrow> None
       | Some False \<Rightarrow> Some (r, False)
       | Some True \<Rightarrow> map_option (\<lambda>r'. (r', True)) (wr (length x) (replicate (length x) 0) (\<lambda>dst. Some x) r))"
    and fills: "ok r \<Longrightarrow> rsv r (length x) policy = Some True \<Longrightarrow> 0 < length x \<Longrightarrow> length mem = length x \<Longrightarrow>
      (\<And>dst. length dst = length x \<Longrightarrow> f dst = Some x) \<Longrightarrow>
      wr (length x) mem f r = wr (length x) (replicate (length x) 0) (\<lambda>dst. Some x) r"
begin

lemma call_puts:
  assumes "ok r" "l \<le> ceiling" "length args \<le> 255" "length mem = BASE_RECORD_SIZE + length args + args_size args"
    "length mem \<le> MAX_RECORD_SIZE"
  shows "fifo_log_call rsv wr mem ts ceiling policy l site args r =
    map_option fst (put policy (wire_record l ts site args) r)"
proof -
  let ?n = "BASE_RECORD_SIZE + length args + args_size args" let ?x = "wire_record l ts site args"
  let ?w = "\<lambda>buf. map_option fst (write_args args buf 0 (length args))"
  have n: "?n \<le> MAX_RECORD_SIZE" using assms(4,5) by simp
  have len: "length ?x = ?n" "0 < length ?x" by (simp_all add: record_consts)
  have d: "fifo_log_call rsv wr mem ts ceiling policy l site args r =
    fifo_dispatch rsv wr mem ts l site (word_of_nat (length args)) ?n policy ?w r"
  proof (cases "args = []")
    case True
    have "Some = (\<lambda>buf. map_option fst (write_args [] buf 0 0))" by (rule ext) simp
    then show ?thesis using True assms(2) by (simp add: fifo_log_call_def args_size_def)
  next
    case False
    then show ?thesis using assms(2) call_size_eq [OF assms(3) n] by (simp add: fifo_log_call_def n_args_u8_def)
  qed
  let ?f = "\<lambda>dst. assemble dst l ts FLAG_SITE site (word_of_nat (length args)) ?n ?w"
  have f: "?f dst = Some ?x" if "length dst = length ?x" for dst
    using assemble_wire_record [OF assms(3) refl] that len(1) by simp
  have "wr ?n mem ?f r = wr (length ?x) (replicate (length ?x) 0) (\<lambda>dst. Some ?x) r" if "rsv r (length ?x) policy = Some True"
    using fills [OF assms(1) that len(2) _ f] assms(4) len(1) by simp
  then show ?thesis
    using n len(1) by (auto simp: d fifo_dispatch_def put_eq option.map_comp comp_def option.map_ident split: option.splits bool.splits)
qed

end

interpretation rbf_call: fifo_backend "\<lambda>r. True" "rbf_reserve api []" "rbf_write_record api" "rbf_put api" for api :: "'q ringbuffer_crate"
  by unfold_locales (auto simp: rbf_put_def rbf_write_record_def fill_scratch_def)

interpretation rbu_call: fifo_backend "\<lambda>r. True" "rbu_reserve api []" "rbu_write_record api" "rbu_put api" for api :: "'q ringbuf_crate"
  by unfold_locales (auto simp: rbu_put_def rbu_write_record_def fill_scratch_def)

interpretation tr_call: fifo_backend "\<lambda>r. True" "tr_reserve api []" "tr_write_record api" "tr_put api" for api :: "'q triple_crate"
  by unfold_locales (auto simp: tr_put_def tr_write_record_def fill_scratch_def)

text \<open>A ring of the rtrb backend whose queue has the room it declares, at any chunk size.\<close>

context rtrb_api
begin

definition declared :: "'q rtrb_ring \<Rightarrow> bool" where
  "declared r \<longleftrightarrow> rr_capacity r = room (rr_queue r) \<and> rr_capacity r < 2 ^ 64 \<and>
     length (content (rr_queue r)) \<le> room (rr_queue r)"

end

sublocale rtrb_api < call: fifo_backend declared "rt_reserve api []" "\<lambda>n mem. rt_write_record api n mem mem" "rt_put api"
proof unfold_locales
  fix r x policy and mem :: bytes and f :: "bytes \<Rightarrow> bytes option"
  assume d: "declared r" and y: "rt_reserve api [] r (length x) policy = Some True" and m: "length mem = length x"
    and f: "\<And>dst. length dst = length x \<Longrightarrow> f dst = Some x"
  have room: "length (rr_staged r) + length x \<le> room (rr_queue r) - length (content (rr_queue r))"
    using reserve_room [OF y] d by (simp add: declared_def)
  have "rt_write_record api (length x) mem mem f r = rt_commit api x r"
    using write_record_commit [of x f mem mem r] f m room by blast
  moreover have "rt_write_record api (length x) (replicate (length x) 0) (replicate (length x) 0) (\<lambda>dst. Some x) r = rt_commit api x r"
    using write_record_commit [of x "\<lambda>dst. Some x" "replicate (length x) 0" "replicate (length x) 0" r] room by simp
  ultimately show "rt_write_record api (length x) mem mem f r =
      rt_write_record api (length x) (replicate (length x) 0) (replicate (length x) 0) (\<lambda>dst. Some x) r" by simp
qed (simp add: rt_put_def)

context rtrb_api
begin

lemma rt_call_puts:
  assumes "declared r" "l \<le> ceiling" "length args \<le> 255" "length mem = BASE_RECORD_SIZE + length args + args_size args"
    "length mem \<le> MAX_RECORD_SIZE"
  shows "fifo_log_call (rt_reserve api []) (\<lambda>n mem. rt_write_record api n mem mem) mem ts ceiling policy l site args r =
    map_option fst (rt_put api policy (wire_record l ts site args) r)"
  using assms by (rule call.call_puts)

end

text \<open>C34: On every FIFO backend a logging call is one write of its record: below the level ceiling and
  within the size limits, whatever memory the backend lets the record be assembled in, the call has
  the effect of putting exactly the bytes of the wire record into the channel, or leaves the ring
  alone where the backend refuses.\<close>

theorem fifo_call_puts:
  fixes args :: "arg list" and ts site :: u64
  assumes "l \<le> ceiling" "length args \<le> 255" "length mem = BASE_RECORD_SIZE + length args + args_size args"
    "length mem \<le> MAX_RECORD_SIZE" "rtrb_api rt content room" "rr_capacity q = room (rr_queue q)" "rr_capacity q < 2 ^ 64"
    "length (content (rr_queue q)) \<le> room (rr_queue q)"
  defines "x \<equiv> wire_record l ts site args"
  shows "fifo_log_call (rbf_reserve rb []) (rbf_write_record rb) mem ts ceiling policy l site args r = map_option fst (rbf_put rb policy x r) \<and>
    fifo_log_call (rbu_reserve ru []) (rbu_write_record ru) mem ts ceiling policy l site args s = map_option fst (rbu_put ru policy x s) \<and>
    fifo_log_call (tr_reserve tr []) (tr_write_record tr) mem ts ceiling policy l site args t = map_option fst (tr_put tr policy x t) \<and>
    fifo_log_call (rt_reserve rt []) (\<lambda>n mem. rt_write_record rt n mem mem) mem ts ceiling policy l site args q =
      map_option fst (rt_put rt policy x q)"
proof -
  have "rtrb_api.declared content room q" using assms(6-8) by (simp add: rtrb_api.declared_def [OF assms(5)])
  note rt = rtrb_api.rt_call_puts [OF assms(5) this assms(1-4)]
  show ?thesis unfolding x_def
    by (intro conjI rt rbf_call.call_puts [OF TrueI assms(1-4)] rbu_call.call_puts [OF TrueI assms(1-4)]
        tr_call.call_puts [OF TrueI assms(1-4)])
qed

theorem fifo_call_puts_witness:
  "\<exists>r q. rbf_with_capacity array_ringbuffer 128 = Some r \<and> rt_split array_rtrb 4 128 = Some q \<and>
     fifo_log_call (rbf_reserve array_ringbuffer []) (rbf_write_record array_ringbuffer) (replicate 30 9) 5 Info Drop Warn 4096 [U32 7] r =
       Some (r\<lparr>fr_fifo := (wire_record Warn 5 4096 [U32 7], 128)\<rparr>) \<and>
     map_option rr_staged (fifo_log_call (rt_reserve array_rtrb []) (\<lambda>n mem. rt_write_record array_rtrb n mem mem)
       (replicate 30 9) 5 Info Drop Warn 4096 [U32 7] q) = Some (wire_record Warn 5 4096 [U32 7])"
proof -
  let ?r = "\<lparr>fr_fifo = ([], 128), fr_live = True, fr_capacity = 128, fr_thread_id = 0, fr_thread_name = []\<rparr>"
  let ?q = "\<lparr>rr_queue = ([], 127), rr_staged = [], rr_staged_records = 0, rr_chunk_size = 4, rr_live = True, rr_capacity = 127,
    rr_thread_id = 0, rr_thread_name = []\<rparr>"
  have new: "rbf_with_capacity array_ringbuffer 128 = Some ?r" "rt_split array_rtrb 4 128 = Some ?q" by code_simp+
  have put: "map_option fst (rbf_put array_ringbuffer Drop (wire_record Warn 5 4096 [U32 7]) ?r) =
      Some (?r\<lparr>fr_fifo := (wire_record Warn 5 4096 [U32 7], 128)\<rparr>)"
    "map_option rr_staged (map_option fst (rt_put array_rtrb Drop (wire_record Warn 5 4096 [U32 7]) ?q)) = Some (wire_record Warn 5 4096 [U32 7])"
    by code_simp+
  have sz: "length (replicate 30 (9::u8)) = BASE_RECORD_SIZE + length [U32 7] + args_size [U32 7]" by code_simp
  have l: "Warn \<le> Info" by code_simp
  note c = fifo_call_puts [OF l _ sz _ array_rt.rtrb_api_axioms, where q = ?q and ts = 5 and site = 4096 and rb = array_ringbuffer and
    policy = Drop and r = ?r and ru = array_ringbuf and s = undefined and tr = slot_triple and t = undefined]
  have "fifo_log_call (rbf_reserve array_ringbuffer []) (rbf_write_record array_ringbuffer) (replicate 30 9) 5 Info Drop Warn 4096 [U32 7] ?r =
      map_option fst (rbf_put array_ringbuffer Drop (wire_record Warn 5 4096 [U32 7]) ?r)"
    "fifo_log_call (rt_reserve array_rtrb []) (\<lambda>n mem. rt_write_record array_rtrb n mem mem) (replicate 30 9) 5 Info Drop Warn 4096 [U32 7] ?q =
      map_option fst (rt_put array_rtrb Drop (wire_record Warn 5 4096 [U32 7]) ?q)"
    using c by (simp_all add: record_consts)
  then show ?thesis using new put by (intro exI [of _ ?r] exI [of _ ?q]) simp
qed

end
