(* ===== verification/Spec2Isabelle.thy ===== *)
theory Spec2Isabelle
  imports Segmented_Run Handoff Platform Config_Properties Channel_Properties Text_Properties Sink_Properties Fifo_Properties Fifo_Call
begin

text \<open>
  A verification library for ticklog (\<open>src/src\<close>), an asynchronous logger: logging calls encode
  their arguments into a per-thread ring buffer, a drain thread decodes, formats and hands the
  lines to a sink. Every definition below is executable and follows the named function of the
  source; a result \<open>None\<close> is a panic or a call that does not return by itself, errors that the
  code returns are values.

  \<^bold>\<open>Encoding and the record.\<close> \<open>Level\<close> is the severity enum (\<open>level.rs\<close>); \<open>Encode\<close> the argument
  types with tags, sizes and payload bytes (\<open>encode.rs\<close>); \<open>Wire_Record\<close> the record constants,
  \<open>Site\<close> and \<open>assemble\<close> (\<open>record.rs\<close>). \<open>Tick_Prelude\<close> holds the shared lemmas on words, bytes,
  slices and stores.

  \<^bold>\<open>The ring.\<close> \<open>Ring\<close> models \<open>ring.rs\<close>: the two cache lines and the flags as one record, and every
  operation on it (\<open>reserve\<close>, \<open>try_ensure_capacity\<close>, \<open>publish\<close>, the flag setters, reuse), at
  64-bit width, with and without the features \<open>fast-tail-cache\<close> and \<open>watermark-head\<close>. \<open>Ring_Spec\<close>
  describes \<open>reserve\<close> by positions instead of words; \<open>Ring_Drain\<close> is the drain's pass
  (\<open>drain_ring_inner\<close>, \<open>drain_ring\<close> of \<open>drain.rs\<close>) and the framing invariant of the bytes between tail
  and head; \<open>Cursor\<close> is the bounded byte reader. \<open>Spsc\<close> runs a producer and the drain as a
  transition system in which every store of a byte, every publication and every record of a pass
  is a step of its own; \<open>Spsc_Properties\<close> shows that in every interleaving the drain receives a
  prefix of the published records, unchanged, that nothing undrained is overwritten, and when a
  reservation succeeds. \<open>Channel\<close> states the contract of a record channel as a locale and
  interprets it on the ring: any sequence of writes and passes behaves as a FIFO queue. The
  transition system covers the benchmark feature \<open>watermark-head\<close>, under which a ring that fills
  before its watermark stalls; the contract and the theorems on whole processes are about builds
  without it. Positions are assumed not to wrap: each proof carries a budget of 131072 bytes per
  record below 2 to the 64, which no process exhausts.

  \<^bold>\<open>Decoding and text.\<close> \<open>Utf8\<close>, \<open>Format_Spec\<close> (specs, templates, the compile-time and run-time
  validators), \<open>Format_Value\<close> (padding and numbers) model \<open>format.rs\<close>; \<open>Timestamp\<close> models
  \<open>timestamp.rs\<close> with double arithmetic as rounding on rationals and its calendar on words; \<open>Decode\<close> models argument
  formatting, message interleaving, pattern rendering and \<open>decode_and_format\<close> of \<open>drain.rs\<close>. The
  shortest-decimal text of floats and the escaping of \<open>{:?}\<close> strings belong to the standard
  library's \<open>fmt\<close> and are parameters. \<open>Text_Properties\<close>: a record assembled at a checked call site is
  decoded into the line the pattern describes, numbers and dates read back, the two spec
  validators agree, time stamps are monotone.

  \<^bold>\<open>Sinks.\<close> \<open>Sink\<close> models \<open>sink/*.rs\<close> over an arbitrary writer (\<open>io_ops\<close>); the locale \<open>append_io\<close> is
  what a writer promises. \<open>Sink_Properties\<close>: what the bounded in-memory sink keeps and counts,
  isolation of the branches of a fan-out, the bytes line sinks write.

  \<^bold>\<open>FIFO backends.\<close> \<open>Fifo_Drain\<close> is the FIFO variant of the drain pass and the waiting loop shared by
  the backends; \<open>Fifo_Backends\<close> and \<open>Rtrb_Backend\<close> model \<open>ringbuffer_backend.rs\<close>, \<open>ringbuf_backend.rs\<close>,
  \<open>triple_buffer_backend.rs\<close> and \<open>rtrb_backend.rs\<close> over the third-party queues, which are locales
  with the documented laws of those crates, interpreted on array-based queues. \<open>Fifo_Call\<close> is the
  logging call of such a build over the locale \<open>fifo_backend\<close>, interpreted on all four: a call puts
  its wire record, wherever the backend assembles it. \<open>Fifo_Properties\<close>:
  each backend is a record channel; batched rtrb records staged at thread exit are lost; a corrupt
  end-of-buffer frame of size zero stops the drain forever.

  \<^bold>\<open>Threads and policies.\<close> \<open>Runtime\<close> has the heap of shared rings, the registry and thread identity
  (\<open>thread_buf.rs\<close>); \<open>Segments\<close> the segment pool and the producer's helper path (\<open>segments.rs\<close>);
  \<open>Log_Call\<close> the thread-local buffer, \<open>reserve_with_policy\<close>, \<open>dispatch\<close> and the logging macro
  (\<open>macros.rs\<close>). \<open>Log_Properties\<close>: a call appends its record or, under Drop only, leaves the ring
  alone; Quill never drops; the recorded thread identity. \<open>Handoff\<close> takes the handoff loop turn by
  turn: a record as large as a segment keeps it allocating forever.

  \<^bold>\<open>The drain thread.\<close> \<open>Drain_Thread\<close> models \<open>impl Drain\<close>: \<open>sync_rings\<close>, \<open>poll_once\<close>, \<open>maybe_retire\<close> and
  \<open>run\<close>. A pass over one ring is one step of this model, since \<open>Spsc\<close> covers what happens inside;
  what other threads do happens between the turns of the loop. \<open>Drain_Laws\<close> proves what sync, poll
  and the final pass deliver for every sink that satisfies the locale \<open>lossless_sink\<close>, and
  \<open>Drain_Sinks\<close> interprets it on the in-memory sink and, through \<open>steady_io\<close>, on the line sinks.
  \<open>Drain_Properties\<close>: nothing is lost at shutdown, lines reach their target, the ring list is exact
  after a sync, and two ways in which segments of one thread are delivered out of order.

  \<^bold>\<open>Start and stop.\<close> \<open>Config\<close> models \<open>error.rs\<close>, the keys and \<open>__configure_rt\<close> of \<open>builder.rs\<close> and
  \<open>Guard::drop\<close>; \<open>Config_Properties\<close> says when configuration succeeds, what its errors leave behind
  and that it happens once. \<open>Process\<close> composes everything: threads of a configured process log in
  any interleaving of whole calls; its locale \<open>ring_condition\<close> says what a further condition on the
  rings has to satisfy to be kept by the calls, and is interpreted once for rings nobody drains and
  once for rings shared with the drain; its locale \<open>identity_sink\<close> extends \<open>lossless_sink\<close> to sinks
  whose output names the thread. \<open>Running\<close> adds the turns of the drain loop: the inductive
  predicate \<open>running\<close> has the states reached by calls and turns in any order, under Drop or Block,
  with the calls made and the records accepted so far as a history; what holds in all of them is
  proved once for every such sink. \<open>Segmented\<close> and \<open>Segmented_Run\<close> do the same under the
  segmented policies, Quill and NanoLog: the first follows a call, which may move its thread to a
  spare or a fresh segment or, when the pool is empty, format what its segment still holds into
  the queue of lines itself; the second follows the turns, which retire handed-off segments into
  the pool, and the final pass. Their invariant has the segments, the pool and the queue, so the
  records delivered, those queued and those still waiting are together those logged. The theorems
  of this theory are about such a process from \<open>configure!\<close> to the drop of its guard: what the
  in-memory sink holds, which lines a target receives, that a call which finds its ring full gets
  through within one period of the drain's registry scan, that the segmented policies lose nothing
  and never wait, and how many segments NanoLog allocates.

  \<^bold>\<open>Around the platform.\<close> \<open>Platform\<close> has the counter behind a spinning wait (\<open>backoff.rs\<close>), the pinning
  of a thread (\<open>affinity.rs\<close>), which asks the platform for reported cores only, and the lanes of
  the profiler (\<open>hotpath.rs\<close>).

  \<^bold>\<open>Fuel and loops.\<close> Loops that may run forever (the blocking reservation, the drain's record loops,
  the handoff loop) are \<open>partial_function\<close>s in the option monad, so that termination is proved as
  such; a blocking producer reads the drain's progress from a list of observations, and the run
  loop of the drain reads one entry of a list per turn, both of any length. The other loops are
  total functions.

  \<^bold>\<open>Not modelled.\<close> The hardware counter reads (platform calls), the \<open>r3\<close> arena under the segments
  (memory only), where the library calls its profiler, the crate root's re-exports, the loom tests, the
  text of diagnostics on stderr, and weak-memory reorderings: the transition
  system of the ring is sequentially consistent. The benches and \<open>cross-lang-bench\<close> are not part
  of the library.
\<close>

definition hello :: call where
  "hello = \<lparr>ca_thread = 3, ca_level = Info, ca_time = 5, ca_site = 4096, ca_args = [U32 7]\<rparr>"

lemma hello_facts:
  "call_ok hello" "slots (length (call_record hello)) < 4096" "2 * slots (length (call_record hello)) \<le> 4096"
  "ca_thread hello = 3" "ca_level hello = Info"
  by code_simp+

lemma demo_configure:
  assumes "template_parse (if fmt = [] then DEFAULT_LINE_PATTERN else fmt) = Inr pat"
  shows "\<exists>d g1. configure_rt False demo_boot s 3600 4096 fmt policy fresh_globals = Some (Inr d, g1)"
proof -
  have "config_valid 3600 4096 fmt" using assms demo_config(1) by (auto simp: config_valid_def)
  then show ?thesis
    using configure_ok [of fresh_globals demo_boot 3600 4096 fmt False s policy] demo_boot_calibrates
    by (auto simp: fresh_globals_def demo_boot_def)
qed

lemma demo_lim:
  "g_segments fresh_globals = None" "g_capacity fresh_globals = None" "(4096::nat) < 2 ^ 64" "\<not> watermark_head default_features"
  "Drop \<in> {Drop, Block}"
  by (simp_all add: fresh_globals_def default_features_def)

text \<open>A call and a turn from the start, where calls and turns are known to return.\<close>

lemma hello_reaches:
  assumes safe: "\<And>cs acc p. running ft io e os Info policy ok start cs acc p \<Longrightarrow> length cs < 2 ^ 45 \<Longrightarrow>
      process_call ft e os Info policy hello p \<noteq> None \<and> process_turn ft io e p \<noteq> None" and ok: "ok hello"
  shows "\<exists>p. running ft io e os Info policy ok start [hello]
    (accept_call (ca_level hello \<le> Info \<and> accepts ft policy (p_threads start) (p_globals start) hello) hello (\<lambda>_. [])) p"
proof -
  have 0: "running ft io e os Info policy ok start [] (\<lambda>_. []) start" by (rule running.start)
  then obtain p1 where p1: "process_call ft e os Info policy hello start = Some p1" using safe [OF 0] by auto
  note 1 = running.call [OF 0 ok p1, unfolded append_Nil]
  obtain p2 where "process_turn ft io e p1 = Some p2" using safe [OF 1] by auto
  then show ?thesis using running.turn [OF 1] by blast
qed

lemma hello_accepted:
  assumes "configure_rt False demo_boot s 3600 4096 fmt Drop fresh_globals = Some (Inr d, g1)"
  shows "accept_call (ca_level hello \<le> Info \<and> accepts ft Drop (p_threads (process_init d g1 w)) (p_globals (process_init d g1 w)) hello)
    hello (\<lambda>_. []) = (\<lambda>t. if t = 3 then [call_record hello] else [])"
  using configure_classic(5) [OF assms] hello_facts demo_lim
  by (simp add: accepts_def process_init_def idle_thread_def accept_call_def fun_eq_iff)

text \<open>C1: A running process delivers what its threads log. After \<open>configure\<close> with the Drop or the Block
  policy and the in-memory sink, let threads make logging calls and the drain take turns in any
  order. In every state this reaches, a further turn returns and so does a further call, except
  that it may wait under Block; the records a thread's ring accepted are a subsequence of those
  it logged, under Block all of them; and when the guard is dropped the drain stops with a sink
  that holds, thread by thread and in the order of the calls, exactly the accepted records, each
  once and nothing else.
  The feature \<open>watermark-head\<close> is off; with it a full ring can stall.\<close>

theorem running_delivers:
  assumes "configure_rt False bt (InMemorySink mem_new) tz cap fmt policy g0 = Some (Inr d, g1)" "policy \<in> {Drop, Block}"
    "g_segments g0 = None" "g_capacity g0 = None" "cap < 2 ^ 64" "\<not> watermark_head ft"
    "running ft io e os ceiling policy call_ok (process_init d g1 w) cs acc p" "length cs < 2 ^ 45"
  shows "(\<forall>c. call_ok c \<longrightarrow> process_call ft e os ceiling policy c p = None \<longrightarrow> policy = Block) \<and>
    process_turn ft io e p \<noteq> None \<and>
    (\<forall>t. subseq (acc t) (thread_records ceiling cs t) \<and> (policy = Block \<longrightarrow> acc t = thread_records ceiling cs t)) \<and>
    (\<exists>d' g' w' st' D. process_stop ft io e p = Some (d', g', w') \<and> dr_sink d' = InMemorySink st' \<and>
      map cr_bytes (ms_records st') = map snd D \<and> (\<forall>t. of_thread t D = acc t))"
proof -
  note sum = mem_running [OF assms]
  obtain d' g' w' D where f: "process_stop ft io e p = Some (d', g', w')" "mem_good (dr_sink d', w')"
    "mem_seen (dr_sink d', w') = concat (map (\<lambda>(t, x). mem_id.told os t x) D)" "\<forall>t. of_thread t D = acc t"
    using sum(4) by (elim exE conjE) (rule that)
  obtain st' where st': "dr_sink d' = InMemorySink st'" using f(2) by (auto simp: mem_good_def split: sink.splits)
  have "map cr_bytes (concat (map (\<lambda>(t, x). mem_id.told os t x) D)) = map snd D"
    by (simp add: mem_id.told_def capture_line_def map_concat comp_def case_prod_unfold)
  then have "map cr_bytes (ms_records st') = map snd D" using f(3) st' by (simp add: mem_seen_def)
  moreover have "\<forall>t. subseq (acc t) (thread_records ceiling cs t) \<and> (policy = Block \<longrightarrow> acc t = thread_records ceiling cs t)"
    using sum(3) unfolding accepted_ok_def .
  ultimately show ?thesis using sum(1,2) f(1,4) st' by blast
qed

theorem running_delivers_witness:
  "\<forall>e os. \<exists>d g1 p acc d' g' w' st'. configure_rt False demo_boot (InMemorySink mem_new) 3600 4096 [] Drop fresh_globals = Some (Inr d, g1) \<and>
     running default_features vec_io e os Info Drop call_ok (process_init d g1 (\<lambda>_. [])) [hello] acc p \<and>
     process_stop default_features vec_io e p = Some (d', g', w') \<and> dr_sink d' = InMemorySink st' \<and>
     map cr_bytes (ms_records st') = [call_record hello]"
proof (intro allI)
  fix e os
  obtain pat where "template_parse DEFAULT_LINE_PATTERN = Inr pat" using demo_config(1) by (auto simp: config_valid_def)
  then obtain d g1 where cfg: "configure_rt False demo_boot (InMemorySink mem_new) 3600 4096 [] Drop fresh_globals = Some (Inr d, g1)"
    using demo_configure [of "[]" pat "InMemorySink mem_new" Drop] by auto
  note t = running_delivers [OF cfg demo_lim(5,1-4), where e = e and os = os and io = vec_io and ceiling = Info and w = "\<lambda>_. []"]
  let ?p0 = "process_init d g1 (\<lambda>_ :: target. [] :: bytes)" let ?run = "running default_features vec_io e os Info Drop call_ok ?p0"
  let ?acc = "\<lambda>t. if t = 3 then [call_record hello] else []"
  obtain p2 where 2: "?run [hello] ?acc p2"
    using hello_reaches [where ok = call_ok and start = ?p0 and policy = Drop and ft = default_features and io = vec_io] t hello_facts(1)
    unfolding hello_accepted [OF cfg] by blast
  have "\<exists>d' g' w' st' D. process_stop default_features vec_io e p2 = Some (d', g', w') \<and> dr_sink d' = InMemorySink st' \<and>
      map cr_bytes (ms_records st') = map snd D \<and> (\<forall>t. of_thread t D = ?acc t)" using t [OF 2] by simp
  then obtain d' g' w' st' D where stop: "process_stop default_features vec_io e p2 = Some (d', g', w')" "dr_sink d' = InMemorySink st'"
    and D: "map cr_bytes (ms_records st') = map snd D" "\<forall>t. of_thread t D = ?acc t" by (elim exE conjE) (rule that)
  have "map cr_bytes (ms_records st') = [call_record hello]" using D(1) of_thread_one [OF D(2)] by simp
  then show "\<exists>d g1 p acc d' g' w' st'. configure_rt False demo_boot (InMemorySink mem_new) 3600 4096 [] Drop fresh_globals = Some (Inr d, g1) \<and>
     running default_features vec_io e os Info Drop call_ok (process_init d g1 (\<lambda>_. [])) [hello] acc p \<and>
     process_stop default_features vec_io e p = Some (d', g', w') \<and> dr_sink d' = InMemorySink st' \<and>
     map cr_bytes (ms_records st') = [call_record hello]"
    using cfg 2 stop by (intro exI conjI)
qed

text \<open>C2: The same process with a sink that writes lines to a target \<open>tgt\<close>, on a writer that does not
  fail, for calls whose record the drain can render under the thread's identity. Again calls return
  unless they wait under Block, turns return, and nothing is dropped under Block. When the guard is dropped the target holds, after what was there before, one line for each
  accepted record and nothing else: the text the pattern gives that record, ended by a newline,
  the lines of each thread in the order of its calls.
  The feature \<open>watermark-head\<close> is off; with it a full ring can stall.\<close>

theorem running_writes_lines:
  assumes "\<forall>t s w. \<exists>w'. io_write io t s w = (w', None) \<and> content t w' = content t w @ s"
    "\<forall>t w. \<exists>w'. io_flush io t w = (w', None) \<and> content t w' = content t w"
    "configure_rt False bt s tz cap fmt policy g0 = Some (Inr d, g1)" "policy \<in> {Drop, Block}" "writes_to tgt s"
    "g_segments g0 = None" "g_capacity g0 = None" "cap < 2 ^ 64" "\<not> watermark_head ft"
    "running ft io e os ceiling policy (\<lambda>c. call_ok c \<and> thread_line e d os (ca_thread c) (call_record c) \<noteq> None)
      (process_init d g1 w) cs acc p" "length cs < 2 ^ 45"
  shows "(\<forall>c. call_ok c \<and> thread_line e d os (ca_thread c) (call_record c) \<noteq> None \<longrightarrow>
      process_call ft e os ceiling policy c p = None \<longrightarrow> policy = Block) \<and>
    process_turn ft io e p \<noteq> None \<and>
    (\<forall>t. subseq (acc t) (thread_records ceiling cs t) \<and> (policy = Block \<longrightarrow> acc t = thread_records ceiling cs t)) \<and>
    (\<exists>d' g' w' D. process_stop ft io e p = Some (d', g', w') \<and> (\<forall>t. of_thread t D = acc t) \<and>
      content tgt w' = content tgt w @ pending s @ concat (map (\<lambda>(t, x). the (thread_line e d os t x) @ [NL]) D))"
proof -
  have io: "steady_io io content" using assms(1,2) by unfold_locales (metis prod.inject)+
  note c = configure_classic [OF assms(3,4)]
  have st: "g_registry g1 = Some []" "g_segments g1 = None" "g_capacity g1 = Some cap"
    using c(3-5) assms(6,7) by simp_all
  have "writes_to tgt (dr_sink d)" using assms(5) c(6) by simp
  from steady_io.lines_running [OF io assms(10,11) st this c(7,8) assms(4) c(1,2) assms(8,9)]
  show ?thesis unfolding accepted_ok_def c(6) .
qed

definition hello_env :: "std_fmt \<Rightarrow> env" where
  "hello_env sf = \<lparr>env_fmt = sf, env_sites = (\<lambda>a. Some \<lparr>site_fmt = bs ''x {}'', site_file = bs ''a.rs'', site_line = 1\<rparr>), env_rodata = (\<lambda>a n. None)\<rparr>"

lemma hello_line:
  "decode_and_format (hello_env sf) (call_record hello) tz calib [Lit (bs ''hi'')] i nm [] = Some (bs ''hi'')"
  by code_simp

theorem running_writes_lines_witness:
  "\<forall>sf os. \<exists>d g1 p acc d' g' w'. configure_rt False demo_boot (WriterSink (Handle 0)) 3600 4096 (bs ''hi'') Drop fresh_globals = Some (Inr d, g1) \<and>
     running default_features vec_io (hello_env sf) os Info Drop
       (\<lambda>c. call_ok c \<and> thread_line (hello_env sf) d os (ca_thread c) (call_record c) \<noteq> None) (process_init d g1 (\<lambda>_. [])) [hello] acc p \<and>
     process_stop default_features vec_io (hello_env sf) p = Some (d', g', w') \<and> w' (Handle 0) = bs ''hi'' @ [NL]"
proof (intro allI)
  fix sf os
  let ?e = "hello_env sf"
  have pat: "template_parse (bs ''hi'') = Inr [Lit (bs ''hi'')]" by code_simp
  obtain d g1 where cfg: "configure_rt False demo_boot (WriterSink (Handle 0)) 3600 4096 (bs ''hi'') Drop fresh_globals = Some (Inr d, g1)"
    using demo_configure [of "bs ''hi''" "[Lit (bs ''hi'')]" "WriterSink (Handle 0)" Drop] pat by auto
  have "dr_pattern d = [Lit (bs ''hi'')]" using configure_pattern [OF cfg] pat by simp
  then have line: "thread_line ?e d os t (call_record hello) = Some (bs ''hi'')" for t using hello_line by (simp add: thread_line_def)
  have io: "\<forall>t s w. \<exists>w'. io_write vec_io t s w = (w', None) \<and> w' t = w t @ s" "\<forall>t w. \<exists>w'. io_flush vec_io t w = (w', None) \<and> w' t = w t"
    by (simp_all add: vec_io_def)
  have tgt: "writes_to (Handle 0) (WriterSink (Handle 0))" by simp
  note t = running_writes_lines [where content = "\<lambda>t w. w t", OF io cfg demo_lim(5) tgt demo_lim(1-4),
      where e = ?e and os = os and ceiling = Info and w = "\<lambda>_. []"]
  let ?p0 = "process_init d g1 (\<lambda>_ :: target. [] :: bytes)"
  let ?ok = "\<lambda>c. call_ok c \<and> thread_line ?e d os (ca_thread c) (call_record c) \<noteq> None"
  let ?run = "running default_features vec_io ?e os Info Drop ?ok ?p0"
  let ?acc = "\<lambda>t. if t = 3 then [call_record hello] else []"
  have ok: "?ok hello" using hello_facts(1) line by simp
  obtain p2 where 2: "?run [hello] ?acc p2"
    using hello_reaches [where ok = ?ok and start = ?p0 and policy = Drop and ft = default_features and io = vec_io and e = ?e] t ok
    unfolding hello_accepted [OF cfg] by blast
  have "\<exists>d' g' w' D. process_stop default_features vec_io ?e p2 = Some (d', g', w') \<and> (\<forall>t. of_thread t D = ?acc t) \<and>
      w' (Handle 0) = concat (map (\<lambda>(t, x). the (thread_line ?e d os t x) @ [NL]) D)" using t [OF 2] by simp
  then obtain d' g' w' D where stop: "process_stop default_features vec_io ?e p2 = Some (d', g', w')"
    and D: "\<forall>t. of_thread t D = ?acc t" "w' (Handle 0) = concat (map (\<lambda>(t, x). the (thread_line ?e d os t x) @ [NL]) D)"
    by (elim exE conjE) (rule that)
  have "w' (Handle 0) = bs ''hi'' @ [NL]" using D(2) of_thread_one [OF D(1)] line by simp
  then show "\<exists>d g1 p acc d' g' w'. configure_rt False demo_boot (WriterSink (Handle 0)) 3600 4096 (bs ''hi'') Drop fresh_globals = Some (Inr d, g1) \<and>
     running default_features vec_io ?e os Info Drop
       (\<lambda>c. call_ok c \<and> thread_line ?e d os (ca_thread c) (call_record c) \<noteq> None) (process_init d g1 (\<lambda>_. [])) [hello] acc p \<and>
     process_stop default_features vec_io ?e p = Some (d', g', w') \<and> w' (Handle 0) = bs ''hi'' @ [NL]"
    using cfg 2 stop by (intro exI conjI)
qed

text \<open>C3: A call that finds its ring full gets through. In every reachable state of such a process, let
  a thread make a call below the level ceiling whose record takes at most half of a ring: after at
  most 1024 turns of the drain, one period of its registry scan, the call returns and its record is
  accepted, also when the ring was full, was registered since the last scan, or does not exist yet.
  The feature \<open>watermark-head\<close> is off; with it a full ring can stall.\<close>

theorem call_gets_through:
  assumes "configure_rt False bt (InMemorySink mem_new) tz cap fmt policy g0 = Some (Inr d, g1)" "policy \<in> {Drop, Block}"
    "g_segments g0 = None" "g_capacity g0 = None" "cap < 2 ^ 64" "\<not> watermark_head ft"
    "running ft io e os ceiling policy call_ok (process_init d g1 w) cs acc p" "length cs < 2 ^ 45"
    "call_ok c" "ca_level c \<le> ceiling" "2 * slots (length (call_record c)) \<le> cap"
  shows "\<exists>n p' p''. n \<le> 1024 \<and> process_turns ft io e n p = Some p' \<and> accepts ft policy (p_threads p') (p_globals p') c \<and>
    process_call ft e os ceiling policy c p' = Some p''"
  using mem_running(5) [OF assms] .

theorem call_gets_through_witness:
  "\<forall>e os. \<exists>d g1 n p' p''. configure_rt False demo_boot (InMemorySink mem_new) 3600 4096 [] Drop fresh_globals = Some (Inr d, g1) \<and>
     n \<le> 1024 \<and> process_turns default_features vec_io e n (process_init d g1 (\<lambda>_. [])) = Some p' \<and>
     process_call default_features e os Info Drop hello p' = Some p''"
proof (intro allI)
  fix e os
  obtain pat where "template_parse DEFAULT_LINE_PATTERN = Inr pat" using demo_config(1) by (auto simp: config_valid_def)
  then obtain d g1 where cfg: "configure_rt False demo_boot (InMemorySink mem_new) 3600 4096 [] Drop fresh_globals = Some (Inr d, g1)"
    using demo_configure [of "[]" pat "InMemorySink mem_new" Drop] by auto
  have l: "ca_level hello \<le> Info" "length ([] :: call list) < 2 ^ 45" using hello_facts(5) by simp_all
  have "running default_features vec_io e os Info Drop call_ok (process_init d g1 (\<lambda>_. [])) [] (\<lambda>_. []) (process_init d g1 (\<lambda>_. []))"
    by (rule running.start)
  from call_gets_through [OF cfg demo_lim(5,1-4) this l(2) hello_facts(1) l(1) hello_facts(3)] cfg
  show "\<exists>d g1 n p' p''. configure_rt False demo_boot (InMemorySink mem_new) 3600 4096 [] Drop fresh_globals = Some (Inr d, g1) \<and>
     n \<le> 1024 \<and> process_turns default_features vec_io e n (process_init d g1 (\<lambda>_. [])) = Some p' \<and>
     process_call default_features e os Info Drop hello p' = Some p''" by blast
qed

text \<open>C4: The segmented policies lose nothing. Configure the NanoLog or the Quill policy and the in-memory
  sink, and let threads make calls whose records are smaller than a segment and the drain take
  turns, in any order. In every state this reaches, a further such call returns without waiting and
  so does a further turn; under NanoLog no more segments exist than the pool and one for each
  thread that has logged; and when the guard is dropped the drain stops with a sink that holds the
  record of every call at or below the level ceiling, as often as it was logged, and nothing else,
  whether the drain took it from its segment or a thread copied it out of a full pool. Their order
  is not promised: see the theorems on segments delivered out of order.
  The feature \<open>watermark-head\<close> is off; with it a full ring can stall.\<close>

theorem segmented_delivers:
  assumes "configure_rt False bt (InMemorySink mem_new) tz cap fmt policy g0 = Some (Inr d, g1)" "g_segments g0 = None"
    "policy \<in> {Quill, NanoLog}" "cap < 2 ^ 64" "\<not> watermark_head ft"
    "running ft io e os ceiling policy (\<lambda>c. call_ok c \<and> slots (length (call_record c)) < cap) (process_init d g1 w) cs acc p"
    "length cs < 2 ^ 45"
  shows "(\<forall>c. call_ok c \<and> slots (length (call_record c)) < cap \<longrightarrow> process_call ft e os ceiling policy c p \<noteq> None) \<and>
    process_turn ft io e p \<noteq> None \<and>
    (policy = NanoLog \<longrightarrow> h_next (g_heap (p_globals p)) \<le> h_next (g_heap g0) + max (NANOLOG_POOL_BUDGET div cap) 1 +
       card (ca_thread ` {c \<in> set cs. ca_level c \<le> ceiling})) \<and>
    (\<exists>d' g' w' st'. process_stop ft io e p = Some (d', g', w') \<and> dr_sink d' = InMemorySink st' \<and>
      mset (map cr_bytes (ms_records st')) = mset (map call_record (filter (\<lambda>c. ca_level c \<le> ceiling) cs)))"
proof -
  note sum = mem_segmented [OF assms]
  obtain d' g' w' D where f: "process_stop ft io e p = Some (d', g', w')" "mem_good (dr_sink d', w')"
    "mem_seen (dr_sink d', w') = concat (map (\<lambda>(t, x). mem_id.told os t x) D)" "mset D = mset (logged ceiling cs)"
    using sum(4) by (elim exE conjE) (rule that)
  obtain st' where st': "dr_sink d' = InMemorySink st'" using f(2) by (auto simp: mem_good_def split: sink.splits)
  have "map cr_bytes (concat (map (\<lambda>(t, x). mem_id.told os t x) D)) = map snd D"
    by (simp add: mem_id.told_def capture_line_def map_concat comp_def case_prod_unfold)
  then have "mset (map cr_bytes (ms_records st')) = image_mset snd (mset D)" using f(3) st' by (simp add: mem_seen_def)
  moreover have "map snd (logged ceiling cs) = map call_record (filter (\<lambda>c. ca_level c \<le> ceiling) cs)"
    by (simp add: logged_def)
  ultimately have "mset (map cr_bytes (ms_records st')) = mset (map call_record (filter (\<lambda>c. ca_level c \<le> ceiling) cs))"
    by (metis f(4) mset_map)
  moreover have "policy = NanoLog \<longrightarrow> h_next (g_heap (p_globals p)) \<le> h_next (g_heap g0) + max (NANOLOG_POOL_BUDGET div cap) 1 +
      card (ca_thread ` {c \<in> set cs. ca_level c \<le> ceiling})" using sum(3) by (simp add: pool_size_def loggers_def)
  ultimately show ?thesis using sum(1,2) f(1) st' by blast
qed

theorem segmented_delivers_witness:
  "\<forall>e os. \<exists>d g1 acc p d' g' w' st'. configure_rt False demo_boot (InMemorySink mem_new) 3600 4096 [] NanoLog fresh_globals = Some (Inr d, g1) \<and>
     running default_features vec_io e os Info NanoLog (\<lambda>c. call_ok c \<and> slots (length (call_record c)) < 4096)
       (process_init d g1 (\<lambda>_. [])) [hello] acc p \<and>
     process_stop default_features vec_io e p = Some (d', g', w') \<and> dr_sink d' = InMemorySink st' \<and>
     map cr_bytes (ms_records st') = [call_record hello]"
proof (intro allI)
  fix e os
  obtain pat where "template_parse DEFAULT_LINE_PATTERN = Inr pat" using demo_config(1) by (auto simp: config_valid_def)
  then obtain d g1 where cfg: "configure_rt False demo_boot (InMemorySink mem_new) 3600 4096 [] NanoLog fresh_globals = Some (Inr d, g1)"
    using demo_configure [of "[]" pat "InMemorySink mem_new" NanoLog] by auto
  have lim: "g_segments fresh_globals = None" "NanoLog \<in> {Quill, NanoLog}" "(4096::nat) < 2 ^ 64" "\<not> watermark_head default_features"
    by (simp_all add: fresh_globals_def default_features_def)
  let ?ok = "\<lambda>c. call_ok c \<and> slots (length (call_record c)) < 4096"
  let ?p0 = "process_init d g1 (\<lambda>_ :: target. [] :: bytes)" let ?run = "running default_features vec_io e os Info NanoLog ?ok ?p0"
  note t = segmented_delivers [OF cfg lim, where e = e and os = os and io = vec_io and ceiling = Info and w = "\<lambda>_. []"]
  have ok: "?ok hello" using hello_facts(1,2) by simp
  obtain acc p2 where 2: "?run [hello] acc p2"
    using hello_reaches [where ok = ?ok and start = ?p0 and policy = NanoLog and ft = default_features and io = vec_io] t ok by blast
  have "\<exists>d' g' w' st'. process_stop default_features vec_io e p2 = Some (d', g', w') \<and> dr_sink d' = InMemorySink st' \<and>
      mset (map cr_bytes (ms_records st')) = mset (map call_record (filter (\<lambda>c. ca_level c \<le> Info) [hello]))" using t [OF 2] by simp
  then obtain d' g' w' st' where stop: "process_stop default_features vec_io e p2 = Some (d', g', w')" "dr_sink d' = InMemorySink st'"
    and m: "mset (map cr_bytes (ms_records st')) = mset (map call_record (filter (\<lambda>c. ca_level c \<le> Info) [hello]))"
    by (elim exE conjE) (rule that)
  have "map cr_bytes (ms_records st') = [call_record hello]" using m hello_facts(5) by (simp del: mset_map)
  then show "\<exists>d g1 acc p d' g' w' st'. configure_rt False demo_boot (InMemorySink mem_new) 3600 4096 [] NanoLog fresh_globals = Some (Inr d, g1) \<and>
     running default_features vec_io e os Info NanoLog ?ok (process_init d g1 (\<lambda>_. [])) [hello] acc p \<and>
     process_stop default_features vec_io e p = Some (d', g', w') \<and> dr_sink d' = InMemorySink st' \<and>
     map cr_bytes (ms_records st') = [call_record hello]"
    using cfg 2 stop by (intro exI conjI)
qed

text \<open>C5: The same with a sink that writes lines, for calls whose record the drain can render under the
  thread's identity: at the end the target holds, after what was there before, one line for every
  call at or below the level ceiling and nothing else, and a line a thread rendered while the pool
  was empty is the line the drain would have rendered.
  The feature \<open>watermark-head\<close> is off; with it a full ring can stall.\<close>

theorem segmented_writes_lines:
  assumes "\<forall>t s w. \<exists>w'. io_write io t s w = (w', None) \<and> content t w' = content t w @ s"
    "\<forall>t w. \<exists>w'. io_flush io t w = (w', None) \<and> content t w' = content t w"
    "configure_rt False bt s tz cap fmt policy g0 = Some (Inr d, g1)" "g_segments g0 = None" "policy \<in> {Quill, NanoLog}"
    "cap < 2 ^ 64" "\<not> watermark_head ft" "writes_to tgt s"
    "running ft io e os ceiling policy
      (\<lambda>c. call_ok c \<and> slots (length (call_record c)) < cap \<and> thread_line e d os (ca_thread c) (call_record c) \<noteq> None)
      (process_init d g1 w) cs acc p" "length cs < 2 ^ 45"
  shows "(\<forall>c. call_ok c \<and> slots (length (call_record c)) < cap \<and> thread_line e d os (ca_thread c) (call_record c) \<noteq> None \<longrightarrow>
      process_call ft e os ceiling policy c p \<noteq> None) \<and> process_turn ft io e p \<noteq> None \<and>
    (\<exists>d' g' w' D. process_stop ft io e p = Some (d', g', w') \<and>
      mset D = mset (map (\<lambda>c. (ca_thread c, call_record c)) (filter (\<lambda>c. ca_level c \<le> ceiling) cs)) \<and>
      content tgt w' = content tgt w @ pending s @ concat (map (\<lambda>(t, x). the (thread_line e d os t x) @ [NL]) D))"
proof -
  have io: "steady_io io content" using assms(1,2) by unfold_locales (metis prod.inject)+
  show ?thesis using steady_io.lines_segmented [OF io assms(3-7,9,10,8)] unfolding logged_def .
qed

theorem segmented_writes_lines_witness:
  "\<forall>sf os. \<exists>d g1 p acc d' g' w'. configure_rt False demo_boot (WriterSink (Handle 0)) 3600 4096 (bs ''hi'') NanoLog fresh_globals = Some (Inr d, g1) \<and>
     running default_features vec_io (hello_env sf) os Info NanoLog
       (\<lambda>c. call_ok c \<and> slots (length (call_record c)) < 4096 \<and> thread_line (hello_env sf) d os (ca_thread c) (call_record c) \<noteq> None)
       (process_init d g1 (\<lambda>_. [])) [hello] acc p \<and>
     process_stop default_features vec_io (hello_env sf) p = Some (d', g', w') \<and> w' (Handle 0) = bs ''hi'' @ [NL]"
proof (intro allI)
  fix sf os
  let ?e = "hello_env sf"
  have pat: "template_parse (bs ''hi'') = Inr [Lit (bs ''hi'')]" by code_simp
  obtain d g1 where cfg: "configure_rt False demo_boot (WriterSink (Handle 0)) 3600 4096 (bs ''hi'') NanoLog fresh_globals = Some (Inr d, g1)"
    using demo_configure [of "bs ''hi''" "[Lit (bs ''hi'')]" "WriterSink (Handle 0)" NanoLog] pat by auto
  have "dr_pattern d = [Lit (bs ''hi'')]" using configure_pattern [OF cfg] pat by simp
  then have line: "thread_line ?e d os t (call_record hello) = Some (bs ''hi'')" for t using hello_line by (simp add: thread_line_def)
  have io: "\<forall>t s w. \<exists>w'. io_write vec_io t s w = (w', None) \<and> w' t = w t @ s" "\<forall>t w. \<exists>w'. io_flush vec_io t w = (w', None) \<and> w' t = w t"
    by (simp_all add: vec_io_def)
  have lim: "g_segments fresh_globals = None" "NanoLog \<in> {Quill, NanoLog}" "(4096::nat) < 2 ^ 64" "\<not> watermark_head default_features"
    "writes_to (Handle 0) (WriterSink (Handle 0))" by (simp_all add: fresh_globals_def default_features_def)
  note t = segmented_writes_lines [where content = "\<lambda>t w. w t", OF io cfg lim, where e = ?e and os = os and ceiling = Info and w = "\<lambda>_. []"]
  let ?p0 = "process_init d g1 (\<lambda>_ :: target. [] :: bytes)"
  let ?ok = "\<lambda>c. call_ok c \<and> slots (length (call_record c)) < 4096 \<and> thread_line ?e d os (ca_thread c) (call_record c) \<noteq> None"
  let ?run = "running default_features vec_io ?e os Info NanoLog ?ok ?p0"
  have ok: "?ok hello" using hello_facts(1,2) line by simp
  obtain acc p2 where 2: "?run [hello] acc p2"
    using hello_reaches [where ok = ?ok and start = ?p0 and policy = NanoLog and ft = default_features and io = vec_io and e = ?e] t ok by blast
  have "\<exists>d' g' w' D. process_stop default_features vec_io ?e p2 = Some (d', g', w') \<and> mset D = mset [(3, call_record hello)] \<and>
      w' (Handle 0) = concat (map (\<lambda>(t, x). the (thread_line ?e d os t x) @ [NL]) D)" using t [OF 2] hello_facts(4,5) by simp
  then obtain d' g' w' D where stop: "process_stop default_features vec_io ?e p2 = Some (d', g', w')"
    and D: "mset D = mset [(3, call_record hello)]" "w' (Handle 0) = concat (map (\<lambda>(t, x). the (thread_line ?e d os t x) @ [NL]) D)"
    by (elim exE conjE) (rule that)
  have "D = [(3, call_record hello)]" using D(1) by simp
  then have "w' (Handle 0) = bs ''hi'' @ [NL]" using D(2) line by simp
  then show "\<exists>d g1 p acc d' g' w'. configure_rt False demo_boot (WriterSink (Handle 0)) 3600 4096 (bs ''hi'') NanoLog fresh_globals = Some (Inr d, g1) \<and>
     running default_features vec_io ?e os Info NanoLog
       (\<lambda>c. call_ok c \<and> slots (length (call_record c)) < 4096 \<and> thread_line ?e d os (ca_thread c) (call_record c) \<noteq> None)
       (process_init d g1 (\<lambda>_. [])) [hello] acc p \<and>
     process_stop default_features vec_io ?e p = Some (d', g', w') \<and> w' (Handle 0) = bs ''hi'' @ [NL]"
    using cfg 2 stop by (intro exI conjI)
qed

text \<open>C6: A configured process delivers what its threads log. Configure a fresh process with the drop
  policy and an in-memory sink, let any number of threads make any interleaving of whole logging
  calls within the record limits, then drop the guard: every call returns, the drain's run
  returns, and the sink holds exactly, thread after thread, the records of each thread's calls at
  or below the level ceiling that fit its ring, in call order, byte for byte and each once. In
  particular a thread whose records together stay below the ring capacity loses none.
  The feature \<open>watermark-head\<close> is off; with it a full ring can stall.\<close>

theorem process_delivers:
  fixes ceiling :: level
  assumes "configure_rt False bt (InMemorySink mem_new) tz cap fmt Drop g0 = Some (Inr d, g1)"
    "g_segments g0 = None" "g_capacity g0 = None" "cap < 2 ^ 64" "\<not> watermark_head ft"
    "list_all call_ok cs" "length cs < 2 ^ 45"
  defines "arrived \<equiv> \<lambda>t. admitted cap 0 (thread_records ceiling cs t)"
  shows "(\<exists>ths g2 d' g3 w' st' order. run_calls ft e os ceiling Drop cs (\<lambda>_. idle_thread) g1 = Some (ths, g2) \<and>
      drain_start ft io e [(guard_drop, True)] d g2 w = Some (d', g3, w') \<and> dr_sink d' = InMemorySink st' \<and>
      distinct order \<and> (\<forall>t. t \<notin> set order \<longrightarrow> arrived t = []) \<and>
      map cr_bytes (ms_records st') = concat (map arrived order)) \<and>
    (\<forall>t. used_by (thread_records ceiling cs t) < cap \<longrightarrow> arrived t = thread_records ceiling cs t)"
proof -
  note c = configure_classic [OF assms(1)]
  have st: "g_registry g1 = Some []" "g_segments g1 = None" "g_capacity g1 = Some cap"
    using c(3-5) assms(2,3) by simp_all
  obtain ths g2 regs where r: "run_calls ft e os ceiling Drop cs (\<lambda>_. idle_thread) g1 = Some (ths, g2)"
    "process_inv ft cap 0 (solo_ring ft cap os) regs ths g2 arrived"
    using run_calls_inv [OF process_start [OF st] assms(6) c(1,2) assms(4,5,7), of e os ceiling]
    by (auto simp: arrived_def)
  have d: "mem.inputs (dr_offset d) (dr_calib d) (dr_pattern d) d" "mem_good (dr_sink d, w)" "mem_seen (dr_sink d, w) = []"
    "distinct (map fst (dr_rings d))" "\<not> dr_segmented d" "fst ` set (dr_rings d) \<subseteq> set regs"
    using c by (simp_all add: mem.inputs_def mem_good_def mem_seen_def)
  have Q: "solo_ring ft cap os t r rs \<Longrightarrow> owned_ring cap os (mem_id.admissible os) t r rs" for t r rs
    by (simp add: solo_ring_def owned_ring_def mem_id.admissible_def list_all_iff)
  obtain d' g3 w' order where f: "final_pass ft io e d (guard_drop g2) w = Some (d', g3, w')" "mem_good (dr_sink d', w')" "distinct order"
    "\<forall>t. t \<notin> set order \<longrightarrow> arrived t = []"
    "mem_seen (dr_sink d', w') = concat (map (\<lambda>t. concat (map (mem_id.told os t) (arrived t))) order)"
    using mem_id.shutdown_run [OF r(2) Q d(1,2) d(4-6), where io = io and e = e] unfolding d(3) by auto
  obtain st' where st': "dr_sink d' = InMemorySink st'" using f(2) by (auto simp: mem_good_def split: sink.splits)
  have "map cr_bytes (ms_records st') = concat (map arrived order)"
    using f(5) by (simp add: st' mem_seen_def mem_id.told_def capture_line_def map_concat comp_def)
  then show ?thesis using f(1,3,4) r(1) st' admitted_all [of 0] by (auto simp: arrived_def drain_start_def)
qed

theorem process_delivers_witness:
  "\<forall>e os. \<exists>d g1 ths g2 d' g3 w' st'. configure_rt False demo_boot (InMemorySink mem_new) 3600 4096 [] Drop fresh_globals = Some (Inr d, g1) \<and>
     run_calls default_features e os Info Drop [hello] (\<lambda>_. idle_thread) g1 = Some (ths, g2) \<and>
     drain_start default_features vec_io e [(guard_drop, True)] d g2 (\<lambda>_. []) = Some (d', g3, w') \<and>
     dr_sink d' = InMemorySink st' \<and> call_record hello \<in> cr_bytes ` set (ms_records st')"
proof (intro allI)
  fix e os
  obtain d g1 where cfg: "configure_rt False demo_boot (InMemorySink mem_new) 3600 4096 [] Drop fresh_globals = Some (Inr d, g1)"
    using configure_ok [of fresh_globals demo_boot 3600 4096 "[]" False "InMemorySink mem_new" Drop] demo_config demo_boot_calibrates
    by (auto simp: fresh_globals_def demo_boot_def)
  have ok: "list_all call_ok [hello]" by code_simp
  have tr: "thread_records Info [hello] t = (if t = 3 then [call_record hello] else [])" for t
    by (simp add: thread_records_def hello_def)
  have fit: "used_by [call_record hello] < 4096" by code_simp
  have g: "g_segments fresh_globals = None" "g_capacity fresh_globals = None" by (simp_all add: fresh_globals_def)
  have lim: "(4096::nat) < 2 ^ 64" "\<not> watermark_head default_features" "length [hello] < 2 ^ 45"
    by (simp_all add: default_features_def)
  note p = process_delivers [OF cfg g lim(1,2) ok lim(3), where ceiling = Info and e = e and os = os and io = vec_io and w = "\<lambda>_. []"]
  obtain ths g2 d' g3 w' st' order where run: "run_calls default_features e os Info Drop [hello] (\<lambda>_. idle_thread) g1 = Some (ths, g2)"
     "drain_start default_features vec_io e [(guard_drop, True)] d g2 (\<lambda>_. []) = Some (d', g3, w')"
     "dr_sink d' = InMemorySink st'" and
     o: "\<forall>t. t \<notin> set order \<longrightarrow> admitted 4096 0 (thread_records Info [hello] t) = []"
     "map cr_bytes (ms_records st') = concat (map (\<lambda>t. admitted 4096 0 (thread_records Info [hello] t)) order)"
    using conjunct1 [OF p] by (elim exE conjE) (rule that)
  have a: "admitted 4096 0 (thread_records Info [hello] 3) = thread_records Info [hello] 3"
    using conjunct2 [OF p] fit tr [of 3] by (metis (full_types))
  have "3 \<in> set order" using o(1) a tr by (metis list.distinct(1))
  then have "call_record hello \<in> set (map cr_bytes (ms_records st'))" unfolding o(2) using a tr by force
  then show "\<exists>d g1 ths g2 d' g3 w' st'. configure_rt False demo_boot (InMemorySink mem_new) 3600 4096 [] Drop fresh_globals = Some (Inr d, g1) \<and>
     run_calls default_features e os Info Drop [hello] (\<lambda>_. idle_thread) g1 = Some (ths, g2) \<and>
     drain_start default_features vec_io e [(guard_drop, True)] d g2 (\<lambda>_. []) = Some (d', g3, w') \<and>
     dr_sink d' = InMemorySink st' \<and> call_record hello \<in> cr_bytes ` set (ms_records st')"
    using cfg run by auto
qed

end
